(* ===== verification/Prelude.thy ===== *)
theory Prelude
  imports Main "HOL-Library.Word" "HOL-Library.Sublist"
begin

text \<open>
  Shared vocabulary of the development.  It names the machine types of the simulator
  (\<^verbatim>\<open>src/gem5/src/base/types.hh\<close>), the ways a simulated operation can stop instead of
  returning (the \<^verbatim>\<open>panic\<close>, \<^verbatim>\<open>fatal\<close> and \<^verbatim>\<open>assert\<close> macros, and C++ undefined behaviour),
  the sequencing of operations that can stop, and the generic facts on words, byte lists and
  results that the component theories use.
\<close>

unbundle bit_operations_syntax

section \<open>Machine types\<close>

type_synonym u8 = "8 word"
type_synonym u16 = "16 word"
type_synonym u32 = "32 word"
type_synonym u64 = "64 word"
type_synonym addr = "64 word"
type_synonym tick = "64 word"

section \<open>Operations that can stop\<close>

datatype sim_error = Panic | Fatal | Assert_Failed | Undefined_Behaviour

type_synonym 'a res = "sim_error + 'a"

fun sbind :: "'e + 'a \<Rightarrow> ('a \<Rightarrow> 'e + 'b) \<Rightarrow> 'e + 'b" where
  "sbind (Inl e) f = Inl e"
| "sbind (Inr x) f = f x"

definition sassert :: "bool \<Rightarrow> unit res" where
  "sassert b = (if b then Inr () else Inl Assert_Failed)"

definition spanic_if :: "bool \<Rightarrow> unit res" where
  "spanic_if b = (if b then Inl Panic else Inr ())"

fun sfoldl :: "('s \<Rightarrow> 'a \<Rightarrow> 'e + 's) \<Rightarrow> 's \<Rightarrow> 'a list \<Rightarrow> 'e + 's" where
  "sfoldl f s [] = Inr s"
| "sfoldl f s (x # xs) = sbind (f s x) (\<lambda>s'. sfoldl f s' xs)"

definition is_ok :: "'e + 'a \<Rightarrow> bool" where
  "is_ok r = (case r of Inl _ \<Rightarrow> False | Inr _ \<Rightarrow> True)"

named_theorems res_simps \<open>results of operations that can stop\<close>

lemma sbind_Inr_iff [res_simps]: "sbind m f = Inr y \<longleftrightarrow> (\<exists>x. m = Inr x \<and> f x = Inr y)"
  by (cases m) simp_all

lemma sbind_Inl_iff [res_simps]:
  "sbind m f = Inl e \<longleftrightarrow> m = Inl e \<or> (\<exists>x. m = Inr x \<and> f x = Inl e)"
  by (cases m) simp_all

lemma sbind_assoc: "sbind (sbind m f) g = sbind m (\<lambda>x. sbind (f x) g)"
  by (cases m) simp_all

lemma sbind_Inr_right [simp]: "sbind m Inr = m"
  by (cases m) simp_all

lemma sassert_True [simp]: "b \<Longrightarrow> sassert b = Inr ()"
  by (simp add: sassert_def)

lemma sassert_False [simp]: "\<not> b \<Longrightarrow> sassert b = Inl Assert_Failed"
  by (simp add: sassert_def)

lemma sassert_Inr_iff [res_simps]: "sassert b = Inr u \<longleftrightarrow> b"
  by (simp add: sassert_def)

lemma sassert_Inl_iff [res_simps]: "sassert b = Inl e \<longleftrightarrow> \<not> b \<and> e = Assert_Failed"
  by (auto simp: sassert_def)

lemma spanic_if_Inr_iff [res_simps]: "spanic_if b = Inr u \<longleftrightarrow> \<not> b"
  by (simp add: spanic_if_def)

lemma spanic_if_Inl_iff [res_simps]: "spanic_if b = Inl e \<longleftrightarrow> b \<and> e = Panic"
  by (auto simp: spanic_if_def)

lemma is_ok_simps [simp]: "is_ok (Inr x)" "\<not> is_ok (Inl e)"
  by (simp_all add: is_ok_def)

lemma is_ok_iff: "is_ok r \<longleftrightarrow> (\<exists>x. r = Inr x)"
  by (cases r) simp_all

lemma sfoldl_append: "sfoldl f s (xs @ ys) = sbind (sfoldl f s xs) (\<lambda>s'. sfoldl f s' ys)"
  by (induction xs arbitrary: s) (simp_all add: sbind_assoc)

text \<open>An invariant of every step that returns is an invariant of the whole loop.\<close>

lemma sfoldl_invariant:
  assumes "\<And>s x s'. P s \<Longrightarrow> x \<in> set xs \<Longrightarrow> f s x = Inr s' \<Longrightarrow> P s'"
    and "P s" and "sfoldl f s xs = Inr s'"
  shows "P s'"
  using assms
proof (induction xs arbitrary: s)
  case (Cons x xs)
  from Cons.prems(3) obtain t where t: "f s x = Inr t" "sfoldl f t xs = Inr s'"
    by (auto simp: res_simps)
  have "P t" using Cons.prems(1) [of s x t] Cons.prems(2) t(1) by simp
  show ?case
    by (rule Cons.IH [OF _ \<open>P t\<close> t(2)]) (auto intro: Cons.prems(1))
qed simp

section \<open>Words\<close>

named_theorems word_nat \<open>words read as natural numbers\<close>

declare word_le_nat_alt [word_nat] word_less_nat_alt [word_nat]

lemma unat_minus_le: "b \<le> a \<Longrightarrow> unat (a - b) = unat a - unat (b :: 'a :: len word)"
  by (rule unat_sub)

lemma unat_add_no_wrap:
  "unat a + unat b < 2 ^ LENGTH('a) \<Longrightarrow> unat (a + b) = unat a + unat (b :: 'a :: len word)"
  by (simp add: unat_word_ariths)

lemma unat_plus_one: "a \<noteq> - 1 \<Longrightarrow> unat (a + 1) = unat (a :: 'a :: len word) + 1"
  using unatSuc [of a] by (simp add: add.commute add_eq_0_iff2 minus_equation_iff [of a] eq_commute [of "- 1"])

lemma unat_lt_exp: "unat (a :: 'a :: len word) < 2 ^ LENGTH('a)"
  by simp

lemma word_and_mask_unat: "unat (a AND mask n) = unat (a :: 'a :: len word) mod 2 ^ n"
  using unsigned_take_bit_eq [of n a, where 'a = nat] by (simp add: take_bit_eq_mask [symmetric] take_bit_nat_def)

lemma drop_bit_unat: "unat (drop_bit n a) = unat (a :: 'a :: len word) div 2 ^ n"
  by (simp only: unat_drop_bit_eq drop_bit_nat_def)

lemma take_bit_zero_iff: "take_bit n a = 0 \<longleftrightarrow> (\<forall>i < n. \<not> bit (a :: 'a :: len word) i)"
  by (auto simp: bit_eq_iff bit_take_bit_iff dest: bit_imp_le_length)

lemma bit_via_drop_bit: "k \<le> i \<Longrightarrow> bit a i = bit (drop_bit k (a :: 'a :: len word)) (i - k)"
  by (simp add: bit_drop_bit_eq)

lemma unat_ucast_up:
  "LENGTH('a) \<le> LENGTH('b) \<Longrightarrow> unat (ucast (x :: 'a :: len word) :: 'b :: len word) = unat x"
proof -
  assume "LENGTH('a) \<le> LENGTH('b)"
  then have "(2 :: nat) ^ LENGTH('a) \<le> 2 ^ LENGTH('b)" by (rule power_increasing) simp
  then have "unat x < 2 ^ LENGTH('b)" by (rule less_le_trans [OF unat_lt_exp])
  then show ?thesis by (simp add: unsigned_ucast_eq take_bit_nat_eq_self)
qed

lemma ucast_up_inj:
  "LENGTH('a) \<le> LENGTH('b) \<Longrightarrow> (ucast (x :: 'a :: len word) :: 'b :: len word) = ucast y \<longleftrightarrow> x = y"
  by (metis unat_ucast_up word_unat_eq_iff)

lemma unat_2_power: "k < LENGTH('a) \<Longrightarrow> unat (2 ^ k :: 'a :: len word) = 2 ^ k"
  using unat_of_nat [of "2 ^ k", where 'a = 'a] by (simp add: unat_of_nat)

lemma ex_less_add_iff: "(\<exists>j < n + m. P j) \<longleftrightarrow> (\<exists>j < n. P j) \<or> (\<exists>j < m. P (n + j))"
  for n m :: nat
proof
  assume "\<exists>j < n + m. P j"
  then obtain j where j: "j < n + m" "P j" by blast
  show "(\<exists>j < n. P j) \<or> (\<exists>j < m. P (n + j))"
  proof (cases "j < n")
    case False
    then have "j - n < m" "P (n + (j - n))" using j by simp_all
    then show ?thesis by blast
  qed (use j in blast)
qed (auto intro: trans_less_add1, metis nat_add_left_cancel_less)

lemma unat_last:
  fixes x y :: "'a :: len word"
  assumes "0 < unat y" "unat x + unat y \<le> 2 ^ LENGTH('a)"
  shows "unat (x + y - 1) = unat x + unat y - 1"
proof -
  have y: "unat (y - 1) = unat y - 1" using assms(1) by (intro unat_minus_one) auto
  have "unat (x + (y - 1)) = unat x + unat (y - 1)"
    using assms by (intro unat_add_no_wrap) (simp add: y)
  then show ?thesis using assms(1) y by (simp add: add_diff_eq)
qed

lemma unat_span:
  fixes u w :: "'a :: len word"
  assumes "u \<le> w" "unat w - unat u + 1 < 2 ^ LENGTH('a)"
  shows "unat (w + 1 - u) = unat w - unat u + 1"
proof -
  have eq: "w + 1 - u = (w - u) + 1" by simp
  have "unat ((w - u) + 1) = unat (w - u) + unat (1 :: 'a word)"
    using assms by (intro unat_add_no_wrap) (simp add: unat_sub)
  then show ?thesis using assms(1) unfolding eq by (simp add: unat_sub)
qed

lemma unat_scast_nonneg: "unat (w :: u32) < 2 ^ 31 \<Longrightarrow> unat (scast w :: u64) = unat w"
proof -
  assume "unat w < 2 ^ 31"
  then have "\<not> bit w 31" 
    by (metis bit_iff_odd_drop_bit drop_bit_unat div_less even_zero unat_eq_zero)
  then have "\<not> bit w n" if "31 \<le> n" for n
    using that bit_imp_le_length [of w n] by (cases "n = 31") auto
  then have "(scast w :: u64) = ucast w"
    by (intro bit_eqI) (auto simp: bit_signed_iff bit_ucast_iff min_def)
  then show ?thesis by (simp add: unat_ucast_up)
qed

lemma word_size_less_exp: "a < b \<Longrightarrow> a + 1 \<le> (b :: 'a :: len word)"
  by (simp add: inc_le)

section \<open>Byte lists\<close>

text \<open>
  A store of bytes is a list; \<^verbatim>\<open>get_bytes\<close> and \<^verbatim>\<open>put_bytes\<close> are the two
  directions of \<^verbatim>\<open>std::memcpy\<close> between it and a packet.
\<close>

definition get_bytes :: "'a list \<Rightarrow> nat \<Rightarrow> nat \<Rightarrow> 'a list" where
  "get_bytes m off n = take n (drop off m)"

definition put_bytes :: "'a list \<Rightarrow> nat \<Rightarrow> 'a list \<Rightarrow> 'a list" where
  "put_bytes m off bs = take off m @ bs @ drop (off + length bs) m"

lemma length_get_bytes [simp]: "length (get_bytes m off n) = min n (length m - off)"
  by (simp add: get_bytes_def)

lemma length_put_bytes [simp]: "off + length bs \<le> length m \<Longrightarrow> length (put_bytes m off bs) = length m"
  by (simp add: put_bytes_def)

lemma nth_put_bytes:
  assumes "off + length bs \<le> length m" "i < length m"
  shows "put_bytes m off bs ! i = (if off \<le> i \<and> i < off + length bs then bs ! (i - off) else m ! i)"
  using assms by (auto simp: put_bytes_def nth_append not_less)

lemma nth_get_bytes: "off + n \<le> length m \<Longrightarrow> i < n \<Longrightarrow> get_bytes m off n ! i = m ! (off + i)"
  by (simp add: get_bytes_def)

lemma get_put_bytes_same: "off + length bs \<le> length m \<Longrightarrow> get_bytes (put_bytes m off bs) off (length bs) = bs"
  by (simp add: get_bytes_def put_bytes_def)

lemma get_put_bytes_disjoint:
  assumes "off + length bs \<le> length m" "off' + n \<le> length m" "off' + n \<le> off \<or> off + length bs \<le> off'"
  shows "get_bytes (put_bytes m off bs) off' n = get_bytes m off' n"
  by (rule nth_equalityI) (use assms in \<open>auto simp: nth_get_bytes nth_put_bytes\<close>)

lemma put_get_bytes_same: "off + n \<le> length m \<Longrightarrow> put_bytes m off (get_bytes m off n) = m"
  by (rule nth_equalityI) (auto simp: nth_put_bytes nth_get_bytes)

text \<open>Little-endian values of up to eight bytes (\<^verbatim>\<open>src/gem5/src/sim/byteswap.hh\<close>).\<close>

fun le_val :: "u8 list \<Rightarrow> u64" where
  "le_val [] = 0"
| "le_val (b # bs) = ucast b OR push_bit 8 (le_val bs)"

primrec le_bytes :: "nat \<Rightarrow> u64 \<Rightarrow> u8 list" where
  "le_bytes 0 w = []"
| "le_bytes (Suc n) w = ucast w # le_bytes n (drop_bit 8 w)"

lemma length_le_bytes [simp]: "length (le_bytes n w) = n"
  by (induction n arbitrary: w) simp_all

lemma nth_le_bytes: "i < n \<Longrightarrow> le_bytes n w ! i = ucast (drop_bit (8 * i) w)"
proof (induction n arbitrary: i w)
  case (Suc n)
  then show ?case by (cases i) (simp_all add: add.commute)
qed simp

lemma bit_le_val:
  "length bs \<le> 8 \<Longrightarrow> bit (le_val bs) i \<longleftrightarrow> i div 8 < length bs \<and> bit (bs ! (i div 8)) (i mod 8)"
proof (induction bs arbitrary: i)
  case (Cons b bs)
  have lo: "bit (ucast b :: u64) i \<longleftrightarrow> i < 8 \<and> bit b i"
    by (auto simp: bit_ucast_iff dest: bit_imp_le_length)
  show ?case
  proof (cases "i < 8")
    case True
    then show ?thesis by (simp add: bit_or_iff lo bit_push_bit_iff)
  next
    case False
    then have d: "i div 8 = Suc ((i - 8) div 8)" "i mod 8 = (i - 8) mod 8"
      by (simp_all add: le_div_geq le_mod_geq)
    have "bit (push_bit 8 (le_val bs)) i \<longleftrightarrow> bit (le_val bs) (i - 8)"
    proof (cases "i < 64")
      case i: False
      then have "\<not> (i - 8) div 8 < length bs" using Cons.prems by auto
      then show ?thesis using i Cons.IH [of "i - 8"] Cons.prems by (simp add: bit_push_bit_iff)
    qed (use False in \<open>simp add: bit_push_bit_iff\<close>)
    then show ?thesis using False Cons by (simp add: bit_or_iff lo d)
  qed
qed simp

lemma le_val_bytes: "n \<le> 8 \<Longrightarrow> le_val (le_bytes n w) = take_bit (8 * n) w"
proof (rule bit_eqI)
  fix i assume n: "n \<le> 8"
  have "i div 8 < n \<longleftrightarrow> i < 8 * n" by (simp add: div_less_iff_less_mult mult.commute)
  moreover have "8 * (i div 8) + i mod 8 = i" by simp
  ultimately show "bit (le_val (le_bytes n w)) i \<longleftrightarrow> bit (take_bit (8 * n) w) i"
    using n by (auto simp: bit_le_val nth_le_bytes bit_ucast_iff bit_drop_bit_eq bit_take_bit_iff)
qed

lemma le_bytes_val: "length bs \<le> 8 \<Longrightarrow> le_bytes (length bs) (le_val bs) = bs"
proof (rule nth_equalityI)
  fix i assume n: "length bs \<le> 8" and i: "i < length (le_bytes (length bs) (le_val bs))"
  show "le_bytes (length bs) (le_val bs) ! i = bs ! i"
  proof (rule bit_word_eqI)
    fix k assume "k < LENGTH(8)"
    then have "(8 * i + k) div 8 = i" "(8 * i + k) mod 8 = k" "k < 8" by simp_all
    then show "bit (le_bytes (length bs) (le_val bs) ! i) k \<longleftrightarrow> bit (bs ! i) k"
      using n i by (simp add: nth_le_bytes bit_ucast_iff bit_drop_bit_eq bit_le_val)
  qed
qed simp

end
