(* ===== verification/Bitfield.thy ===== *)
theory Bitfield
  imports Prelude
begin

text \<open>
  Model of \<^verbatim>\<open>src/gem5/src/base/bitfield.hh\<close>: masks, bit-field extraction and insertion, sign
  extension, the two binary searches for the most and least significant set bit, and the
  round-up to a power of two.  The templates are taken at \<^verbatim>\<open>T = uint64_t\<close>; an \<^verbatim>\<open>unsigned\<close>
  argument is a 32-bit word, so that its arithmetic wraps as in the source.  The body of a
  function after its assertion carries the suffix \<^verbatim>\<open>_raw\<close>; a shift by at least the width of
  its operand is undefined behaviour in C++ and an error value here.
\<close>

section \<open>Definitions\<close>

definition bf_mask :: "u32 \<Rightarrow> u64" where
  "bf_mask nbits = (if nbits \<ge> 64 then - 1 else push_bit (unat nbits) 1 - 1)"

definition bits_raw :: "u64 \<Rightarrow> u32 \<Rightarrow> u32 \<Rightarrow> u64" where
  "bits_raw val first lst = (let nbits = first - lst + 1 in drop_bit (unat lst) val AND bf_mask nbits)"

definition bf_bits :: "u64 \<Rightarrow> u32 \<Rightarrow> u32 \<Rightarrow> u64 res" where
  "bf_bits val first lst =
     (if first \<ge> lst then if lst < 64 then Inr (bits_raw val first lst) else Inl Undefined_Behaviour
      else Inl Assert_Failed)"

definition bf_bit :: "u64 \<Rightarrow> u32 \<Rightarrow> u64 res" where
  "bf_bit val b = bf_bits val b b"

definition mbits :: "u64 \<Rightarrow> u32 \<Rightarrow> u32 \<Rightarrow> u64" where
  "mbits val first lst = val AND (bf_mask (first + 1) AND NOT (bf_mask lst))"

definition bf_mask_range :: "u32 \<Rightarrow> u32 \<Rightarrow> u64" where
  "bf_mask_range first lst = mbits (- 1) first lst"

definition sext :: "u64 \<Rightarrow> u32 \<Rightarrow> u64 res" where
  "sext val N = sbind (bf_bit val (N - 1)) (\<lambda>sign_bit.
     Inr (if sign_bit \<noteq> 0 then val OR NOT (bf_mask N) else val))"

definition szext :: "u64 \<Rightarrow> u32 \<Rightarrow> u64 res" where
  "szext val N = sbind (bf_bit val (N - 1)) (\<lambda>sign_bit.
     Inr (if sign_bit \<noteq> 0 then val OR NOT (bf_mask N) else val AND bf_mask N))"

definition insertBits_raw :: "u64 \<Rightarrow> u32 \<Rightarrow> u32 \<Rightarrow> u64 \<Rightarrow> u64" where
  "insertBits_raw val first lst bit_val =
     (let bmask = bf_mask_range first lst;
          val = val AND NOT bmask
      in val OR (push_bit (unat lst) bit_val AND bmask))"

definition insertBits :: "u64 \<Rightarrow> u32 \<Rightarrow> u32 \<Rightarrow> u64 \<Rightarrow> u64 res" where
  "insertBits val first lst bit_val =
     (if first \<ge> lst then
        if lst < 64 then Inr (insertBits_raw val first lst bit_val) else Inl Undefined_Behaviour
      else Inl Assert_Failed)"

definition findMsbSet :: "u64 \<Rightarrow> nat" where
  "findMsbSet val =
     (let msb = 0 in
      if val = 0 then 0 else
      let (msb, val) = (if bits_raw val 63 32 \<noteq> 0 then (msb + 32, drop_bit 32 val) else (msb, val));
          (msb, val) = (if bits_raw val 31 16 \<noteq> 0 then (msb + 16, drop_bit 16 val) else (msb, val));
          (msb, val) = (if bits_raw val 15 8 \<noteq> 0 then (msb + 8, drop_bit 8 val) else (msb, val));
          (msb, val) = (if bits_raw val 7 4 \<noteq> 0 then (msb + 4, drop_bit 4 val) else (msb, val));
          (msb, val) = (if bits_raw val 3 2 \<noteq> 0 then (msb + 2, drop_bit 2 val) else (msb, val))
      in if bits_raw val 1 1 \<noteq> 0 then msb + 1 else msb)"

definition findLsbSet :: "u64 \<Rightarrow> nat" where
  "findLsbSet val =
     (let lsb = 0 in
      if val = 0 then 8 * 8 else
      let (lsb, val) = (if bits_raw val 31 0 = 0 then (lsb + 32, drop_bit 32 val) else (lsb, val));
          (lsb, val) = (if bits_raw val 15 0 = 0 then (lsb + 16, drop_bit 16 val) else (lsb, val));
          (lsb, val) = (if bits_raw val 7 0 = 0 then (lsb + 8, drop_bit 8 val) else (lsb, val));
          (lsb, val) = (if bits_raw val 3 0 = 0 then (lsb + 4, drop_bit 4 val) else (lsb, val));
          (lsb, val) = (if bits_raw val 1 0 = 0 then (lsb + 2, drop_bit 2 val) else (lsb, val))
      in if bits_raw val 0 0 = 0 then lsb + 1 else lsb)"

text \<open>
  \<^verbatim>\<open>popCount\<close>, \<^verbatim>\<open>ctz64\<close> and \<^verbatim>\<open>clz64\<close> call compiler builtins, which count the set bits and the
  trailing and leading zeros of their operand.
\<close>

definition popCount :: "u64 \<Rightarrow> nat" where
  "popCount val = length (filter (bit val) [0..<64])"

definition ctz64 :: "u64 \<Rightarrow> nat" where
  "ctz64 val = (if val \<noteq> 0 then length (takeWhile (\<lambda>i. \<not> bit val i) [0..<64]) else 64)"

definition clz64 :: "u64 \<Rightarrow> nat" where
  "clz64 val = (if val \<noteq> 0 then length (takeWhile (\<lambda>i. \<not> bit val (63 - i)) [0..<64]) else 64)"

definition alignToPowerOfTwo :: "u64 \<Rightarrow> u64" where
  "alignToPowerOfTwo val =
     (let val = val - 1;
          val = val OR drop_bit 1 val;
          val = val OR drop_bit 2 val;
          val = val OR drop_bit 4 val;
          val = val OR drop_bit 8 val;
          val = val OR drop_bit 16 val;
          val = val OR drop_bit 32 val
      in val + 1)"

section \<open>Masks and fields\<close>

named_theorems bf_bit_simps \<open>single bits of the bit-field operations\<close>

lemma bf_mask_eq: "bf_mask n = mask (unat n)"
proof (cases "n \<ge> 64")
  case True
  then have "64 \<le> unat n" by (simp add: word_le_nat_alt)
  then show ?thesis using True by (simp add: bf_mask_def mask_eq_decr_exp)
next
  case False
  then show ?thesis by (simp add: bf_mask_def mask_eq_decr_exp push_bit_eq_mult)
qed

lemma bit_bf_mask [bf_bit_simps]: "bit (bf_mask n) i \<longleftrightarrow> i < 64 \<and> i < unat n"
  by (auto simp: bf_mask_eq bit_mask_iff)

lemma unat_field_width:
  assumes "lst \<le> first" "first < (64 :: u32)"
  shows "unat (first - lst + 1) = unat first - unat lst + 1"
proof -
  have "unat first < 64" using assms by (simp add: word_less_nat_alt)
  moreover have "unat (first - lst) = unat first - unat lst"
    using assms by (simp add: unat_sub)
  ultimately show ?thesis by (subst unat_add_no_wrap) simp_all
qed

lemma bit_bits_raw [bf_bit_simps]:
  assumes "lst \<le> first" "first < 64"
  shows "bit (bits_raw val first lst) i \<longleftrightarrow> i \<le> unat first - unat lst \<and> bit val (unat lst + i)"
proof -
  have "unat first < 64" using assms by (simp add: word_less_nat_alt)
  then show ?thesis
    using assms by (auto simp: bits_raw_def Let_def bit_and_iff bit_drop_bit_eq bit_bf_mask unat_field_width)
qed

lemma bits_raw_eq:
  assumes "lst \<le> first" "first < 64"
  shows "bits_raw val first lst = take_bit (unat first + 1 - unat lst) (drop_bit (unat lst) val)"
proof -
  have "unat lst \<le> unat first" using assms by (simp add: word_le_nat_alt)
  then show ?thesis
    using assms
    by (simp add: bits_raw_def bf_mask_eq unat_field_width take_bit_eq_mask Suc_diff_le)
qed

lemma bit_mbits [bf_bit_simps]:
  assumes "first < 64"
  shows "bit (mbits val first lst) i \<longleftrightarrow> bit val i \<and> unat lst \<le> i \<and> i \<le> unat first"
proof -
  have "unat first < 64" using assms by (simp add: word_less_nat_alt)
  then have "unat (first + 1) = unat first + 1" by (subst unat_add_no_wrap) simp_all
  moreover have "bit val i \<Longrightarrow> i < 64" using bit_imp_le_length [of val i] by simp
  ultimately show ?thesis
    by (auto simp: mbits_def bit_and_iff bit_not_iff bit_bf_mask)
qed

lemma bit_bf_mask_range [bf_bit_simps]:
  "first < 64 \<Longrightarrow> bit (bf_mask_range first lst) i \<longleftrightarrow> unat lst \<le> i \<and> i \<le> unat first"
  by (auto simp: bf_mask_range_def bit_mbits word_less_nat_alt)

text \<open>Inserting a field changes exactly its bits.\<close>

lemma bit_insertBits_raw [bf_bit_simps]:
  assumes "lst \<le> first" "first < 64"
  shows "bit (insertBits_raw val first lst bv) i \<longleftrightarrow>
    (if unat lst \<le> i \<and> i \<le> unat first then bit bv (i - unat lst) else bit val i)"
proof -
  have "unat first < 64" using assms by (simp add: word_less_nat_alt)
  then show ?thesis
    using assms
    by (auto simp: insertBits_raw_def Let_def bit_or_iff bit_and_iff bit_not_iff bit_bf_mask_range bit_push_bit_iff
        dest: bit_imp_le_length)
qed

section \<open>Most and least significant set bit\<close>

lemma bits_raw_halves:
  "bits_raw x 63 32 = take_bit 32 (drop_bit 32 x)" "bits_raw x 31 16 = take_bit 16 (drop_bit 16 x)"
  "bits_raw x 15 8 = take_bit 8 (drop_bit 8 x)" "bits_raw x 7 4 = take_bit 4 (drop_bit 4 x)"
  "bits_raw x 3 2 = take_bit 2 (drop_bit 2 x)" "bits_raw x 1 1 = take_bit 1 (drop_bit 1 x)"
  "bits_raw x 31 0 = take_bit 32 x" "bits_raw x 15 0 = take_bit 16 x" "bits_raw x 7 0 = take_bit 8 x"
  "bits_raw x 3 0 = take_bit 4 x" "bits_raw x 1 0 = take_bit 2 x" "bits_raw x 0 0 = take_bit 1 x"
  by (simp_all add: bits_raw_eq numeral_2_eq_2 [symmetric])

text \<open>
  One probe of either binary search, and what it keeps.  For the most significant bit the value
  is non-zero and below \<^verbatim>\<open>2^(2k)\<close>: a non-zero upper half is shifted down, a zero one dropped.
  For the least significant bit the low \<^verbatim>\<open>2k\<close> bits are not all zero.
\<close>

definition msb_step :: "nat \<Rightarrow> nat \<times> u64 \<Rightarrow> nat \<times> u64" where
  "msb_step k = (\<lambda>(m, x). if take_bit k (drop_bit k x) \<noteq> 0 then (m + k, drop_bit k x) else (m, x))"

definition msb_inv :: "u64 \<Rightarrow> nat \<Rightarrow> nat \<times> u64 \<Rightarrow> bool" where
  "msb_inv v k = (\<lambda>(m, x). drop_bit m v = x \<and> x \<noteq> 0 \<and> unat x < 2 ^ k)"

definition lsb_step :: "nat \<Rightarrow> nat \<times> u64 \<Rightarrow> nat \<times> u64" where
  "lsb_step k = (\<lambda>(m, x). if take_bit k x = 0 then (m + k, drop_bit k x) else (m, x))"

definition lsb_inv :: "u64 \<Rightarrow> nat \<Rightarrow> nat \<times> u64 \<Rightarrow> bool" where
  "lsb_inv v k = (\<lambda>(m, x). drop_bit m v = x \<and> take_bit m v = 0 \<and> take_bit k x \<noteq> 0)"

lemma msb_step_inv: 
  assumes "msb_inv v (2 * k) s"
  shows "msb_inv v k (msb_step k s)"
proof -
  obtain m x where s: "s = (m, x)" by (cases s)
  have inv: "drop_bit m v = x" "x \<noteq> 0" "unat x < 2 ^ (2 * k)"
    using assms by (simp_all add: msb_inv_def s)
  have hi: "unat (drop_bit k x) < 2 ^ k"
    using inv(3) by (simp only: drop_bit_unat)
      (simp add: mult_2 power_add less_mult_imp_div_less)
  then have tb: "take_bit k (drop_bit k x) = drop_bit k x"
    by (simp only: word_unat_eq_iff unsigned_take_bit_eq take_bit_nat_eq_self)
  have "drop_bit k x = 0 \<Longrightarrow> unat x < 2 ^ k"
    by (metis drop_bit_unat div_eq_0_iff power_not_zero unat_0 zero_neq_numeral)
  then show ?thesis
    using inv hi tb
    by (auto simp: msb_inv_def msb_step_def s add.commute)
qed

lemma take_bit_zero_halves:
  assumes "take_bit k (x :: u64) = 0"
  shows "take_bit (j + k) x = 0 \<longleftrightarrow> take_bit j (drop_bit k x) = 0"
proof
  assume "take_bit (j + k) x = 0"
  then show "take_bit j (drop_bit k x) = 0"
    by (simp add: take_bit_zero_iff bit_drop_bit_eq)
next
  assume r: "take_bit j (drop_bit k x) = 0"
  have "\<not> bit x i" if "i < j + k" for i
  proof (cases "i < k")
    case False
    then show ?thesis using r that by (auto simp: take_bit_zero_iff bit_drop_bit_eq dest!: spec [of _ "i - k"])
  qed (use assms in \<open>simp add: take_bit_zero_iff\<close>)
  then show "take_bit (j + k) x = 0" by (simp add: take_bit_zero_iff)
qed

lemma lsb_step_inv:
  assumes "lsb_inv v (2 * k) s"
  shows "lsb_inv v k (lsb_step k s)"
proof -
  obtain m x where s: "s = (m, x)" by (cases s)
  have inv: "drop_bit m v = x" "take_bit m v = 0" "take_bit (k + k) x \<noteq> 0"
    using assms by (simp_all add: lsb_inv_def s mult_2)
  have "take_bit k x = 0 \<Longrightarrow> take_bit k (drop_bit k x) \<noteq> 0"
    using take_bit_zero_halves [of k x k] inv(3) by simp
  moreover have "take_bit k x = 0 \<Longrightarrow> take_bit (k + m) v = 0"
    using take_bit_zero_halves [OF inv(2), of k] inv(1) by simp
  ultimately show ?thesis
    using inv by (auto simp: lsb_step_def lsb_inv_def s add.commute)
qed

lemma msb_step_fold:
  "(if take_bit k (drop_bit k x) \<noteq> 0 then (m + k, drop_bit k x) else (m, x)) = msb_step k (m, x)"
  "(if take_bit 1 (drop_bit 1 x) \<noteq> 0 then m + 1 else m) = fst (msb_step 1 (m, x))"
  by (simp_all add: msb_step_def)

lemma lsb_step_fold:
  "(if take_bit k x = 0 then (m + k, drop_bit k x) else (m, x)) = lsb_step k (m, x)"
  "(if take_bit 1 x = 0 then m + 1 else m) = fst (lsb_step 1 (m, x))"
  by (simp_all add: lsb_step_def)

lemma findMsbSet_steps:
  "v \<noteq> 0 \<Longrightarrow> findMsbSet v =
     fst (msb_step 1 (msb_step 2 (msb_step 4 (msb_step 8 (msb_step 16 (msb_step 32 (0, v)))))))"
  by (simp only: findMsbSet_def Let_def bits_raw_halves if_False msb_step_fold case_prod_beta prod.collapse)

lemma findLsbSet_steps:
  "v \<noteq> 0 \<Longrightarrow> findLsbSet v =
     fst (lsb_step 1 (lsb_step 2 (lsb_step 4 (lsb_step 8 (lsb_step 16 (lsb_step 32 (0, v)))))))"
  by (simp only: findLsbSet_def Let_def bits_raw_halves if_False lsb_step_fold case_prod_beta prod.collapse)

lemma findMsbSet_drop_bit:
  assumes "v \<noteq> 0"
  shows "drop_bit (findMsbSet v) v = 1"
proof -
  have "msb_inv v (2 * 32) (0, v)"
    using assms unat_lt_exp [of v] by (simp add: msb_inv_def)
  from msb_step_inv [OF this] have "msb_inv v (2 * 16) (msb_step 32 (0, v))" by simp
  from msb_step_inv [OF this] have "msb_inv v (2 * 8) (msb_step 16 (msb_step 32 (0, v)))" by simp
  from msb_step_inv [OF this] have "msb_inv v (2 * 4) (msb_step 8 (msb_step 16 (msb_step 32 (0, v))))"
    by simp
  from msb_step_inv [OF this]
  have "msb_inv v (2 * 2) (msb_step 4 (msb_step 8 (msb_step 16 (msb_step 32 (0, v)))))" by simp
  from msb_step_inv [OF this]
  have "msb_inv v (2 * 1) (msb_step 2 (msb_step 4 (msb_step 8 (msb_step 16 (msb_step 32 (0, v))))))"
    by simp
  from msb_step_inv [OF this] findMsbSet_steps [OF assms]
  obtain x where "msb_inv v 1 (findMsbSet v, x)"
    by (metis prod.collapse)
  then have "drop_bit (findMsbSet v) v = x" "unat x = 1"
    by (auto simp: msb_inv_def unat_eq_0 less_2_cases_iff)
  then show ?thesis by (metis unat_1 word_unat_eq_iff)
qed

lemma findLsbSet_inv:
  assumes "v \<noteq> 0"
  shows "take_bit (findLsbSet v) v = 0" and "bit v (findLsbSet v)"
proof -
  have "lsb_inv v (2 * 32) (0, v)"
    using assms by (simp add: lsb_inv_def take_bit_word_eq_self)
  from lsb_step_inv [OF this] have "lsb_inv v (2 * 16) (lsb_step 32 (0, v))" by simp
  from lsb_step_inv [OF this] have "lsb_inv v (2 * 8) (lsb_step 16 (lsb_step 32 (0, v)))" by simp
  from lsb_step_inv [OF this] have "lsb_inv v (2 * 4) (lsb_step 8 (lsb_step 16 (lsb_step 32 (0, v))))"
    by simp
  from lsb_step_inv [OF this]
  have "lsb_inv v (2 * 2) (lsb_step 4 (lsb_step 8 (lsb_step 16 (lsb_step 32 (0, v)))))" by simp
  from lsb_step_inv [OF this]
  have "lsb_inv v (2 * 1) (lsb_step 2 (lsb_step 4 (lsb_step 8 (lsb_step 16 (lsb_step 32 (0, v))))))"
    by simp
  from lsb_step_inv [OF this] findLsbSet_steps [OF assms]
  obtain x where x: "lsb_inv v 1 (findLsbSet v, x)"
    by (metis prod.collapse)
  then show "take_bit (findLsbSet v) v = 0" by (simp add: lsb_inv_def)
  have "bit x 0" using x by (auto simp: lsb_inv_def bit_0 odd_iff_mod_2_eq_one)
  then show "bit v (findLsbSet v)" using x by (auto simp: lsb_inv_def bit_drop_bit_eq)
qed

lemma findMsbSet_bounds:
  assumes "v \<noteq> 0"
  shows "2 ^ findMsbSet v \<le> unat v" "unat v < 2 ^ (findMsbSet v + 1)" "findMsbSet v < 64"
proof -
  have d: "unat v div 2 ^ findMsbSet v = 1"
    using findMsbSet_drop_bit [OF assms] by (metis drop_bit_unat unat_1)
  show a: "2 ^ findMsbSet v \<le> unat v" using d by (metis div_eq_0_iff not_less zero_neq_one)
  show "unat v < 2 ^ (findMsbSet v + 1)"
    using d dividend_less_div_times [of "2 ^ findMsbSet v" "unat v"] by simp
  show "findMsbSet v < 64"
  proof -
    have "2 ^ findMsbSet v < (2 :: nat) ^ 64" using a unat_lt_exp [of v] by simp
    then show ?thesis by (rule power_less_imp_less_exp [rotated]) simp
  qed
qed

section \<open>Counting bits\<close>

lemma popCount_card: "popCount v = card {i. bit v i}"
proof -
  have "{i. bit v i} = set (filter (bit v) [0..<64])"
    by (auto dest: bit_imp_le_length)
  then show ?thesis by (metis popCount_def distinct_card distinct_filter distinct_upt)
qed

lemma popCount_0 [simp]: "popCount 0 = 0"
  by (simp add: popCount_card)

lemma length_takeWhile_upt:
  assumes "k < n" "P k" "\<And>i. i < k \<Longrightarrow> \<not> P i"
  shows "length (takeWhile (\<lambda>i. \<not> P i) [0..<n]) = k"
proof -
  have "[0..<n] = [0..<k] @ k # [Suc k..<n]"
    using assms(1) by (metis le_add1 plus_nat.add_0 upt_add_eq_append upt_conv_Cons less_imp_add_positive)
  then show ?thesis using assms(2,3) by (simp add: takeWhile_append)
qed

lemma ctz64_findLsbSet: "ctz64 v = findLsbSet v"
proof (cases "v = 0")
  case False
  note l = findLsbSet_inv [OF False]
  have "findLsbSet v < 64" using l(2) bit_imp_le_length [of v "findLsbSet v"] by simp
  then have "length (takeWhile (\<lambda>i. \<not> bit v i) [0..<64]) = findLsbSet v"
    using l by (intro length_takeWhile_upt) (simp_all add: take_bit_zero_iff)
  then show ?thesis using False by (simp add: ctz64_def)
qed (simp add: ctz64_def findLsbSet_def)

lemma ctz64_props:
  assumes "v \<noteq> 0"
  shows "ctz64 v < 64" "bit v (ctz64 v)" "\<And>i. i < ctz64 v \<Longrightarrow> \<not> bit v i"
  using findLsbSet_inv [OF assms] bit_imp_le_length [of v "findLsbSet v"]
  by (simp_all add: ctz64_findLsbSet take_bit_zero_iff)

section \<open>Rounding up to a power of two\<close>

text \<open>The value \<^verbatim>\<open>y\<close> is \<^verbatim>\<open>v\<close> with every set bit copied to the \<^verbatim>\<open>n - 1\<close> positions below it.\<close>

definition smeared :: "nat \<Rightarrow> u64 \<Rightarrow> u64 \<Rightarrow> bool" where
  "smeared n v y \<longleftrightarrow> (\<forall>i. bit y i \<longleftrightarrow> (\<exists>j < n. bit v (i + j)))"

lemma smeared_double:
  assumes "smeared n v y"
  shows "smeared (n + n) v (y OR drop_bit n y)"
  unfolding smeared_def
proof
  fix i
  have "bit (y OR drop_bit n y) i \<longleftrightarrow> (\<exists>j < n. bit v (i + j)) \<or> (\<exists>j < n. bit v (i + (n + j)))"
    using assms by (simp add: smeared_def bit_or_iff bit_drop_bit_eq add.left_commute add.assoc)
  also have "\<dots> \<longleftrightarrow> (\<exists>j < n + n. bit v (i + j))"
    by (simp add: ex_less_add_iff)
  finally show "bit (y OR drop_bit n y) i \<longleftrightarrow> (\<exists>j < n + n. bit v (i + j))" .
qed

lemma smeared_all:
  assumes "smeared 64 v y" "v \<noteq> 0"
  shows "y = mask (findMsbSet v + 1)"
proof (rule bit_word_eqI)
  fix i :: nat
  let ?m = "findMsbSet v"
  have top: "bit v ?m" and m: "?m < 64"
    using findMsbSet_drop_bit [OF assms(2)] findMsbSet_bounds(3) [OF assms(2)]
    by (auto simp: bit_iff_odd_drop_bit)
  have above: "\<not> bit v j" if "?m < j" for j
  proof -
    have "drop_bit j v = drop_bit (j - ?m) (drop_bit ?m v)" using that by simp
    then show ?thesis
      using that findMsbSet_drop_bit [OF assms(2)] by (simp add: bit_iff_odd_drop_bit drop_bit_Suc gr0_conv_Suc)
  qed
  have "bit y i \<longleftrightarrow> (\<exists>j < 64. bit v (i + j))" using assms(1) by (simp add: smeared_def)
  also have "\<dots> \<longleftrightarrow> i \<le> ?m"
  proof
    assume "\<exists>j < 64. bit v (i + j)"
    then show "i \<le> ?m" using above by (meson le_add1 le_trans linorder_not_less)
  next
    assume "i \<le> ?m"
    then show "\<exists>j < 64. bit v (i + j)" using top m by (intro exI [of _ "?m - i"]) simp
  qed
  finally show "bit y i \<longleftrightarrow> bit (mask (?m + 1) :: u64) i" using m by (auto simp: bit_mask_iff)
qed

lemma alignToPowerOfTwo_eq:
  assumes "val - 1 \<noteq> 0"
  shows "alignToPowerOfTwo val = 2 ^ (findMsbSet (val - 1) + 1)"
proof -
  define v where "v = val - 1"
  define y1 where "y1 = v OR drop_bit 1 v"
  define y2 where "y2 = y1 OR drop_bit 2 y1"
  define y4 where "y4 = y2 OR drop_bit 4 y2"
  define y8 where "y8 = y4 OR drop_bit 8 y4"
  define y16 where "y16 = y8 OR drop_bit 16 y8"
  define y32 where "y32 = y16 OR drop_bit 32 y16"
  have "smeared 1 v v" by (simp add: smeared_def)
  from smeared_double [OF this] have "smeared 2 v y1" by (simp add: y1_def numeral_2_eq_2)
  from smeared_double [OF this] have "smeared 4 v y2" by (simp add: y2_def)
  from smeared_double [OF this] have "smeared 8 v y4" by (simp add: y4_def)
  from smeared_double [OF this] have "smeared 16 v y8" by (simp add: y8_def)
  from smeared_double [OF this] have "smeared 32 v y16" by (simp add: y16_def)
  from smeared_double [OF this] have "smeared 64 v y32" by (simp add: y32_def)
  then have "y32 = mask (findMsbSet v + 1)" using assms smeared_all [of v y32] by (simp add: v_def)
  then have "y32 + 1 = 2 ^ (findMsbSet v + 1)" by (simp add: mask_eq_decr_exp)
  then show ?thesis
    by (simp only: alignToPowerOfTwo_def Let_def v_def y1_def y2_def y4_def y8_def y16_def y32_def)
qed

lemma alignToPowerOfTwo_least:
  assumes "0 < val" "val \<le> 2 ^ 63"
  shows "\<exists>k. unat (alignToPowerOfTwo val) = 2 ^ k \<and> unat val \<le> 2 ^ k \<and>
    (\<forall>j. unat val \<le> 2 ^ j \<longrightarrow> k \<le> j)"
proof (cases "val = 1")
  case True
  then show ?thesis by (intro exI [of _ 0]) (simp add: alignToPowerOfTwo_def)
next
  case False
  define k where "k = findMsbSet (val - 1)"
  have nz: "val - 1 \<noteq> 0" using False by simp
  have u: "unat (val - 1) = unat val - 1" and pos: "1 \<le> unat val" and le: "unat val \<le> 2 ^ 63"
    using assms by (simp_all add: unat_minus_one word_le_nat_alt unat_gt_0 Suc_le_eq)
  note b = findMsbSet_bounds [OF nz, folded k_def, unfolded u]
  have "2 ^ k < (2 :: nat) ^ 63" using b(1) le pos by linarith
  then have k: "k < 63" by (rule power_less_imp_less_exp [rotated]) simp
  have "unat (2 ^ (k + 1) :: u64) = 2 ^ (k + 1)" using k by (intro unat_2_power) simp
  moreover have "k + 1 \<le> j" if "unat val \<le> 2 ^ j" for j
  proof -
    have "2 ^ k < (2 :: nat) ^ j" using b(1) that pos by linarith
    then have "k < j" by (rule power_less_imp_less_exp [rotated]) simp
    then show ?thesis by simp
  qed
  moreover have "unat val \<le> 2 ^ (k + 1)" using b(2) by linarith
  ultimately show ?thesis
    using alignToPowerOfTwo_eq [OF nz] by (intro exI [of _ "k + 1"]) (simp add: k_def)
qed

section \<open>Properties\<close>

text \<open>
  The binary searches \<^verbatim>\<open>findMsbSet\<close> and \<^verbatim>\<open>findLsbSet\<close> find the highest and the lowest set bit of
  every non-zero 64-bit value, and the intrinsic count of trailing zeros agrees with the search.
\<close>

lemma find_set_bits:
  assumes "v \<noteq> 0"
  shows "bit v (findMsbSet v) \<and> (\<forall>i. bit v i \<longrightarrow> findLsbSet v \<le> i \<and> i \<le> findMsbSet v) \<and>
    bit v (findLsbSet v) \<and> ctz64 v = findLsbSet v"
proof -
  note m = findMsbSet_bounds [OF assms]
  have "bit v (findMsbSet v)" by (simp add: bit_iff_odd_drop_bit findMsbSet_drop_bit [OF assms])
  moreover have "i \<le> findMsbSet v" if "bit v i" for i
  proof (rule ccontr)
    assume "\<not> i \<le> findMsbSet v"
    then have "(2 :: nat) ^ (findMsbSet v + 1) \<le> 2 ^ i" by (intro power_increasing) auto
    then have "unat v div 2 ^ i = 0" using m(2) by simp
    then have "drop_bit i v = 0" by (metis drop_bit_unat unat_eq_zero)
    then show False using that by (simp add: bit_iff_odd_drop_bit)
  qed
  moreover have "findLsbSet v \<le> i" if "bit v i" for i
    using ctz64_props(3) [OF assms, of i] that by (auto simp: ctz64_findLsbSet not_less [symmetric])
  ultimately show ?thesis using findLsbSet_inv(2) [OF assms] ctz64_findLsbSet by blast
qed

lemma find_set_bits_witness: "findMsbSet 0x5000 = 14 \<and> bit (0x5000 :: u64) (findMsbSet 0x5000) \<and> ctz64 0x5000 = findLsbSet 0x5000"
proof -
  have "findMsbSet 0x5000 = 14" by code_simp
  then show ?thesis using find_set_bits [of "0x5000"] by simp
qed

text \<open>
  For every value from 1 to 2^63 \<^verbatim>\<open>alignToPowerOfTwo\<close> returns the least power of two that is not
  below it.
\<close>

lemma alignToPowerOfTwo_is_least:
  assumes "0 < val" "val \<le> 2 ^ 63"
  shows "\<exists>k. unat (alignToPowerOfTwo val) = 2 ^ k \<and> unat val \<le> 2 ^ k \<and> (\<forall>j. unat val \<le> 2 ^ j \<longrightarrow> k \<le> j)"
  using assms by (rule alignToPowerOfTwo_least)

lemma alignToPowerOfTwo_is_least_witness:
  "\<exists>k. unat (alignToPowerOfTwo 100) = 2 ^ k \<and> unat (100 :: u64) \<le> 2 ^ k \<and> (\<forall>j. unat (100 :: u64) \<le> 2 ^ j \<longrightarrow> k \<le> j)"
  by (rule alignToPowerOfTwo_is_least) (simp_all add: word_less_nat_alt word_le_nat_alt)

end
