(* ===== verification/Intmath.thy ===== *)
theory Intmath
  imports Bitfield
begin

text \<open>
  Model of \<^verbatim>\<open>src/gem5/src/base/intmath.hh\<close> at \<^verbatim>\<open>T = uint64_t\<close> (\<^verbatim>\<open>floorLog2\<close> at every width,
  through its \<^verbatim>\<open>sizeof(T)\<close>): base-2 logarithms, the power-of-two test, the alignment of
  addresses and the 64 x 64 to 128 bit product.
\<close>

section \<open>Definitions\<close>

text \<open>\<^verbatim>\<open>ts\<close> is \<^verbatim>\<open>sizeof(T)\<close>, one of 1, 2, 4 and 8.\<close>

definition floorLog2_raw :: "nat \<Rightarrow> u64 \<Rightarrow> nat" where
  "floorLog2_raw ts ux =
     (let y = 0;
          (y, ux) = (if ts \<ge> 8 \<and> ux AND 0xffffffff00000000 \<noteq> 0 then (y + 32, drop_bit 32 ux) else (y, ux));
          (y, ux) = (if ts \<ge> 4 \<and> ux AND 0x00000000ffff0000 \<noteq> 0 then (y + 16, drop_bit 16 ux) else (y, ux));
          (y, ux) = (if ts \<ge> 2 \<and> ux AND 0x000000000000ff00 \<noteq> 0 then (y + 8, drop_bit 8 ux) else (y, ux));
          (y, ux) = (if ux AND 0x00000000000000f0 \<noteq> 0 then (y + 4, drop_bit 4 ux) else (y, ux));
          (y, ux) = (if ux AND 0x000000000000000c \<noteq> 0 then (y + 2, drop_bit 2 ux) else (y, ux));
          (y, ux) = (if ux AND 0x0000000000000002 \<noteq> 0 then (y + 1, ux) else (y, ux))
      in y)"

definition floorLog2 :: "nat \<Rightarrow> u64 \<Rightarrow> nat res" where
  "floorLog2 ts x = (if x > 0 then Inr (floorLog2_raw ts x) else Inl Assert_Failed)"

definition ceilLog2 :: "nat \<Rightarrow> u64 \<Rightarrow> nat res" where
  "ceilLog2 ts n =
     (if n > 0 then
        if n = 1 then Inr 0 else sbind (floorLog2 ts (n - 1)) (\<lambda>y. Inr (y + 1))
      else Inl Assert_Failed)"

definition isPowerOf2 :: "u64 \<Rightarrow> bool" where
  "isPowerOf2 n \<longleftrightarrow> n \<noteq> 0 \<and> \<not> (n AND (n - 1) \<noteq> 0)"

definition divCeil :: "u64 \<Rightarrow> u64 \<Rightarrow> u64 res" where
  "divCeil a b = (if b = 0 then Inl Undefined_Behaviour else Inr ((a + b - 1) div b))"

definition mulUnsignedManual :: "u64 \<Rightarrow> u64 \<Rightarrow> u64 \<times> u64" where
  "mulUnsignedManual val_a val_b =
     (let low = val_a * val_b;
          A = ucast (ucast (drop_bit 32 val_a) :: u32);
          a = ucast (ucast val_a :: u32);
          B = ucast (ucast (drop_bit 32 val_b) :: u32);
          b = ucast (ucast val_b :: u32);
          ab = a * b; Ab = A * b; aB = a * B; AB = A * B;
          c1 = ucast (ucast (drop_bit 32 ab) :: u32);
          c2 = drop_bit 1 c1 + drop_bit 1 Ab + drop_bit 1 aB;
          c2 = c2 + drop_bit 1 ((c1 AND 1) + (Ab AND 1) + (aB AND 1));
          c2 = drop_bit 31 c2
      in (AB + c2, low))"

definition roundUp :: "u64 \<Rightarrow> u64 \<Rightarrow> u64 res" where
  "roundUp val align =
     (if isPowerOf2 align then (let m = align - 1 in Inr ((val + m) AND NOT m)) else Inl Assert_Failed)"

definition roundDown :: "u64 \<Rightarrow> u64 \<Rightarrow> u64 res" where
  "roundDown val align =
     (if isPowerOf2 align then (let m = align - 1 in Inr (val AND NOT m)) else Inl Assert_Failed)"

section \<open>Base-2 logarithms\<close>

lemma and_hi_masks:
  fixes x :: u64
  shows "x AND 0xffffffff00000000 \<noteq> 0 \<longleftrightarrow> take_bit 32 (drop_bit 32 x) \<noteq> 0"
    and "x AND 0x00000000ffff0000 \<noteq> 0 \<longleftrightarrow> take_bit 16 (drop_bit 16 x) \<noteq> 0"
    and "x AND 0x000000000000ff00 \<noteq> 0 \<longleftrightarrow> take_bit 8 (drop_bit 8 x) \<noteq> 0"
    and "x AND 0x00000000000000f0 \<noteq> 0 \<longleftrightarrow> take_bit 4 (drop_bit 4 x) \<noteq> 0"
    and "x AND 0x000000000000000c \<noteq> 0 \<longleftrightarrow> take_bit 2 (drop_bit 2 x) \<noteq> 0"
    and "x AND 0x0000000000000002 \<noteq> 0 \<longleftrightarrow> take_bit 1 (drop_bit 1 x) \<noteq> 0"
proof -
  have gen: "x AND push_bit k (mask k) \<noteq> 0 \<longleftrightarrow> take_bit k (drop_bit k x) \<noteq> 0" for k
  proof -
    have "bit (x AND push_bit k (mask k)) i \<longleftrightarrow> k \<le> i \<and> bit (take_bit k (drop_bit k x)) (i - k)" for i
      by (auto simp: bit_and_iff bit_push_bit_iff bit_mask_iff bit_take_bit_iff bit_drop_bit_eq dest: bit_imp_le_length)
    then have "(\<exists>i. bit (x AND push_bit k (mask k)) i) \<longleftrightarrow> (\<exists>i. bit (take_bit k (drop_bit k x)) i)"
      by (metis add_diff_cancel_left' le_add1)
    then show ?thesis by (metis bit_eqI bit_0_eq bot_apply bot_bool_def)
  qed
  show "x AND 0xffffffff00000000 \<noteq> 0 \<longleftrightarrow> take_bit 32 (drop_bit 32 x) \<noteq> 0"
    using gen [of 32] by (simp add: mask_eq_decr_exp push_bit_eq_mult)
  show "x AND 0x00000000ffff0000 \<noteq> 0 \<longleftrightarrow> take_bit 16 (drop_bit 16 x) \<noteq> 0"
    using gen [of 16] by (simp add: mask_eq_decr_exp push_bit_eq_mult)
  show "x AND 0x000000000000ff00 \<noteq> 0 \<longleftrightarrow> take_bit 8 (drop_bit 8 x) \<noteq> 0"
    using gen [of 8] by (simp add: mask_eq_decr_exp push_bit_eq_mult)
  show "x AND 0x00000000000000f0 \<noteq> 0 \<longleftrightarrow> take_bit 4 (drop_bit 4 x) \<noteq> 0"
    using gen [of 4] by (simp add: mask_eq_decr_exp push_bit_eq_mult)
  show "x AND 0x000000000000000c \<noteq> 0 \<longleftrightarrow> take_bit 2 (drop_bit 2 x) \<noteq> 0"
    using gen [of 2] by (simp add: mask_eq_decr_exp push_bit_eq_mult)
  show "x AND 0x0000000000000002 \<noteq> 0 \<longleftrightarrow> take_bit 1 (drop_bit 1 x) \<noteq> 0"
    using gen [of 1] by (simp add: mask_eq_decr_exp push_bit_eq_mult)
qed

lemma msb_step_idle: "unat x < 2 ^ k \<Longrightarrow> msb_step k (m, x) = (m, x)"
proof -
  assume "unat x < 2 ^ k"
  then have "drop_bit k x = 0" by (simp add: word_unat_eq_iff drop_bit_unat)
  then show ?thesis by (simp add: msb_step_def)
qed

lemma floorLog2_raw_steps:
  "floorLog2_raw ts x =
     fst (msb_step 1 (msb_step 2 (msb_step 4
       ((if ts \<ge> 2 then msb_step 8 else id) ((if ts \<ge> 4 then msb_step 16 else id)
         ((if ts \<ge> 8 then msb_step 32 else id) (0, x)))))))"
proof -
  have fold: "(if c \<and> take_bit k (drop_bit k x) \<noteq> 0 then (m + k, drop_bit k x) else (m, x)) =
      (if c then msb_step k else id) (m, x)"
    "fst (if take_bit 1 (drop_bit 1 x) \<noteq> 0 then (m + 1, x) else (m, x)) = fst (msb_step 1 (m, x))"
    for c m k x
    by (simp_all add: msb_step_def)
  show ?thesis
    by (simp only: floorLog2_raw_def Let_def and_hi_masks fold msb_step_fold case_prod_beta prod.collapse)
qed

lemma floorLog2_raw_eq:
  assumes "x \<noteq> 0" "ts = 1 \<or> ts = 2 \<or> ts = 4 \<or> ts = 8" "unat x < 2 ^ (8 * ts)"
  shows "floorLog2_raw ts x = findMsbSet x"
  using assms(2)
proof (elim disjE)
  assume ts: "ts = 1"
  then have "unat x < 2 ^ 8" "unat x < 2 ^ 16" "unat x < 2 ^ 32" using assms(3) by simp_all
  then show ?thesis by (simp only: floorLog2_raw_steps findMsbSet_steps [OF assms(1)] msb_step_idle ts) simp
next
  assume ts: "ts = 2"
  then have "unat x < 2 ^ 16" "unat x < 2 ^ 32" using assms(3) by simp_all
  then show ?thesis by (simp only: floorLog2_raw_steps findMsbSet_steps [OF assms(1)] msb_step_idle ts) simp
next
  assume ts: "ts = 4"
  then have "unat x < 2 ^ 32" using assms(3) by simp
  then show ?thesis by (simp only: floorLog2_raw_steps findMsbSet_steps [OF assms(1)] msb_step_idle ts) simp
next
  assume "ts = 8"
  then show ?thesis by (simp add: floorLog2_raw_steps findMsbSet_steps [OF assms(1)])
qed

section \<open>Powers of two and alignment\<close>

lemma bit_of_bounds:
  assumes "2 ^ k \<le> unat (a :: u64)" "unat a < 2 ^ (k + 1)"
  shows "bit a k"
proof -
  have "unat (drop_bit k a) = 1"
    using assms by (simp add: drop_bit_unat) (metis Suc_1 div_nat_eqI mult.commute mult_1 nat_mult_1_right power_Suc One_nat_def mult.right_neutral)
  then have "drop_bit k a = 1" by (metis unat_1 word_unat_eq_iff)
  then show ?thesis by (simp add: bit_iff_odd_drop_bit)
qed

lemma isPowerOf2_iff: "isPowerOf2 n \<longleftrightarrow> (\<exists>k < 64. n = 2 ^ k)"
proof
  assume p: "isPowerOf2 n"
  then have nz: "n \<noteq> 0" and a: "n AND (n - 1) = 0" by (simp_all add: isPowerOf2_def)
  let ?k = "findMsbSet n"
  note b = findMsbSet_bounds [OF nz]
  have "n = 2 ^ ?k"
  proof (rule ccontr)
    assume ne: "n \<noteq> 2 ^ ?k"
    have "unat (2 ^ ?k :: u64) = 2 ^ ?k" using b(3) by (intro unat_2_power) simp
    with ne b(1) have "2 ^ ?k < unat n" by (metis le_neq_implies_less word_unat_eq_iff)
    then have "bit (n - 1) ?k" using b nz by (intro bit_of_bounds) (simp_all add: unat_minus_one)
    moreover have "bit n ?k" using b by (intro bit_of_bounds)
    ultimately have "bit (n AND (n - 1)) ?k" by (simp add: bit_and_iff)
    with a show False by simp
  qed
  with b(3) show "\<exists>k < 64. n = 2 ^ k" by blast
next
  assume "\<exists>k < 64. n = 2 ^ k"
  then obtain k where k: "k < 64" "n = 2 ^ k" by blast
  then have "unat n = 2 ^ k" by (simp add: unat_2_power)
  then have "n \<noteq> 0" by (auto simp: unat_eq_zero [symmetric])
  moreover have "n AND (n - 1) = 0"
    by (rule bit_eqI) (auto simp: k bit_and_iff bit_mask_iff bit_exp_iff simp flip: mask_eq_decr_exp)
  ultimately show "isPowerOf2 n" by (simp add: isPowerOf2_def)
qed

lemma unat_and_not_mask: "unat (a AND NOT (mask k)) = unat (a :: u64) div 2 ^ k * 2 ^ k"
proof -
  have "a AND NOT (mask k) = push_bit k (drop_bit k a)"
    by (rule bit_eqI) (auto simp: bit_and_iff bit_not_iff bit_mask_iff bit_push_bit_iff bit_drop_bit_eq dest: bit_imp_le_length)
  moreover have "unat (push_bit k (drop_bit k a)) = take_bit 64 (unat a div 2 ^ k * 2 ^ k)"
    by (simp only: unsigned_push_bit_eq drop_bit_unat) (simp add: push_bit_eq_mult)
  moreover have "unat a div 2 ^ k * 2 ^ k < 2 ^ 64"
    by (rule le_less_trans [OF div_times_less_eq_dividend]) (use unat_lt_exp [of a] in simp)
  ultimately show ?thesis by (simp add: take_bit_nat_eq_self)
qed

lemma roundDown_floor:
  assumes "k < 64"
  shows "\<exists>r. roundDown val (2 ^ k) = Inr r \<and> unat r = unat val div 2 ^ k * 2 ^ k"
proof -
  have "isPowerOf2 (2 ^ k)" using assms isPowerOf2_iff by blast
  then show ?thesis
    by (simp add: roundDown_def unat_and_not_mask flip: mask_eq_decr_exp)
qed

lemma roundUp_ceiling:
  assumes "k < 64" "unat val + 2 ^ k \<le> 2 ^ 64"
  shows "\<exists>r. roundUp val (2 ^ k) = Inr r \<and> 2 ^ k dvd unat r \<and> unat val \<le> unat r \<and> unat r < unat val + 2 ^ k"
proof -
  have p: "isPowerOf2 (2 ^ k)" using assms isPowerOf2_iff by blast
  have m: "unat (mask k :: u64) = 2 ^ k - 1"
    using assms(1) by (simp add: mask_eq_decr_exp unat_minus_one unat_2_power)
  have s: "unat (val + mask k) = unat val + (2 ^ k - 1)"
    using assms(2) by (subst unat_add_no_wrap) (simp_all add: m)
  define q where "q = (unat val + (2 ^ k - 1)) div 2 ^ k"
  have "q * 2 ^ k \<le> unat val + (2 ^ k - 1)"
    unfolding q_def by (rule div_times_less_eq_dividend)
  moreover have "unat val + (2 ^ k - 1) < q * 2 ^ k + 2 ^ k"
    using dividend_less_div_times [of "2 ^ k" "unat val + (2 ^ k - 1)"] unfolding q_def
    by (simp only: add.commute [of _ "2 ^ k"] zero_less_power zero_less_numeral)
  ultimately have "unat val \<le> q * 2 ^ k" "q * 2 ^ k < unat val + 2 ^ k"
    using zero_less_power [of "2 :: nat" k] by linarith+
  then show ?thesis
    using p by (simp add: roundUp_def Let_def unat_and_not_mask s q_def flip: mask_eq_decr_exp)
qed

section \<open>The full product\<close>

lemma unat_low_half: "unat (ucast (ucast (x :: u64) :: u32) :: u64) = unat x mod 2 ^ 32"
  using word_and_mask_unat [of x 32] by (simp add: unsigned_ucast_eq take_bit_eq_mask)

lemma unat_high_half: "unat (ucast (ucast (drop_bit 32 (x :: u64)) :: u32) :: u64) = unat x div 2 ^ 32"
proof -
  have "unat x div 2 ^ 32 < 2 ^ 32" using unat_lt_exp [of x] by (simp add: less_mult_imp_div_less)
  then show ?thesis by (simp add: unat_low_half drop_bit_unat)
qed

lemma unat_times_halves:
  assumes "unat x < 2 ^ 32" "unat y < 2 ^ 32"
  shows "unat (x * y :: u64) = unat x * unat y" and "unat x * unat y \<le> (2 ^ 32 - 1) * (2 ^ 32 - 1)"
proof -
  show le: "unat x * unat y \<le> (2 ^ 32 - 1) * (2 ^ 32 - 1)"
    using assms by (intro mult_le_mono) simp_all
  then have "unat x * unat y < 2 ^ 64" by (rule le_less_trans) simp
  then show "unat (x * y) = unat x * unat y" by (simp add: unat_word_ariths)
qed

lemma half_sum:
  "x div 2 + y div 2 + z div 2 + (x mod 2 + y mod 2 + z mod 2) div 2 = (x + y + z) div 2" for x y z :: nat
proof -
  have "(a + 2 * d) + (b + 2 * e) + (c + 2 * f) = (a + b + c) + 2 * (d + e + f)" for a b c d e f :: nat
    by simp
  from this [of "x mod 2" "x div 2" "y mod 2" "y div 2" "z mod 2" "z div 2"]
  have "x + y + z = (x mod 2 + y mod 2 + z mod 2) + 2 * (x div 2 + y div 2 + z div 2)"
    by (simp only: mod_mult_div_eq)
  then show ?thesis by (simp only: div_mult_self2 [OF numeral_neq_zero])
qed

lemma unat_add4:
  assumes "unat a + unat b + unat c + unat d < 2 ^ 64"
  shows "unat (a + b + c + d :: u64) = unat a + unat b + unat c + unat d"
proof -
  have 1: "unat (a + b) = unat a + unat b" using assms by (intro unat_add_no_wrap) simp
  have 2: "unat (a + b + c) = unat a + unat b + unat c"
    using assms 1 by (subst unat_add_no_wrap) simp_all
  show ?thesis using assms 2 by (subst unat_add_no_wrap) simp_all
qed

lemma carry_sum:
  fixes p q r :: u64
  assumes "unat p + unat q + unat r < 2 ^ 65"
  shows "unat (drop_bit 1 p + drop_bit 1 q + drop_bit 1 r + drop_bit 1 ((p AND 1) + (q AND 1) + (r AND 1))) =
    (unat p + unat q + unat r) div 2"
proof -
  have one: "unat (z AND 1) = unat z mod 2" for z :: u64
    using word_and_mask_unat [of z 1] by (simp add: mask_eq_decr_exp)
  have half: "unat (drop_bit 1 z) = unat z div 2" for z :: u64
    using drop_bit_unat [of 1 z] by simp
  have "unat (p AND 1) + unat (q AND 1) + unat (r AND 1) + unat (0 :: u64) < 2 ^ 64" by (simp add: one)
  from unat_add4 [OF this]
  have low: "unat ((p AND 1) + (q AND 1) + (r AND 1)) = unat p mod 2 + unat q mod 2 + unat r mod 2"
    by (simp add: one)
  have "(unat p + unat q + unat r) div 2 < 2 ^ 64"
    using assms by (intro less_mult_imp_div_less) simp
  then show ?thesis
    by (subst unat_add4; simp only: half low half_sum)
qed

lemma div_product_halves:
  fixes x y :: nat
  defines "A \<equiv> x div 2 ^ 32" and "a \<equiv> x mod 2 ^ 32" and "B \<equiv> y div 2 ^ 32" and "b \<equiv> y mod 2 ^ 32"
  shows "x * y div 2 ^ 64 = A * B + (a * b div 2 ^ 32 + A * b + a * B) div 2 ^ 32"
proof -
  have "x = A * 2 ^ 32 + a" "y = B * 2 ^ 32 + b" by (simp_all add: A_def a_def B_def b_def)
  then have "x * y = (A * B * 2 ^ 32 + A * b + a * B) * 2 ^ 32 + a * b"
    by (simp add: algebra_simps)
  then have "x * y div 2 ^ 32 = A * B * 2 ^ 32 + (a * b div 2 ^ 32 + A * b + a * B)"
    by simp
  moreover have "x * y div 2 ^ 64 = x * y div 2 ^ 32 div 2 ^ 32" by (simp add: div_mult2_eq [symmetric])
  ultimately show ?thesis by simp
qed

lemma mulUnsignedManual_high: "unat (fst (mulUnsignedManual x y)) = unat x * unat y div 2 ^ 64"
proof -
  define A a B b :: u64
    where "A = ucast (ucast (drop_bit 32 x) :: u32)" and "a = ucast (ucast x :: u32)"
      and "B = ucast (ucast (drop_bit 32 y) :: u32)" and "b = ucast (ucast y :: u32)"
  define c1 :: u64 where "c1 = ucast (ucast (drop_bit 32 (a * b)) :: u32)"
  define c2 where "c2 = drop_bit 1 c1 + drop_bit 1 (A * b) + drop_bit 1 (a * B) +
    drop_bit 1 ((c1 AND 1) + (A * b AND 1) + (a * B AND 1))"
  have vals: "unat A = unat x div 2 ^ 32" "unat a = unat x mod 2 ^ 32"
    "unat B = unat y div 2 ^ 32" "unat b = unat y mod 2 ^ 32"
    unfolding A_def a_def B_def b_def by (rule unat_high_half unat_low_half)+
  have lt: "unat A < 2 ^ 32" "unat a < 2 ^ 32" "unat B < 2 ^ 32" "unat b < 2 ^ 32"
    using unat_lt_exp [of x] unat_lt_exp [of y] by (simp_all add: vals less_mult_imp_div_less)
  note prods = unat_times_halves [OF lt(1) lt(4)] unat_times_halves [OF lt(2) lt(3)]
    unat_times_halves [OF lt(2) lt(4)] unat_times_halves [OF lt(1) lt(3)]
  have c1: "unat c1 = unat a * unat b div 2 ^ 32"
    unfolding c1_def prods(5) [symmetric] by (rule unat_high_half)
  have c1_lt: "unat c1 < 2 ^ 32"
    unfolding c1 by (intro less_mult_imp_div_less le_less_trans [OF prods(6)]) simp
  have "unat c1 + unat (A * b) + unat (a * B) < 2 ^ 65"
    using c1_lt prods by simp
  from carry_sum [OF this] have "unat c2 = (unat c1 + unat (A * b) + unat (a * B)) div 2"
    by (simp only: c2_def)
  then have c2: "unat (drop_bit 31 c2) = (unat a * unat b div 2 ^ 32 + unat A * unat b + unat a * unat B) div 2 ^ 32"
    by (simp add: drop_bit_unat c1 prods div_mult2_eq [symmetric])
  have tot: "unat x * unat y div 2 ^ 64 = unat A * unat B + unat (drop_bit 31 c2)"
    by (simp only: c2) (simp only: div_product_halves vals)
  have "unat x * unat y < 2 ^ 64 * 2 ^ 64"
    using unat_lt_exp [of x] unat_lt_exp [of y] by (intro mult_strict_mono) simp_all
  then have "unat x * unat y div 2 ^ 64 < 2 ^ 64" by (simp add: less_mult_imp_div_less)
  then have "unat (A * B + drop_bit 31 c2) = unat x * unat y div 2 ^ 64"
    using tot by (subst unat_add_no_wrap) (simp_all add: prods)
  moreover have "fst (mulUnsignedManual x y) = A * B + drop_bit 31 c2"
    by (simp only: mulUnsignedManual_def Let_def A_def a_def B_def b_def c1_def c2_def fst_conv)
  ultimately show ?thesis by simp
qed

section \<open>Properties\<close>

text \<open>
  The manual 64 by 64 bit multiplication gives the full 128-bit product: the two words it
  returns are the high and the low half of the product of the numbers.
\<close>

lemma mulUnsignedManual_exact:
  "unat (fst (mulUnsignedManual x y)) * 2 ^ 64 + unat (snd (mulUnsignedManual x y)) = unat x * unat y"
proof -
  have "snd (mulUnsignedManual x y) = x * y" by (simp add: mulUnsignedManual_def Let_def)
  then have "unat (snd (mulUnsignedManual x y)) = unat x * unat y mod 2 ^ 64" by (simp add: unat_word_ariths)
  then show ?thesis by (simp only: mulUnsignedManual_high div_mult_mod_eq)
qed

text \<open>
  With a power of two as alignment, \<^verbatim>\<open>roundUp\<close> and \<^verbatim>\<open>roundDown\<close> pass their assertion and give the
  nearest multiples above and below, provided rounding up does not leave the 64-bit range.
\<close>

lemma round_to_alignment:
  assumes "k < 64" "unat val + 2 ^ k \<le> 2 ^ 64"
  shows "\<exists>d u. roundDown val (2 ^ k) = Inr d \<and> roundUp val (2 ^ k) = Inr u \<and>
    2 ^ k dvd unat d \<and> 2 ^ k dvd unat u \<and> unat d \<le> unat val \<and> unat val < unat d + 2 ^ k \<and>
    unat val \<le> unat u \<and> unat u < unat val + 2 ^ k"
proof -
  obtain d where d: "roundDown val (2 ^ k) = Inr d" "unat d = unat val div 2 ^ k * 2 ^ k"
    using roundDown_floor [OF assms(1)] by blast
  moreover have "unat val div 2 ^ k * 2 ^ k \<le> unat val" "unat val < unat val div 2 ^ k * 2 ^ k + 2 ^ k"
    using dividend_less_div_times [of "2 ^ k" "unat val"] by (simp_all add: add.commute)
  ultimately show ?thesis using roundUp_ceiling [OF assms] by simp
qed

lemma round_to_alignment_witness:
  "\<exists>d u. roundDown 1000 (2 ^ 6) = Inr d \<and> roundUp 1000 (2 ^ 6) = Inr u \<and>
    2 ^ 6 dvd unat d \<and> 2 ^ 6 dvd unat u \<and> unat d \<le> unat (1000 :: u64) \<and> unat (1000 :: u64) < unat d + 2 ^ 6 \<and>
    unat (1000 :: u64) \<le> unat u \<and> unat u < unat (1000 :: u64) + 2 ^ 6"
  by (rule round_to_alignment) simp_all

end
