(* ===== verification/Addr_Range.thy ===== *)
theory Addr_Range
  imports Intmath
begin

text \<open>
  Model of \<^verbatim>\<open>src/gem5/src/base/addr_range.hh\<close>: the half-open, possibly interleaved address
  ranges by which every memory-side object says which addresses it answers for.  A range is read
  as the set of addresses that \<^verbatim>\<open>contains\<close> accepts; the theorems relate each operation to
  that set.
\<close>

section \<open>Ranges\<close>

record addr_range =
  r_start :: addr
  r_end :: addr
  masks :: "addr list"
  intlvMatch :: u8

definition interleaved :: "addr_range \<Rightarrow> bool" where
  "interleaved r \<longleftrightarrow> length (masks r) > 0"

definition mergesWith :: "addr_range \<Rightarrow> addr_range \<Rightarrow> bool" where
  "mergesWith t r \<longleftrightarrow> r_start r = r_start t \<and> r_end r = r_end t \<and> masks r = masks t"

definition AddrRange_default :: addr_range where
  "AddrRange_default = \<lparr>r_start = 1, r_end = 0, masks = [], intlvMatch = 0\<rparr>"

definition AddrRange :: "addr \<Rightarrow> addr \<Rightarrow> addr_range" where
  "AddrRange st en = \<lparr>r_start = st, r_end = en, masks = [], intlvMatch = 0\<rparr>"

definition AddrRange_masks :: "addr \<Rightarrow> addr \<Rightarrow> addr list \<Rightarrow> u8 \<Rightarrow> addr_range res" where
  "AddrRange_masks st en ms intlv_match =
     (if ms \<noteq> [] \<and> unat intlv_match \<ge> 2 ^ length ms then Inl Fatal
      else Inr \<lparr>r_start = st, r_end = en, masks = ms, intlvMatch = intlv_match\<rparr>)"

text \<open>
  The constructor from the positions of the interleaving and hashing bits.  The loop fills the
  mask vector from its last entry down; the bit positions are 8-bit values.
\<close>

definition intlv_mask :: "u8 \<Rightarrow> u8 \<Rightarrow> nat \<Rightarrow> addr" where
  "intlv_mask intlv_high_bit xor_high_bit i =
     (let bit1 = intlv_high_bit - of_nat i;
          m = push_bit (unat bit1) 1
      in if xor_high_bit \<noteq> 0 then (let bit2 = xor_high_bit - of_nat i in m OR push_bit (unat bit2) 1) else m)"

definition AddrRange_legacy :: "addr \<Rightarrow> addr \<Rightarrow> u8 \<Rightarrow> u8 \<Rightarrow> u8 \<Rightarrow> u8 \<Rightarrow> addr_range res" where
  "AddrRange_legacy st en intlv_high_bit xor_high_bit intlv_bits intlv_match =
     (let n = unat intlv_bits in
      if intlv_bits \<noteq> 0 \<and> unat intlv_match \<ge> 2 ^ n then Inl Fatal
      else if intlv_bits \<noteq> 0 \<and> xor_high_bit \<noteq> 0 \<and>
              (xor_high_bit = intlv_high_bit \<or>
               xor_high_bit > intlv_high_bit \<and> unat xor_high_bit - unat intlv_high_bit < n \<or>
               xor_high_bit < intlv_high_bit \<and> unat intlv_high_bit - unat xor_high_bit < n) then Inl Fatal
      else Inr \<lparr>r_start = st, r_end = en,
                masks = fold (\<lambda>i ms. ms[n - i - 1 := intlv_mask intlv_high_bit xor_high_bit i]) [0..<n] (replicate n 0),
                intlvMatch = intlv_match\<rparr>)"

text \<open>The merging constructor: a complete set of stripes collapses into the whole range.\<close>

fun merge_check :: "addr_range \<Rightarrow> addr_range list \<Rightarrow> u8 \<Rightarrow> unit res" where
  "merge_check r0 [] match = Inr ()"
| "merge_check r0 (r # rs) match =
     (if \<not> mergesWith r0 r then Inl Fatal
      else if intlvMatch r \<noteq> match then Inl Fatal
      else merge_check r0 rs (match + 1))"

definition AddrRange_merge :: "addr_range list \<Rightarrow> addr_range res" where
  "AddrRange_merge rs =
     (let r0 = (case rs of [] \<Rightarrow> AddrRange_default | r # _ \<Rightarrow> r) in
      if length rs > 1 then
        if length rs \<noteq> 2 ^ length (masks r0) then Inl Fatal
        else sbind (merge_check r0 rs 0) (\<lambda>_. Inr (r0\<lparr>masks := [], intlvMatch := 0\<rparr>))
      else Inr r0)"

definition range_size :: "addr_range \<Rightarrow> addr" where
  "range_size r = drop_bit (length (masks r)) (r_end r - r_start r)"

definition stripes :: "addr_range \<Rightarrow> u32" where
  "stripes r = push_bit (length (masks r)) 1"

text \<open>
  \<^verbatim>\<open>auto combined_mask = 0\<close> declares an \<^verbatim>\<open>int\<close>: the masks are cut to 32 bits before they are
  combined, and the result is sign-extended for \<^verbatim>\<open>ctz64\<close>.  A shift by 64 is undefined.
\<close>

definition granularity :: "addr_range \<Rightarrow> u64 res" where
  "granularity r =
     (if interleaved r then
        (let combined_mask = fold (\<lambda>m c. c OR (ucast m :: u32)) (masks r) 0;
             lowest_bit = ctz64 (scast combined_mask)
         in if lowest_bit < 64 then Inr (push_bit lowest_bit 1) else Inl Undefined_Behaviour)
      else Inr (range_size r))"

definition valid :: "addr_range \<Rightarrow> bool" where
  "valid r \<longleftrightarrow> r_start r \<le> r_end r"

text \<open>\<^verbatim>\<open>sel\<close> is an \<^verbatim>\<open>int\<close>: bit \<^verbatim>\<open>i\<close> is the parity of the address under the \<^verbatim>\<open>i\<close>-th mask.\<close>

definition intlv_sel :: "addr list \<Rightarrow> addr \<Rightarrow> u32" where
  "intlv_sel ms a = fold (\<lambda>i sel. sel OR push_bit i (of_nat (popCount (a AND ms ! i) mod 2))) [0..<length ms] 0"

definition contains :: "addr_range \<Rightarrow> addr \<Rightarrow> bool" where
  "contains r a =
     (let in_range = a \<ge> r_start r \<and> a < r_end r in
      if in_range then intlv_sel (masks r) a = ucast (intlvMatch r) else False)"

definition intersects :: "addr_range \<Rightarrow> addr_range \<Rightarrow> bool res" where
  "intersects t r =
     (if r_start t \<ge> r_end r \<or> r_end t \<le> r_start r then Inr False
      else if \<not> interleaved t \<and> \<not> interleaved r then Inr True
      else if range_size r = 1 then Inr (contains t (r_start r))
      else if mergesWith t r then Inr (intlvMatch t = intlvMatch r)
      else Inl Panic)"

definition isSubset :: "addr_range \<Rightarrow> addr_range \<Rightarrow> bool res" where
  "isSubset t r =
     (if interleaved t then Inl Panic
      else if interleaved r then
        (if contains r (r_start t) \<and> contains r (r_end t - 1)
         then sbind (granularity r) (\<lambda>g. Inr (range_size t \<le> g)) else Inr False)
      else Inr (r_start t \<ge> r_start r \<and> r_end t \<le> r_end r))"

text \<open>
  Removing and adding the interleaving bits.  The positions are sorted; \<^verbatim>\<open>i\<close> is unsigned, so
  \<^verbatim>\<open>intlv_bit - i - 1\<close> is 32-bit arithmetic.  The assertion of \<^verbatim>\<open>insertBits\<close> holds because the
  field starts at bit 0, or is one bit wide.
\<close>

definition masks_lsb :: "addr_range \<Rightarrow> nat list" where
  "masks_lsb r = sort (map ctz64 (masks r))"

definition remove_bit_step :: "nat \<times> nat \<Rightarrow> addr \<Rightarrow> addr" where
  "remove_bit_step = (\<lambda>(i, intlv_bit) a.
     if intlv_bit > 0
     then insertBits_raw (drop_bit 1 a) (of_nat intlv_bit - of_nat i - 1) 0 a
     else drop_bit 1 a)"

definition removeIntlvBits :: "addr_range \<Rightarrow> addr \<Rightarrow> addr" where
  "removeIntlvBits r a =
     (if \<not> interleaved r then a else fold remove_bit_step (enumerate 0 (masks_lsb r)) a)"

definition add_bit_step :: "nat \<Rightarrow> addr \<Rightarrow> addr" where
  "add_bit_step intlv_bit a =
     (if intlv_bit > 0
      then insertBits_raw (push_bit 1 a) (of_nat intlv_bit - 1) 0 a
      else push_bit 1 a)"

definition sel_bit_step :: "addr_range \<Rightarrow> nat \<Rightarrow> addr \<Rightarrow> addr" where
  "sel_bit_step r i a =
     (let lsb = ctz64 (masks r ! i);
          intlv_bit = drop_bit i (ucast (intlvMatch r)) AND 1;
          masked = a AND masks r ! i AND scast (NOT (push_bit lsb 1 :: u32))
      in insertBits_raw a (of_nat lsb) (of_nat lsb) (intlv_bit XOR of_nat (popCount masked)))"

definition addIntlvBits :: "addr_range \<Rightarrow> addr \<Rightarrow> addr" where
  "addIntlvBits r a =
     (if \<not> interleaved r then a
      else
        (let a = fold add_bit_step (masks_lsb r) a
         in fold (sel_bit_step r) [0..<length (masks r)] a))"

definition MaxAddr :: addr where
  "MaxAddr = - 1"

definition getOffset :: "addr_range \<Rightarrow> addr \<Rightarrow> addr" where
  "getOffset r a =
     (let in_range = a \<ge> r_start r \<and> a < r_end r in
      if \<not> in_range then MaxAddr
      else if interleaved r then removeIntlvBits r a - removeIntlvBits r (r_start r)
      else a - r_start r)"

definition range_less :: "addr_range \<Rightarrow> addr_range \<Rightarrow> bool" where
  "range_less t r =
     (if r_start t \<noteq> r_start r then r_start t < r_start r
      else if interleaved t \<and> interleaved r then intlvMatch t < intlvMatch r
      else interleaved t)"

definition range_eq :: "addr_range \<Rightarrow> addr_range \<Rightarrow> bool" where
  "range_eq t r =
     (if r_start t \<noteq> r_start r then False
      else if r_end t \<noteq> r_end r then False
      else if masks t \<noteq> masks r then False
      else if intlvMatch t \<noteq> intlvMatch r then False
      else True)"

definition range_inter :: "addr_range \<Rightarrow> addr_range \<Rightarrow> addr_range res" where
  "range_inter t r =
     (if interleaved t \<or> interleaved r then Inl Panic
      else
        (let st = max (r_start t) (r_start r);
             en = min (r_end t) (r_end r)
         in if en \<le> st then Inr (AddrRange 0 0) else Inr (AddrRange st en)))"

text \<open>\<^verbatim>\<open>std::list::sort\<close> sorts stably by \<^verbatim>\<open>operator<\<close>.\<close>

fun range_insort :: "addr_range \<Rightarrow> addr_range list \<Rightarrow> addr_range list" where
  "range_insort x [] = [x]"
| "range_insort x (y # ys) = (if range_less y x then y # range_insort x ys else x # y # ys)"

definition range_list_sort :: "addr_range list \<Rightarrow> addr_range list" where
  "range_list_sort rs = foldr range_insort rs []"

fun exclude_loop :: "addr_range \<Rightarrow> addr_range list \<Rightarrow> addr \<Rightarrow> addr_range list \<Rightarrow> addr_range list res" where
  "exclude_loop t [] next_start ranges =
     Inr (if next_start < r_end t then ranges @ [AddrRange next_start (r_end t)] else ranges)"
| "exclude_loop t (e # es) next_start ranges =
     (if interleaved e then Inl Assert_Failed
      else sbind (intersects t e) (\<lambda>hit.
        if \<not> hit then exclude_loop t es next_start ranges
        else if r_start e \<le> next_start then
          if r_end e < r_end t
          then exclude_loop t es (if next_start < r_end e then r_end e else next_start) ranges
          else Inr ranges
        else
          (let ranges = ranges @ [AddrRange next_start (r_start e)] in
           if r_end e < r_end t then exclude_loop t es (r_end e) ranges else Inr ranges)))"

definition exclude :: "addr_range \<Rightarrow> addr_range list \<Rightarrow> addr_range list res" where
  "exclude t exclude_ranges =
     (if interleaved t then Inl Assert_Failed
      else exclude_loop t (range_list_sort exclude_ranges) (r_start t) [])"

definition exclude_list :: "addr_range list \<Rightarrow> addr_range list \<Rightarrow> addr_range list res" where
  "exclude_list base to_exclude =
     (let to_exclude = range_list_sort to_exclude in
      sfoldl (\<lambda>ret range. sbind (exclude range to_exclude) (\<lambda>rs. Inr (ret @ rs))) [] base)"

definition RangeEx :: "addr \<Rightarrow> addr \<Rightarrow> addr_range" where
  "RangeEx st en = AddrRange st en"

definition RangeIn :: "addr \<Rightarrow> addr \<Rightarrow> addr_range" where
  "RangeIn st en = AddrRange st (en + 1)"

definition RangeSize :: "addr \<Rightarrow> addr \<Rightarrow> addr_range" where
  "RangeSize st sz = AddrRange st (st + sz)"

section \<open>Ranges as sets of addresses\<close>

definition addrs :: "addr_range \<Rightarrow> addr set" where
  "addrs r = {a. contains r a}"

definition plain :: "addr_range \<Rightarrow> bool" where
  "plain r \<longleftrightarrow> masks r = [] \<and> intlvMatch r = 0"

lemma interleaved_iff: "interleaved r \<longleftrightarrow> masks r \<noteq> []"
  by (simp add: interleaved_def)

lemma plain_AddrRange [simp]: "plain (AddrRange st en)" "plain (RangeEx st en)" "plain (RangeIn st en)"
  "plain (RangeSize st sz)"
  by (simp_all add: plain_def AddrRange_def RangeEx_def RangeIn_def RangeSize_def)

lemma AddrRange_sel [simp]: "r_start (AddrRange st en) = st" "r_end (AddrRange st en) = en"
  "masks (AddrRange st en) = []" "intlvMatch (AddrRange st en) = 0"
  by (simp_all add: AddrRange_def)

lemma plain_not_interleaved [simp]: "plain r \<Longrightarrow> \<not> interleaved r"
  by (simp add: plain_def interleaved_def)

lemma intlv_sel_Nil [simp]: "intlv_sel [] a = 0"
  by (simp add: intlv_sel_def)

lemma contains_plain: "plain r \<Longrightarrow> contains r a \<longleftrightarrow> r_start r \<le> a \<and> a < r_end r"
  by (simp add: contains_def plain_def intlv_sel_def)

lemma addrs_plain: "plain r \<Longrightarrow> addrs r = {r_start r..<r_end r}"
  by (auto simp: addrs_def contains_plain)

lemma addrs_bounds: "a \<in> addrs r \<Longrightarrow> r_start r \<le> a \<and> a < r_end r"
  by (simp add: addrs_def contains_def Let_def split: if_splits)

text \<open>The selector bit by bit.\<close>

lemma bit_fold_sel:
  fixes f :: "nat \<Rightarrow> nat"
  assumes "n \<le> 32"
  shows "bit (fold (\<lambda>i sel. sel OR push_bit i (of_nat (f i mod 2))) [0..<n] (0 :: u32)) k \<longleftrightarrow> k < n \<and> odd (f k)"
  using assms
proof (induction n)
  case (Suc n)
  have one: "bit (of_nat (f n mod 2) :: u32) j \<longleftrightarrow> j = 0 \<and> odd (f n)" for j
    by (cases "even (f n)") (auto simp: bit_1_iff odd_iff_mod_2_eq_one)
  have "bit (push_bit n (of_nat (f n mod 2)) :: u32) k \<longleftrightarrow> k = n \<and> odd (f n)"
    using Suc.prems by (auto simp: bit_push_bit_iff one)
  then show ?case using Suc by (auto simp: bit_or_iff less_Suc_eq)
qed simp

lemma bit_intlv_sel:
  "length ms \<le> 32 \<Longrightarrow> bit (intlv_sel ms a) i \<longleftrightarrow> i < length ms \<and> odd (popCount (a AND ms ! i))"
  unfolding intlv_sel_def by (rule bit_fold_sel)

lemma intlv_sel_cong:
  assumes "\<And>m. m \<in> set ms \<Longrightarrow> a AND m = b AND m"
  shows "intlv_sel ms a = intlv_sel ms b"
  unfolding intlv_sel_def by (intro fold_cong) (auto simp: assms)

lemma unat_intlv_sel_less:
  assumes "length ms \<le> 32"
  shows "unat (intlv_sel ms a) < 2 ^ length ms"
proof -
  have "take_bit (length ms) (intlv_sel ms a) = intlv_sel ms a"
    using assms by (auto intro!: bit_eqI simp: bit_take_bit_iff bit_intlv_sel)
  then have "unat (intlv_sel ms a) = unat (intlv_sel ms a) mod 2 ^ length ms"
    by (metis word_and_mask_unat take_bit_eq_mask)
  then show ?thesis by (metis mod_less_divisor zero_less_numeral zero_less_power)
qed

section \<open>Excluding ranges\<close>

lemma set_range_insort [simp]: "set (range_insort x ys) = insert x (set ys)"
  by (induction ys) auto

lemma set_range_list_sort [simp]: "set (range_list_sort rs) = set rs"
  by (induction rs) (auto simp: range_list_sort_def)

lemma range_less_start: "range_less a b \<Longrightarrow> r_start a \<le> r_start b"
  by (auto simp: range_less_def split: if_splits)

lemma not_range_less_start: "\<not> range_less a b \<Longrightarrow> r_start b \<le> r_start a"
  by (auto simp: range_less_def not_less split: if_splits)

lemma sorted_range_insort:
  "sorted_wrt (\<lambda>a b. r_start a \<le> r_start b) ys \<Longrightarrow>
   sorted_wrt (\<lambda>a b. r_start a \<le> r_start b) (range_insort x ys)"
proof (induction ys)
  case (Cons y ys)
  then show ?case
    by (auto dest: range_less_start not_range_less_start intro: order_trans)
qed simp

lemma sorted_range_list_sort: "sorted_wrt (\<lambda>a b. r_start a \<le> r_start b) (range_list_sort rs)"
  by (induction rs) (auto simp: range_list_sort_def intro: sorted_range_insort)

text \<open>
  What the loop of \<^verbatim>\<open>exclude\<close> still has to produce from \<^verbatim>\<open>next_start\<close> on, provided the
  excluded ranges come in order of their start.
\<close>

lemma diff_interval_low:
  "s \<le> n \<Longrightarrow> {n..<t} - ({s..<e} \<union> U) = {(if n < e then e else n)..<t} - U" for s n t e :: "'a :: linorder"
  by auto

lemma diff_interval_none:
  "s \<le> n \<Longrightarrow> t \<le> e \<Longrightarrow> {n..<t} - ({s..<e} \<union> U) = {}" for s n t e :: "'a :: linorder"
  by auto

lemma diff_interval_high:
  fixes s n t e :: "'a :: linorder"
  assumes "n < s" "s \<le> e" "s < t" "\<And>x. x \<in> U \<Longrightarrow> s \<le> x"
  shows "{n..<t} - ({s..<e} \<union> U) = {n..<s} \<union> ({e..<t} - U)"
proof -
  have "{n..<t} = {n..<s} \<union> {s..<t}" using assms by auto
  moreover have "{n..<s} \<inter> U = {}" using assms(4) by force
  moreover have "{s..<t} - {s..<e} = {e..<t}" using assms by auto
  ultimately show ?thesis by auto
qed

definition exclude_ok :: "addr_range \<Rightarrow> addr_range list \<Rightarrow> addr \<Rightarrow> addr_range list \<Rightarrow> bool" where
  "exclude_ok t es ns rs \<longleftrightarrow>
    (\<Union>r\<in>set rs. addrs r) = {ns..<r_end t} - (\<Union>e\<in>set es. addrs e) \<and>
    (\<forall>r\<in>set rs. plain r \<and> ns \<le> r_start r \<and> r_start r < r_end r \<and> r_end r \<le> r_end t) \<and>
    sorted_wrt (\<lambda>a b. r_end a \<le> r_start b) rs"

lemma exclude_ok_done: "r_end t \<le> ns \<Longrightarrow> exclude_ok t es ns []"
  by (simp add: exclude_ok_def)

lemma exclude_ok_rest: "ns < r_end t \<Longrightarrow> exclude_ok t [] ns [AddrRange ns (r_end t)]"
  by (simp add: exclude_ok_def addrs_plain)

lemma exclude_ok_skip:
  assumes "plain e" "r_end e \<le> r_start t \<or> r_end t \<le> r_start e" "r_start t \<le> ns" "exclude_ok t es ns rs"
  shows "exclude_ok t (e # es) ns rs"
proof -
  have "{ns..<r_end t} \<inter> addrs e = {}" using assms(1-3) by (auto simp: addrs_plain)
  then have "{ns..<r_end t} - (\<Union>x\<in>set (e # es). addrs x) = {ns..<r_end t} - (\<Union>x\<in>set es. addrs x)" by auto
  with assms(4) show ?thesis by (simp add: exclude_ok_def)
qed

lemma exclude_ok_low:
  assumes "plain e" "r_start e \<le> ns" "exclude_ok t es (if ns < r_end e then r_end e else ns) rs"
  shows "exclude_ok t (e # es) ns rs"
proof -
  define ns' where "ns' = (if ns < r_end e then r_end e else ns)"
  have "{ns..<r_end t} - (\<Union>x\<in>set (e # es). addrs x) = {ns'..<r_end t} - (\<Union>x\<in>set es. addrs x)"
    using diff_interval_low [OF assms(2)] assms(1) by (simp add: addrs_plain ns'_def)
  moreover have "ns \<le> ns'" by (auto simp: ns'_def)
  moreover have "exclude_ok t es ns' rs" using assms(3) by (simp add: ns'_def)
  ultimately show ?thesis unfolding exclude_ok_def by (auto simp del: UN_simps set_simps intro: order_trans)
qed

lemma exclude_ok_covered:
  "plain e \<Longrightarrow> r_start e \<le> ns \<Longrightarrow> r_end t \<le> r_end e \<Longrightarrow> exclude_ok t (e # es) ns []"
  using diff_interval_none [of "r_start e" ns "r_end t" "r_end e"]
  by (simp add: exclude_ok_def addrs_plain)

lemma exclude_ok_high:
  assumes e: "plain e" "valid e" and lo: "ns < r_start e" "r_start e < r_end t"
    and le: "\<forall>x\<in>set es. r_start e \<le> r_start x" and rest: "exclude_ok t es (r_end e) rs"
  shows "exclude_ok t (e # es) ns (AddrRange ns (r_start e) # rs)"
proof -
  let ?U = "\<Union>x\<in>set es. addrs x"
  have se: "r_start e \<le> r_end e" using e by (simp add: valid_def)
  have "{ns..<r_end t} - ({r_start e..<r_end e} \<union> ?U) = {ns..<r_start e} \<union> ({r_end e..<r_end t} - ?U)"
    by (rule diff_interval_high [OF lo(1) se lo(2)]) (use le addrs_bounds in \<open>blast intro: order_trans\<close>)
  then have "(\<Union>r\<in>set (AddrRange ns (r_start e) # rs). addrs r) = {ns..<r_end t} - (\<Union>x\<in>set (e # es). addrs x)"
    using rest e by (simp add: exclude_ok_def addrs_plain [OF plain_AddrRange(1)] addrs_plain [OF e(1)])
  then show ?thesis using rest lo se unfolding exclude_ok_def by auto
qed

lemma exclude_loop_correct:
  assumes "plain t" "\<forall>e\<in>set es. plain e \<and> valid e"
    "sorted_wrt (\<lambda>a b. r_start a \<le> r_start b) es" "r_start t \<le> ns"
  shows "\<exists>rs. exclude_loop t es ns acc = Inr (acc @ rs) \<and> exclude_ok t es ns rs"
  using assms(2-4)
proof (induction es arbitrary: ns acc)
  case Nil
  then show ?case using exclude_ok_rest [of ns t] exclude_ok_done [of t ns] by (auto simp: not_less)
next
  case (Cons e es)
  have e: "plain e" "valid e" and es: "\<forall>x\<in>set es. plain x \<and> valid x"
    and srt: "sorted_wrt (\<lambda>a b. r_start a \<le> r_start b) es" and le: "\<forall>x\<in>set es. r_start e \<le> r_start x"
    using Cons.prems by auto
  note IH = Cons.IH [OF es srt]
  have hit: "intersects t e = Inr (\<not> (r_start t \<ge> r_end e \<or> r_end t \<le> r_start e))"
    using assms(1) e by (simp add: intersects_def)
  consider (miss) "r_start t \<ge> r_end e \<or> r_end t \<le> r_start e"
    | (low) "r_start t < r_end e" "r_start e < r_end t" "r_start e \<le> ns" "r_end e < r_end t"
    | (covered) "r_start t < r_end e" "r_start e < r_end t" "r_start e \<le> ns" "r_end t \<le> r_end e"
    | (high) "r_start t < r_end e" "r_start e < r_end t" "ns < r_start e" "r_end e < r_end t"
    | (cut) "r_start t < r_end e" "r_start e < r_end t" "ns < r_start e" "r_end t \<le> r_end e"
    by (meson not_le)
  then show ?case
  proof cases
    case miss
    then show ?thesis using IH [of ns acc] Cons.prems(3) e by (auto simp: hit intro: exclude_ok_skip)
  next
    case low
    then have "r_start t \<le> (if ns < r_end e then r_end e else ns)" using Cons.prems(3) by auto
    from IH [OF this, of acc] show ?thesis using low e by (auto simp: hit intro: exclude_ok_low)
  next
    case covered
    then show ?thesis using e by (auto simp: hit intro: exclude_ok_covered)
  next
    case high
    from IH [OF less_imp_le [OF high(1)], of "acc @ [AddrRange ns (r_start e)]"]
    show ?thesis using high e le by (auto simp: hit intro: exclude_ok_high)
  next
    case cut
    with exclude_ok_high [OF e cut(3,2) le exclude_ok_done] show ?thesis using e by (auto simp: hit)
  qed
qed

lemma exclude_correct:
  assumes "plain t" "\<forall>e\<in>set es. plain e \<and> valid e"
  shows "\<exists>rs. exclude t es = Inr rs \<and> exclude_ok t es (r_start t) rs"
proof -
  have "\<exists>rs. exclude_loop t (range_list_sort es) (r_start t) [] = Inr ([] @ rs) \<and>
      exclude_ok t (range_list_sort es) (r_start t) rs"
    using assms by (intro exclude_loop_correct sorted_range_list_sort) simp_all
  then show ?thesis using assms(1) by (simp add: exclude_def exclude_ok_def)
qed

section \<open>Merging stripes\<close>

lemma merge_check_Inr:
  assumes "merge_check r0 rs match = Inr u"
  shows "\<forall>i < length rs. mergesWith r0 (rs ! i) \<and> intlvMatch (rs ! i) = match + of_nat i"
  using assms
proof (induction rs arbitrary: match)
  case (Cons r rs)
  then have r: "mergesWith r0 r" "intlvMatch r = match" "merge_check r0 rs (match + 1) = Inr u"
    by (auto split: if_splits)
  show ?case
    using r Cons.IH [OF r(3)] by (auto simp: nth_Cons' less_Suc_eq_0_disj add.assoc)
qed simp

lemma contains_stripe:
  assumes "mergesWith r0 r" "r_start r0 \<le> a" "a < r_end r0"
  shows "contains r a \<longleftrightarrow> intlv_sel (masks r0) a = ucast (intlvMatch r)"
  using assms by (simp add: contains_def mergesWith_def)

text \<open>
  The stripes of a merge cover the merged range exactly and no address twice.
\<close>

lemma AddrRange_merge_covers:
  assumes merge: "AddrRange_merge rs = Inr m" and n: "1 < length rs" "length (masks (hd rs)) \<le> 8"
  shows "plain m" "addrs m = (\<Union>r\<in>set rs. addrs r)"
    "\<And>i j a. i < length rs \<Longrightarrow> j < length rs \<Longrightarrow> a \<in> addrs (rs ! i) \<Longrightarrow> a \<in> addrs (rs ! j) \<Longrightarrow> i = j"
proof -
  obtain r0 where r0: "hd rs = r0" "(case rs of [] \<Rightarrow> AddrRange_default | r # _ \<Rightarrow> r) = r0"
    using n(1) by (cases rs) auto
  have len: "length rs = 2 ^ length (masks r0)" and chk: "merge_check r0 rs 0 = Inr ()"
    and m: "m = r0\<lparr>masks := [], intlvMatch := 0\<rparr>"
    using merge n(1) by (auto simp: AddrRange_merge_def r0(2) Let_def res_simps split: if_splits)
  have ms: "length (masks r0) \<le> 8" using n(2) r0(1) by simp
  then have "length rs \<le> 2 ^ 8" unfolding len by (intro power_increasing) simp_all
  note st = merge_check_Inr [OF chk]
  have match: "ucast (intlvMatch (rs ! i)) = (of_nat i :: u32)" if "i < length rs" for i
    using st that \<open>length rs \<le> 2 ^ 8\<close>
    by (simp add: word_unat_eq_iff unsigned_ucast_eq unat_of_nat take_bit_nat_eq_self)
  show pm: "plain m" by (simp add: m plain_def)
  have mem: "a \<in> addrs (rs ! i) \<longleftrightarrow> a \<in> addrs m \<and> intlv_sel (masks r0) a = of_nat i" if "i < length rs" for a i
  proof -
    have "mergesWith r0 (rs ! i)" using st that by simp
    then show ?thesis
      using contains_stripe [of r0 "rs ! i" a] match [OF that]
      by (auto simp: addrs_def contains_plain [OF pm] m mergesWith_def contains_def)
  qed
  have "\<exists>r\<in>set rs. a \<in> addrs r" if "a \<in> addrs m" for a
  proof -
    have i: "unat (intlv_sel (masks r0) a) < length rs"
      unfolding len using ms by (intro unat_intlv_sel_less) simp
    then have "a \<in> addrs (rs ! unat (intlv_sel (masks r0) a))" using mem that by simp
    then show ?thesis using i by (meson nth_mem)
  qed
  then show "addrs m = (\<Union>r\<in>set rs. addrs r)"
    using mem by (fastforce simp: in_set_conv_nth)
  show "i = j" if "i < length rs" "j < length rs" "a \<in> addrs (rs ! i)" "a \<in> addrs (rs ! j)" for i j a
  proof -
    have "(of_nat i :: u32) = of_nat j" using that mem by metis
    then show ?thesis
      using that(1,2) \<open>length rs \<le> 2 ^ 8\<close> by (simp add: word_unat_eq_iff unat_of_nat)
  qed
qed

section \<open>Subsets\<close>

lemma bit_fold_or: "bit (fold (\<lambda>m c. c OR f m) ms (c :: u32)) i \<longleftrightarrow> bit c i \<or> (\<exists>m\<in>set ms. bit (f m) i)"
  by (induction ms arbitrary: c) (auto simp: bit_or_iff)

text \<open>
  Masks that fit in 31 bits survive the conversion to \<^verbatim>\<open>int\<close>, and the granularity is then the
  largest power of two below which no mask looks at the address.
\<close>

lemma granularity_masks:
  assumes "interleaved r" "granularity r = Inr g" "\<forall>m\<in>set (masks r). unat m < 2 ^ 31"
  shows "\<exists>k < 64. g = 2 ^ k \<and> (\<forall>m\<in>set (masks r). \<forall>i < k. \<not> bit m i)"
proof -
  define c where "c = fold (\<lambda>m c. c OR (ucast m :: u32)) (masks r) 0"
  define k where "k = ctz64 (scast c)"
  have k: "k < 64" "g = 2 ^ k"
    using assms(1,2) by (auto simp: granularity_def Let_def c_def k_def push_bit_eq_mult split: if_splits)
  have low: "\<not> bit m i" if "m \<in> set (masks r)" "i < k" for m i
  proof
    assume b: "bit m i"
    have "unat m < 2 ^ 31" using assms(3) that(1) by blast
    then have "unat (drop_bit 31 m) = 0" by (simp only: drop_bit_unat) simp
    then have "drop_bit 31 m = 0" by (simp add: unat_eq_zero)
    then have "i < 31" using b bit_via_drop_bit [of 31 i m] by (cases "i < 31") simp_all
    then have "bit c i" using b that(1) by (auto simp: c_def bit_fold_or bit_ucast_iff)
    then have "bit (scast c :: u64) i" using \<open>i < 31\<close> by (auto simp: bit_signed_iff min_def)
    then show False using ctz64_props(3) [of "scast c" i] that(2)
      by (cases "scast c = (0 :: u64)") (auto simp: k_def)
  qed
  from k low show ?thesis by blast
qed

lemma and_eq_from_drop:
  assumes "\<And>i. i < k \<Longrightarrow> \<not> bit (m :: u64) i" "drop_bit k a = drop_bit k b"
  shows "a AND m = b AND m"
proof (rule bit_eqI)
  fix i
  have "bit a i \<longleftrightarrow> bit b i" if "k \<le> i"
    using assms(2) bit_via_drop_bit [OF that, of a] bit_via_drop_bit [OF that, of b] by simp
  then show "bit (a AND m) i \<longleftrightarrow> bit (b AND m) i" using assms(1) by (cases "i < k") (auto simp: bit_and_iff)
qed

lemma div_between:
  fixes s x l K :: nat
  assumes "s \<le> x" "x \<le> l" "l - s < K"
  shows "x div K = s div K \<or> x div K = l div K"
proof -
  have "l < s + K" using assms by linarith
  then have "l div K \<le> (s + K) div K" by (intro div_le_mono) simp
  moreover have "(s + K) div K = s div K + 1" using assms(3) by (intro div_add_self2) simp
  ultimately have "l div K \<le> s div K + 1" by simp
  moreover have "s div K \<le> x div K" "x div K \<le> l div K" using assms by (simp_all add: div_le_mono)
  ultimately show ?thesis by linarith
qed

lemma isSubset_sound:
  assumes t: "plain t" "r_start t < r_end t" and sub: "isSubset t r = Inr True"
    and ms: "\<forall>m\<in>set (masks r). unat m < 2 ^ 31" "\<not> interleaved r \<Longrightarrow> plain r"
  shows "addrs t \<subseteq> addrs r"
proof (cases "interleaved r")
  case False
  then show ?thesis using t(1) sub ms(2) by (auto simp: isSubset_def addrs_plain)
next
  case True
  then obtain g where g: "granularity r = Inr g" "range_size t \<le> g"
    and ends: "contains r (r_start t)" "contains r (r_end t - 1)"
    using t(1) sub by (auto simp: isSubset_def res_simps split: if_splits)
  from granularity_masks [OF True g(1) ms(1)]
  obtain k where k: "g = 2 ^ k" "k < 64" "\<And>m i. m \<in> set (masks r) \<Longrightarrow> i < k \<Longrightarrow> \<not> bit m i"
    by blast
  have sel: "intlv_sel (masks r) x = intlv_sel (masks r) y" if "unat x div 2 ^ k = unat y div 2 ^ k" for x y
    using that k(3) and_eq_from_drop [of k _ x y]
    by (intro intlv_sel_cong) (simp add: word_unat_eq_iff drop_bit_unat)
  show ?thesis
  proof
    fix x assume "x \<in> addrs t"
    then have x: "r_start t \<le> x" "x < r_end t" using t(1) by (simp_all add: addrs_plain)
    have e: "unat (r_end t - 1) = unat (r_end t) - 1"
      using t(2) by (intro unat_minus_one) auto
    have sz: "unat (r_end t) - unat (r_start t) \<le> 2 ^ k"
      using g(2) t k(1,2) by (simp add: range_size_def plain_def word_le_nat_alt unat_2_power unat_sub word_less_nat_alt)
    have "unat x div 2 ^ k = unat (r_start t) div 2 ^ k \<or> unat x div 2 ^ k = unat (r_end t - 1) div 2 ^ k"
      using x sz by (intro div_between) (auto simp: word_le_nat_alt word_less_nat_alt e)
    then have "intlv_sel (masks r) x = intlv_sel (masks r) (r_start t) \<or>
        intlv_sel (masks r) x = intlv_sel (masks r) (r_end t - 1)"
      using sel by blast
    then have "intlv_sel (masks r) x = ucast (intlvMatch r)"
      using ends by (auto simp: contains_def Let_def split: if_splits)
    moreover have "r_start r \<le> x" "x < r_end r"
      using ends x e by (auto simp: contains_def Let_def word_le_nat_alt word_less_nat_alt split: if_splits)
    ultimately show "x \<in> addrs r" by (simp add: addrs_def contains_def)
  qed
qed

section \<open>Properties\<close>

text \<open>
  C13: \<^verbatim>\<open>AddrRange::exclude\<close> returns, for a plain range and any list of plain valid ranges in any
  order and overlapping in any way, non-empty ranges in ascending order that cover exactly the
  addresses of the range outside all excluded ones.
\<close>

theorem exclude_covers:
  assumes "plain t" "\<forall>e\<in>set es. plain e \<and> valid e"
  shows "\<exists>rs. exclude t es = Inr rs \<and> (\<Union>r\<in>set rs. addrs r) = addrs t - (\<Union>e\<in>set es. addrs e) \<and>
    (\<forall>r\<in>set rs. plain r \<and> r_start r < r_end r) \<and> sorted_wrt (\<lambda>a b. r_end a \<le> r_start b) rs"
  using exclude_correct [OF assms] unfolding exclude_ok_def addrs_plain [OF assms(1), symmetric] by blast

theorem exclude_covers_witness:
  "\<exists>rs. exclude (AddrRange 0 100) [AddrRange 80 90, AddrRange 10 20] = Inr rs \<and>
    (\<Union>r\<in>set rs. addrs r) = addrs (AddrRange 0 100) - (\<Union>e\<in>set [AddrRange 80 90, AddrRange 10 20]. addrs e) \<and>
    (\<forall>r\<in>set rs. plain r \<and> r_start r < r_end r) \<and> sorted_wrt (\<lambda>a b. r_end a \<le> r_start b) rs"
  by (rule exclude_covers) (simp_all add: valid_def)

text \<open>
  Merging a complete set of interleaved stripes gives a plain range whose addresses are exactly
  those of the stripes, and no address lies in two stripes.
\<close>

lemma merge_stripes_exact:
  assumes "AddrRange_merge rs = Inr m" "1 < length rs" "length (masks (hd rs)) \<le> 8"
  shows "plain m \<and> addrs m = (\<Union>r\<in>set rs. addrs r) \<and>
    (\<forall>i < length rs. \<forall>j < length rs. i \<noteq> j \<longrightarrow> addrs (rs ! i) \<inter> addrs (rs ! j) = {})"
  using AddrRange_merge_covers [OF assms] by blast

lemma merge_stripes_exact_witness:
  "let s = (\<lambda>i. \<lparr>r_start = 0, r_end = 0x1000, masks = [0x40], intlvMatch = i\<rparr>);
       m = AddrRange 0 0x1000
   in AddrRange_merge [s 0, s 1] = Inr m \<and> plain m \<and> addrs m = (\<Union>r\<in>set [s 0, s 1]. addrs r)"
proof -
  let ?s = "\<lambda>i. \<lparr>r_start = 0, r_end = 0x1000, masks = [0x40], intlvMatch = i\<rparr>"
  have "AddrRange_merge [?s 0, ?s 1] = Inr (AddrRange 0 0x1000)"
    by (simp add: AddrRange_merge_def AddrRange_def mergesWith_def)
  with merge_stripes_exact [of "[?s 0, ?s 1]" "AddrRange 0 0x1000"] show ?thesis by (simp add: Let_def)
qed

text \<open>
  Whenever \<^verbatim>\<open>isSubset\<close> answers yes for a non-empty plain range, every one of its addresses
  belongs to the other range, interleaved or not (with masks below bit 31).
\<close>

lemma isSubset_addresses:
  assumes "plain t" "r_start t < r_end t" "isSubset t r = Inr True"
    "\<forall>m\<in>set (masks r). unat m < 2 ^ 31" "\<not> interleaved r \<longrightarrow> plain r"
  shows "addrs t \<subseteq> addrs r"
  using isSubset_sound assms by blast

lemma isSubset_addresses_witness:
  "addrs (AddrRange 0x40 0x60) \<subseteq> addrs \<lparr>r_start = 0, r_end = 0x1000, masks = [0x40], intlvMatch = 1\<rparr>"
proof (rule isSubset_addresses)
  show "isSubset (AddrRange 0x40 0x60) \<lparr>r_start = 0, r_end = 0x1000, masks = [0x40], intlvMatch = 1\<rparr> = Inr True"
    by code_simp
qed (simp_all add: interleaved_def)

text \<open>
  A stripe of a single byte does not intersect itself: the test for ranges of size one comes
  before the test for equal interleaving and looks only at the first address of the whole range.
\<close>

lemma intersects_itself_refuted:
  "let r = \<lparr>r_start = 0, r_end = 2, masks = [1], intlvMatch = 1\<rparr>
   in 1 \<in> addrs r \<and> intersects r r = Inr False"
proof -
  have "contains \<lparr>r_start = 0, r_end = 2, masks = [1], intlvMatch = 1\<rparr> 1" by code_simp
  moreover have "intersects \<lparr>r_start = 0, r_end = 2, masks = [1], intlvMatch = 1\<rparr>
      \<lparr>r_start = 0, r_end = 2, masks = [1], intlvMatch = 1\<rparr> = Inr False" by code_simp
  ultimately show ?thesis by (simp add: addrs_def)
qed

end
