(* ===== verification/Addr_Interleave.thy ===== *)
theory Addr_Interleave
  imports Addr_Range
begin

text \<open>
  The interleaving bits of a range (\<^verbatim>\<open>removeIntlvBits\<close>, \<^verbatim>\<open>addIntlvBits\<close> and \<^verbatim>\<open>getOffset\<close> of
  \<^verbatim>\<open>src/gem5/src/base/addr_range.hh\<close>, defined in \<^verbatim>\<open>Addr_Range\<close>): both loops move the bits of
  the address around the positions of the lowest set bits of the masks.  The positions are
  described by an index function, with which the two directions are inverse to each other.
\<close>

section \<open>Positions\<close>

definition skip :: "nat \<Rightarrow> nat \<Rightarrow> nat" where
  "skip p j = (if j < p then j else j + 1)"

fun free_pos :: "nat list \<Rightarrow> nat \<Rightarrow> nat" where
  "free_pos [] j = j"
| "free_pos (p # ps) j = free_pos ps (skip p j)"

lemma skip_commute: "p < q \<Longrightarrow> skip q (skip p j) = skip p (skip (q - 1) j)"
  by (auto simp: skip_def)

lemma free_pos_skip:
  "\<forall>q\<in>set ps. p < q \<Longrightarrow> free_pos ps (skip p j) = skip p (free_pos (map (\<lambda>q. q - 1) ps) j)"
  by (induction ps arbitrary: j) (simp_all add: skip_commute)

lemma free_pos_Cons:
  "sorted_wrt (<) (p # ps) \<Longrightarrow> free_pos (p # ps) j = skip p (free_pos (map (\<lambda>q. q - 1) ps) j)"
  by (simp add: free_pos_skip)

lemma sorted_wrt_map_minus:
  "sorted_wrt (<) ps \<Longrightarrow> \<forall>q\<in>set ps. i \<le> q \<Longrightarrow> sorted_wrt (<) (map (\<lambda>q. q - i) ps)" for i :: nat
  by (induction ps) (auto intro: diff_less_mono)

lemma sorted_wrt_less_pred:
  "sorted_wrt (<) (p # ps) \<Longrightarrow> sorted_wrt (<) (map (\<lambda>q. q - 1) ps)" for p :: nat
  by (rule sorted_wrt_map_minus) auto

lemma free_pos_bounds: "j \<le> free_pos ps j" "free_pos ps j \<le> j + length ps"
proof -
  show "j \<le> free_pos ps j"
  proof (induction ps arbitrary: j)
    case (Cons p ps)
    show ?case using Cons [of "skip p j"] by (simp add: skip_def split: if_splits)
  qed simp
  show "free_pos ps j \<le> j + length ps"
  proof (induction ps arbitrary: j)
    case (Cons p ps)
    show ?case using Cons [of "skip p j"] by (simp add: skip_def split: if_splits)
  qed simp
qed

lemma free_pos_surj:
  "sorted_wrt (<) ps \<Longrightarrow> k \<notin> set ps \<Longrightarrow> \<exists>j. free_pos ps j = k"
proof (induction ps arbitrary: k rule: length_induct)
  case (1 ps)
  show ?case
  proof (cases ps)
    case (Cons p qs)
    define k' where "k' = (if k < p then k else k - 1)"
    have k: "skip p k' = k" using 1(3) Cons by (auto simp: k'_def skip_def)
    have "k' \<notin> set (map (\<lambda>q. q - 1) qs)"
    proof
      assume "k' \<in> set (map (\<lambda>q. q - 1) qs)"
      then obtain q where q: "q \<in> set qs" "k' = q - 1" by auto
      then have "p < q" "k \<noteq> q" "k \<noteq> p" using 1(2,3) Cons by auto
      then show False using q(2) by (simp add: k'_def split: if_splits)
    qed
    moreover have "sorted_wrt (<) (map (\<lambda>q. q - 1) qs)"
      using 1(2) Cons sorted_wrt_less_pred by blast
    ultimately obtain j where "free_pos (map (\<lambda>q. q - 1) qs) j = k'"
      using 1(1) Cons by (metis length_Cons length_map lessI)
    then have "free_pos ps j = k" using free_pos_Cons [of p qs j] 1(2) Cons k by simp
    then show ?thesis ..
  qed simp
qed

lemma free_pos_avoids:
  "sorted_wrt (<) ps \<Longrightarrow> free_pos ps j \<notin> set ps"
proof (induction ps arbitrary: j rule: length_induct)
  case (1 ps)
  show ?case
  proof (cases ps)
    case (Cons p qs)
    let ?x = "free_pos (map (\<lambda>q. q - 1) qs) j"
    have "?x \<notin> set (map (\<lambda>q. q - 1) qs)"
      using 1 Cons sorted_wrt_less_pred by (metis length_Cons length_map lessI)
    then have "skip p ?x \<notin> set (p # qs)"
      using 1(2) Cons by (force simp: skip_def split: if_splits)
    then show ?thesis using free_pos_Cons [of p qs j] 1(2) Cons by simp
  qed simp
qed

section \<open>Removing bits\<close>

lemma of_nat_sub_word:
  assumes "p < 64" "i < p"
  shows "(of_nat p - of_nat i - 1 :: u32) = of_nat (p - i - 1)"
  using assms by (simp add: of_nat_diff)

lemma bit_remove_step:
  assumes "p < 64" "i \<le> p"
  shows "bit (remove_bit_step (i, p) a) j = bit a (skip (p - i) j)"
proof (cases "i < p")
  case True
  define n where "n = p - i - 1"
  define f where "f = (of_nat n :: u32)"
  have n: "n < 64" "p - i = Suc n" using assms True by (simp_all add: n_def)
  then have f: "unat f = n" "f < 64" by (simp_all add: f_def unat_of_nat word_less_nat_alt)
  have "bit (insertBits_raw (drop_bit 1 a) f 0 a) j = bit a (skip (p - i) j)"
    using bit_insertBits_raw [of 0 f "drop_bit 1 a" a j] f n(2)
    by (auto simp: skip_def bit_drop_bit_eq)
  moreover have "of_nat p - of_nat i - 1 = f" unfolding f_def n_def by (rule of_nat_sub_word [OF assms(1) True])
  ultimately show ?thesis using True by (simp add: remove_bit_step_def)
next
  case False
  then have "p = i" using assms by simp
  then show ?thesis
    by (auto simp: remove_bit_step_def insertBits_raw_def bf_mask_range_def mbits_def bf_mask_def skip_def bit_drop_bit_eq)
qed

lemma bit_remove_loop:
  assumes "sorted_wrt (<) ps" "\<forall>p\<in>set ps. i \<le> p \<and> p < 64"
  shows "bit (fold remove_bit_step (enumerate i ps) a) j = bit a (free_pos (map (\<lambda>p. p - i) ps) j)"
  using assms
proof (induction ps arbitrary: i a j)
  case (Cons p ps)
  have le: "\<forall>q\<in>set ps. Suc i \<le> q \<and> q < 64" using Cons.prems by force
  have "sorted_wrt (<) (map (\<lambda>q. q - i) (p # ps))"
    using Cons.prems by (intro sorted_wrt_map_minus) auto
  then have "free_pos (map (\<lambda>q. q - i) (p # ps)) j = skip (p - i) (free_pos (map (\<lambda>q. q - Suc i) ps) j)"
    using free_pos_Cons [of "p - i" "map (\<lambda>q. q - i) ps" j] by (simp add: comp_def)
  then show ?case
    using Cons.IH [of "Suc i"] Cons.prems le bit_remove_step [of p i] by simp
qed simp

section \<open>Adding bits\<close>

lemma bit_double_Suc: "j < 63 \<Longrightarrow> bit (a * 2) (Suc j) = bit (a :: u64) j"
  using bit_push_bit_iff [of 1 a "Suc j"] by simp

lemma bit_add_step:
  assumes "p < 64" "skip p j < 64"
  shows "bit (add_bit_step p a) (skip p j) = bit a j"
proof (cases p)
  case 0
  then show ?thesis using assms(2) by (simp add: add_bit_step_def skip_def bit_double_Suc)
next
  case (Suc n)
  have f: "(of_nat p - 1 :: u32) = of_nat n" "unat (of_nat n :: u32) = n" "(of_nat n :: u32) < 64"
    using assms Suc by (simp_all add: unat_of_nat word_less_nat_alt)
  show ?thesis
    using bit_insertBits_raw [of 0 "of_nat n" "push_bit 1 a" a "skip p j"] f Suc assms
    by (auto simp: add_bit_step_def skip_def bit_double_Suc)
qed

lemma bit_add_loop:
  assumes "\<forall>p\<in>set ps. p < 64" "free_pos ps j < 64"
  shows "bit (fold add_bit_step ps a) (free_pos ps j) = bit a j"
  using assms
proof (induction ps arbitrary: a j)
  case (Cons p ps)
  have "skip p j < 64" using Cons.prems(2) free_pos_bounds(1) [of "skip p j" ps] by simp
  then show ?case using Cons bit_add_step [of p j a] by simp
qed simp

section \<open>Choosing the stripe\<close>

text \<open>
  Masks for which the bits can be chosen one after the other: every mask has a lowest bit that
  fits a signed \<^verbatim>\<open>int\<close> shift, and no two masks look at the same address bit.
\<close>

definition intlv_wf :: "addr_range \<Rightarrow> bool" where
  "intlv_wf r \<longleftrightarrow> masks r \<noteq> [] \<and> length (masks r) \<le> 8 \<and>
    (\<forall>m\<in>set (masks r). m \<noteq> 0 \<and> ctz64 m < 31) \<and>
    (\<forall>i < length (masks r). \<forall>j < length (masks r). i \<noteq> j \<longrightarrow> masks r ! i AND masks r ! j = 0) \<and>
    unat (intlvMatch r) < 2 ^ length (masks r)"

lemma popCount_split:
  "popCount x = popCount (x AND NOT (2 ^ l)) + (if bit x l then 1 else 0)" if "l < 64" for x :: u64
proof -
  have fin: "finite {i. bit y i}" for y :: u64
    by (rule finite_subset [of _ "{..<64}"]) (auto dest: bit_imp_le_length)
  have "{i. bit (x AND NOT (2 ^ l)) i} = {i. bit x i} - {l}"
    using that by (auto simp: bit_and_iff bit_not_iff bit_exp_iff dest: bit_imp_le_length)
  moreover have "bit x l \<Longrightarrow> Suc (card ({i. bit x i} - {l})) = card {i. bit x i}"
    by (rule card_Suc_Diff1 [OF fin]) simp
  moreover have "\<not> bit x l \<Longrightarrow> {i. bit x i} - {l} = {i. bit x i}" by auto
  ultimately show ?thesis by (simp add: popCount_card)
qed

lemma int_not_shift: "l < 31 \<Longrightarrow> (scast (NOT (2 ^ l :: u32)) :: u64) = NOT (2 ^ l)"
  by (rule bit_eqI) (auto simp: bit_signed_iff bit_not_iff bit_exp_iff min_def)

lemma bit_sel_bit_step:
  assumes "i < length (masks r)" "intlv_wf r"
  shows "bit (sel_bit_step r i a) k =
    (if k = ctz64 (masks r ! i)
     then bit (intlvMatch r) i \<noteq> odd (popCount (a AND masks r ! i AND NOT (2 ^ ctz64 (masks r ! i))))
     else bit a k)"
proof -
  define l where "l = ctz64 (masks r ! i)"
  have l: "l < 31" using assms by (simp add: intlv_wf_def l_def)
  have f: "unat (of_nat l :: u32) = l" "(of_nat l :: u32) < 64"
    using l by (simp_all add: unat_of_nat word_less_nat_alt)
  have i: "i < 8" using assms by (simp add: intlv_wf_def)
  have "bit (drop_bit i (ucast (intlvMatch r) :: u64) AND 1) 0 = bit (intlvMatch r) i"
    using i by (simp add: bit_and_iff bit_drop_bit_eq bit_ucast_iff)
  moreover have "bit (of_nat n :: u64) 0 = odd n" for n
    by (simp add: bit_0)
  ultimately show ?thesis
    using bit_insertBits_raw [of "of_nat l" "of_nat l"] f
    by (auto simp: sel_bit_step_def l_def [symmetric] int_not_shift [OF l] bit_xor_iff)
qed

text \<open>
  The selector loop leaves every address bit that is no lowest mask bit alone, and sets the
  lowest bit of each mask so that the parity under that mask is the bit of the match value.
\<close>

lemma lsb_not_in_other:
  assumes "intlv_wf r" "i < length (masks r)" "j < length (masks r)" "i \<noteq> j"
  shows "\<not> bit (masks r ! i) (ctz64 (masks r ! j))"
proof
  assume "bit (masks r ! i) (ctz64 (masks r ! j))"
  moreover have "masks r ! j \<noteq> 0" using assms by (simp add: intlv_wf_def)
  then have "bit (masks r ! j) (ctz64 (masks r ! j))" by (rule ctz64_props)
  ultimately have "bit (masks r ! i AND masks r ! j) (ctz64 (masks r ! j))" by (simp add: bit_and_iff)
  moreover have "masks r ! i AND masks r ! j = 0" using assms by (simp add: intlv_wf_def)
  ultimately show False by simp
qed

definition want_bit :: "addr_range \<Rightarrow> addr \<Rightarrow> nat \<Rightarrow> bool" where
  "want_bit r a i \<longleftrightarrow>
     (bit (intlvMatch r) i \<noteq> odd (popCount (a AND masks r ! i AND NOT (2 ^ ctz64 (masks r ! i)))))"

lemma want_bit_cong:
  assumes "intlv_wf r" "i < length (masks r)"
    "\<And>k. k \<notin> (\<lambda>j. ctz64 (masks r ! j)) ` {..<length (masks r)} \<Longrightarrow> bit a k = bit b k"
  shows "want_bit r a i = want_bit r b i"
proof -
  have "a AND masks r ! i AND NOT (2 ^ ctz64 (masks r ! i)) = b AND masks r ! i AND NOT (2 ^ ctz64 (masks r ! i))"
  proof (rule bit_eqI)
    fix k
    show "bit (a AND masks r ! i AND NOT (2 ^ ctz64 (masks r ! i))) k =
        bit (b AND masks r ! i AND NOT (2 ^ ctz64 (masks r ! i))) k"
      using assms(3) [of k] lsb_not_in_other [OF assms(1,2)]
      by (auto simp: bit_and_iff bit_not_iff bit_exp_iff dest: bit_imp_le_length)
  qed
  then show ?thesis by (simp add: want_bit_def)
qed

lemma lsb_inj:
  assumes "intlv_wf r"
  shows "inj_on (\<lambda>j. ctz64 (masks r ! j)) {..<length (masks r)}"
proof (rule inj_onI)
  fix i j assume ij: "i \<in> {..<length (masks r)}" "j \<in> {..<length (masks r)}"
    and eq: "ctz64 (masks r ! i) = ctz64 (masks r ! j)"
  have "masks r ! i \<noteq> 0" using assms ij by (simp add: intlv_wf_def)
  then have "bit (masks r ! i) (ctz64 (masks r ! j))" unfolding eq [symmetric] by (rule ctz64_props)
  then show "i = j" using lsb_not_in_other [OF assms] ij by blast
qed

lemma bit_sel_loop:
  assumes "intlv_wf r" "n \<le> length (masks r)"
  shows "(\<forall>k. k \<notin> (\<lambda>j. ctz64 (masks r ! j)) ` {..<n} \<longrightarrow> bit (fold (sel_bit_step r) [0..<n] a) k = bit a k) \<and>
    (\<forall>i < n. bit (fold (sel_bit_step r) [0..<n] a) (ctz64 (masks r ! i)) = want_bit r a i)"
  using assms(2)
proof (induction n)
  case (Suc n)
  let ?lsb = "\<lambda>j. ctz64 (masks r ! j)"
  define b where "b = fold (sel_bit_step r) [0..<n] a"
  define c where "c = fold (sel_bit_step r) [0..<Suc n] a"
  have n: "n < length (masks r)" using Suc.prems by simp
  note IH = Suc.IH [OF less_imp_le [OF n], folded b_def]
  have step: "bit c k = (if k = ?lsb n then want_bit r b n else bit b k)" for k
    using bit_sel_bit_step [OF n assms(1)] by (simp add: want_bit_def b_def c_def)
  have "want_bit r b n = want_bit r a n"
    using IH n by (intro want_bit_cong [OF assms(1) n]) (auto simp: image_iff)
  moreover have "?lsb i \<noteq> ?lsb n" if "i < n" for i
    using lsb_inj [OF assms(1)] that n by (auto dest: inj_onD)
  ultimately show ?case using IH unfolding c_def [symmetric] by (auto simp: step less_Suc_eq lessThan_Suc)
qed simp

lemma parity_at_lsb:
  assumes "intlv_wf r" "i < length (masks r)"
  shows "odd (popCount (a AND masks r ! i)) = bit (intlvMatch r) i \<longleftrightarrow> bit a (ctz64 (masks r ! i)) = want_bit r a i"
proof -
  let ?m = "masks r ! i"
  have m: "?m \<noteq> 0" using assms by (simp add: intlv_wf_def)
  have "popCount (a AND ?m) = popCount (a AND ?m AND NOT (2 ^ ctz64 ?m)) + (if bit a (ctz64 ?m) then 1 else 0)"
    using popCount_split [OF ctz64_props(1) [OF m], of "a AND ?m"] ctz64_props(2) [OF m]
    by (simp add: bit_and_iff and.assoc)
  then show ?thesis by (auto simp: want_bit_def)
qed

lemma intlv_sel_match_iff:
  assumes "intlv_wf r"
  shows "intlv_sel (masks r) a = ucast (intlvMatch r) \<longleftrightarrow>
    (\<forall>i < length (masks r). bit a (ctz64 (masks r ! i)) = want_bit r a i)"
proof -
  have len: "length (masks r) \<le> 8" and match: "unat (intlvMatch r) < 2 ^ length (masks r)"
    using assms by (simp_all add: intlv_wf_def)
  have "take_bit (length (masks r)) (intlvMatch r) = intlvMatch r"
    using match word_and_mask_unat [of "intlvMatch r" "length (masks r)"]
    by (simp add: word_unat_eq_iff take_bit_eq_mask)
  then have high: "\<not> bit (intlvMatch r) i" if "\<not> i < length (masks r)" for i
    using that by (metis bit_take_bit_iff)
  have small: "i < 32" if "i < length (masks r)" for i using that len by simp
  have "intlv_sel (masks r) a = ucast (intlvMatch r) \<longleftrightarrow>
      (\<forall>i < 32. (i < length (masks r) \<and> odd (popCount (a AND masks r ! i))) = bit (intlvMatch r) i)"
    using len by (simp add: bit_eq_iff bit_intlv_sel bit_ucast_iff)
  also have "\<dots> \<longleftrightarrow> (\<forall>i < length (masks r). odd (popCount (a AND masks r ! i)) = bit (intlvMatch r) i)"
    using high small by blast
  finally show ?thesis using parity_at_lsb [OF assms] by blast
qed

section \<open>Round trips\<close>

lemma masks_lsb_props:
  assumes "intlv_wf r"
  shows "sorted_wrt (<) (masks_lsb r)" "\<forall>p\<in>set (masks_lsb r). p < 64"
    "set (masks_lsb r) = (\<lambda>j. ctz64 (masks r ! j)) ` {..<length (masks r)}" "length (masks_lsb r) = length (masks r)"
proof -
  show st: "set (masks_lsb r) = (\<lambda>j. ctz64 (masks r ! j)) ` {..<length (masks r)}"
    by (force simp: masks_lsb_def in_set_conv_nth)
  have "inj_on (\<lambda>j. map ctz64 (masks r) ! j) {..<length (masks r)}"
    using lsb_inj [OF assms] by (auto simp: inj_on_def)
  then have "distinct (map ctz64 (masks r))" by (simp add: distinct_conv_nth inj_on_def) blast
  then show "sorted_wrt (<) (masks_lsb r)"
    by (simp add: masks_lsb_def strict_sorted_iff)
  show "\<forall>p\<in>set (masks_lsb r). p < 64"
    using assms by (auto simp: masks_lsb_def intlv_wf_def)
  show "length (masks_lsb r) = length (masks r)" by (simp add: masks_lsb_def)
qed

lemma bit_removeIntlvBits:
  "intlv_wf r \<Longrightarrow> bit (removeIntlvBits r a) j = bit a (free_pos (masks_lsb r) j)"
  using bit_remove_loop [of "masks_lsb r" 0 a j] masks_lsb_props [of r]
  by (simp add: removeIntlvBits_def interleaved_def intlv_wf_def)

lemma bit_addIntlvBits_free:
  assumes "intlv_wf r" "free_pos (masks_lsb r) j < 64"
  shows "bit (addIntlvBits r a) (free_pos (masks_lsb r) j) = bit a j"
proof -
  have "free_pos (masks_lsb r) j \<notin> (\<lambda>j. ctz64 (masks r ! j)) ` {..<length (masks r)}"
    using free_pos_avoids masks_lsb_props [OF assms(1)] by metis
  then show ?thesis
    using bit_sel_loop [OF assms(1), of "length (masks r)" "fold add_bit_step (masks_lsb r) a"]
      bit_add_loop [of "masks_lsb r" j a] masks_lsb_props(2) [OF assms(1)] assms
    by (simp add: addIntlvBits_def interleaved_def intlv_wf_def)
qed

lemma intlv_sel_addIntlvBits:
  assumes "intlv_wf r"
  shows "intlv_sel (masks r) (addIntlvBits r a) = ucast (intlvMatch r)"
proof -
  let ?c = "fold add_bit_step (masks_lsb r) a"
  have eq: "addIntlvBits r a = fold (sel_bit_step r) [0..<length (masks r)] ?c"
    using assms by (simp add: addIntlvBits_def interleaved_def intlv_wf_def)
  note loop = bit_sel_loop [OF assms order_refl, of ?c, folded eq]
  have "want_bit r (addIntlvBits r a) i = want_bit r ?c i" if "i < length (masks r)" for i
    using loop by (intro want_bit_cong [OF assms that]) simp
  then show ?thesis using loop by (simp add: intlv_sel_match_iff [OF assms])
qed

lemma remove_addIntlvBits:
  assumes "intlv_wf r" "unat a < 2 ^ (64 - length (masks r))"
  shows "removeIntlvBits r (addIntlvBits r a) = a"
proof (rule bit_eqI)
  fix j
  show "bit (removeIntlvBits r (addIntlvBits r a)) j = bit a j"
  proof (cases "free_pos (masks_lsb r) j < 64")
    case True
    then show ?thesis using assms by (simp add: bit_removeIntlvBits bit_addIntlvBits_free)
  next
    case False
    then have j: "64 - length (masks r) \<le> j"
      using free_pos_bounds(2) [of "masks_lsb r" j] masks_lsb_props(4) [OF assms(1)] by simp
    have "drop_bit (64 - length (masks r)) a = 0"
      using assms(2) by (simp add: word_unat_eq_iff drop_bit_unat)
    then have "\<not> bit a j" using bit_via_drop_bit [OF j, of a] by simp
    moreover have "\<not> bit (addIntlvBits r a) (free_pos (masks_lsb r) j)"
      using False by (auto dest: bit_imp_le_length)
    ultimately show ?thesis using assms(1) by (simp add: bit_removeIntlvBits)
  qed
qed

lemma add_removeIntlvBits:
  assumes "intlv_wf r" "intlv_sel (masks r) a = ucast (intlvMatch r)"
  shows "addIntlvBits r (removeIntlvBits r a) = a"
proof (rule bit_word_eqI)
  fix k :: nat assume k: "k < LENGTH(64)"
  let ?b = "addIntlvBits r (removeIntlvBits r a)" and ?L = "(\<lambda>j. ctz64 (masks r ! j)) ` {..<length (masks r)}"
  have off: "bit ?b k = bit a k" if "k \<notin> ?L" for k
  proof (cases "k < 64")
    case True
    have "k \<notin> set (masks_lsb r)" using that by (simp only: masks_lsb_props(3) [OF assms(1)]) simp
    from free_pos_surj [OF masks_lsb_props(1) [OF assms(1)] this]
    obtain j where j: "free_pos (masks_lsb r) j = k" by blast
    then show ?thesis
      using bit_addIntlvBits_free [OF assms(1), of j] True assms(1) by (simp add: bit_removeIntlvBits)
  qed (auto dest: bit_imp_le_length)
  show "bit ?b k = bit a k"
  proof (cases "k \<in> ?L")
    case True
    then obtain i where i: "i < length (masks r)" "k = ctz64 (masks r ! i)" by auto
    have "bit ?b k = want_bit r ?b i"
      using intlv_sel_addIntlvBits [OF assms(1)] i by (simp add: intlv_sel_match_iff [OF assms(1)])
    also have "\<dots> = want_bit r a i" using off by (intro want_bit_cong [OF assms(1) i(1)])
    also have "\<dots> = bit a k" using assms(2) i by (simp add: intlv_sel_match_iff [OF assms(1)])
    finally show ?thesis .
  qed (rule off)
qed

section \<open>Properties\<close>

text \<open>
  C38: For interleaved ranges with disjoint masks, \<^verbatim>\<open>removeIntlvBits\<close> and \<^verbatim>\<open>addIntlvBits\<close> are inverse
  to each other between the addresses of the stripe and the flat addresses, and \<^verbatim>\<open>addIntlvBits\<close>
  always selects the stripe.
\<close>

theorem intlv_bits_roundtrip:
  assumes "intlv_wf r"
  shows "(contains r a \<longrightarrow> addIntlvBits r (removeIntlvBits r a) = a) \<and>
    (unat b < 2 ^ (64 - length (masks r)) \<longrightarrow> removeIntlvBits r (addIntlvBits r b) = b) \<and>
    intlv_sel (masks r) (addIntlvBits r b) = ucast (intlvMatch r)"
  using add_removeIntlvBits [OF assms, of a] remove_addIntlvBits [OF assms, of b] intlv_sel_addIntlvBits [OF assms, of b]
  by (auto simp: contains_def Let_def split: if_splits)

theorem intlv_bits_roundtrip_witness:
  "let r = \<lparr>r_start = 0, r_end = 0x10000, masks = [0x1040, 0x2080], intlvMatch = 2\<rparr>
   in contains r 0x185 \<and> addIntlvBits r (removeIntlvBits r 0x185) = 0x185 \<and>
      removeIntlvBits r (addIntlvBits r 0x61) = 0x61"
proof -
  let ?r = "\<lparr>r_start = 0, r_end = 0x10000, masks = [0x1040, 0x2080], intlvMatch = 2\<rparr>"
  have "ctz64 0x1040 = 6" "ctz64 0x2080 = 7" by code_simp+
  then have wf: "intlv_wf ?r" by (auto simp: intlv_wf_def less_Suc_eq nth_Cons')
  have "contains ?r 0x185" by code_simp
  with intlv_bits_roundtrip [OF wf, of "0x185" "0x61"] show ?thesis by (simp add: Let_def)
qed

text \<open>
  \<^verbatim>\<open>getOffset\<close> gives different addresses of a stripe different offsets, so the backing store
  addressed by the offset never aliases two addresses.
\<close>

lemma getOffset_injective:
  assumes "intlv_wf r" "a \<in> addrs r" "b \<in> addrs r" "getOffset r a = getOffset r b"
  shows "a = b"
proof -
  have r: "r_start r \<le> a \<and> a < r_end r" "r_start r \<le> b \<and> b < r_end r" "interleaved r"
    using assms(1) addrs_bounds [OF assms(2)] addrs_bounds [OF assms(3)] by (auto simp: intlv_wf_def interleaved_def)
  then have "removeIntlvBits r a = removeIntlvBits r b" using assms(4) by (simp add: getOffset_def)
  moreover have "addIntlvBits r (removeIntlvBits r x) = x" if "x \<in> addrs r" for x
    using that add_removeIntlvBits [OF assms(1), of x] by (auto simp: addrs_def contains_def Let_def split: if_splits)
  ultimately show ?thesis using assms(2,3) by metis
qed

lemma getOffset_injective_witness:
  "let r = \<lparr>r_start = 0, r_end = 0x1000, masks = [0x40], intlvMatch = 1\<rparr>
   in 0x41 \<in> addrs r \<and> 0xc1 \<in> addrs r \<and> getOffset r 0x41 \<noteq> getOffset r 0xc1"
proof -
  let ?r = "\<lparr>r_start = 0, r_end = 0x1000, masks = [0x40], intlvMatch = 1\<rparr>"
  have "ctz64 0x40 = 6" by code_simp
  then have wf: "intlv_wf ?r" by (auto simp: intlv_wf_def)
  have in1: "0x41 \<in> addrs ?r" and in2: "0xc1 \<in> addrs ?r" unfolding addrs_def mem_Collect_eq by code_simp+
  then show ?thesis using getOffset_injective [OF wf in1 in2] by (auto simp: Let_def)
qed

end
