(* ===== verification/Addr_Range_Map.thy ===== *)
theory Addr_Range_Map
  imports Addr_Range
begin

text \<open>
  Model of \<^verbatim>\<open>src/gem5/src/base/addr_range_map.hh\<close>: the map from disjoint address ranges to values
  behind every address decoder.  The \<^verbatim>\<open>std::map\<close> is its list of entries in key order, an iterator
  is the key it points at, and the move-to-front cache is a list of keys.  A range test can
  panic, so every search is a result.  \<^verbatim>\<open>mcs\<close> is the template argument \<^verbatim>\<open>max_cache_size\<close>.
\<close>

section \<open>Operations\<close>

record 'v range_map =
  tree :: "(addr_range \<times> 'v) list"
  cache :: "addr_range list"

definition rm_keys :: "'v range_map \<Rightarrow> addr_range list" where
  "rm_keys m = map fst (tree m)"

definition rm_empty :: "'v range_map" where
  "rm_empty = \<lparr>tree = [], cache = []\<rparr>"

definition addNewEntryToCache :: "nat \<Rightarrow> addr_range \<Rightarrow> addr_range list \<Rightarrow> addr_range list" where
  "addNewEntryToCache mcs it c =
     (if mcs \<noteq> 0 then
        if length c \<ge> mcs then
          (let c = butlast c @ [it] in if mcs > 1 then last c # butlast c else c)
        else it # c
      else c)"

fun cache_find :: "(addr_range \<Rightarrow> bool res) \<Rightarrow> addr_range list \<Rightarrow> addr_range option res" where
  "cache_find cond [] = Inr None"
| "cache_find cond (k # ks) = sbind (cond k) (\<lambda>b. if b then Inr (Some k) else cache_find cond ks)"

text \<open>The walk towards \<^verbatim>\<open>begin()\<close> over the entries before the upper bound, nearest first.\<close>

fun find_down :: "(addr_range \<Rightarrow> bool res) \<Rightarrow> addr_range list \<Rightarrow> addr_range option res" where
  "find_down cond [] = Inr None"
| "find_down cond (i # ks) = sbind (cond i) (\<lambda>b.
     if b then Inr (Some i)
     else (case ks of
         [] \<Rightarrow> Inr None
       | nxt # _ \<Rightarrow> if mergesWith nxt i then find_down cond ks else Inr None))"

definition rm_find :: "nat \<Rightarrow> addr_range \<Rightarrow> (addr_range \<Rightarrow> bool res) \<Rightarrow> 'v range_map \<Rightarrow> (addr_range option \<times> 'v range_map) res" where
  "rm_find mcs r cond m =
     sbind (cache_find cond (cache m)) (\<lambda>c.
       case c of
         Some k \<Rightarrow> Inr (Some k, m\<lparr>cache := k # remove1 k (cache m)\<rparr>)
       | None \<Rightarrow>
           (let before = takeWhile (\<lambda>k. \<not> range_less r k) (rm_keys m);
                after = dropWhile (\<lambda>k. \<not> range_less r k) (rm_keys m);
                found = (\<lambda>k. Inr (Some k, m\<lparr>cache := addNewEntryToCache mcs k (cache m)\<rparr>))
            in sbind (case after of [] \<Rightarrow> Inr None | nxt # _ \<Rightarrow> sbind (cond nxt) (\<lambda>b. Inr (if b then Some nxt else None))) (\<lambda>hit.
                 case hit of
                   Some k \<Rightarrow> found k
                 | None \<Rightarrow> sbind (find_down cond (rev before)) (\<lambda>hit.
                     case hit of Some k \<Rightarrow> found k | None \<Rightarrow> Inr (None, m)))))"

definition rm_contains :: "nat \<Rightarrow> addr_range \<Rightarrow> 'v range_map \<Rightarrow> (addr_range option \<times> 'v range_map) res" where
  "rm_contains mcs r m = rm_find mcs r (\<lambda>r1. isSubset r r1) m"

definition rm_contains_addr :: "nat \<Rightarrow> addr \<Rightarrow> 'v range_map \<Rightarrow> (addr_range option \<times> 'v range_map) res" where
  "rm_contains_addr mcs a m = rm_contains mcs (RangeSize a 1) m"

definition rm_intersects :: "nat \<Rightarrow> addr_range \<Rightarrow> 'v range_map \<Rightarrow> (addr_range option \<times> 'v range_map) res" where
  "rm_intersects mcs r m = rm_find mcs r (\<lambda>r1. intersects r r1) m"

text \<open>\<^verbatim>\<open>std::map::insert\<close> keeps an equivalent key that is already there.\<close>

fun map_insert :: "addr_range \<Rightarrow> 'v \<Rightarrow> (addr_range \<times> 'v) list \<Rightarrow> (addr_range \<times> 'v) list" where
  "map_insert r d [] = [(r, d)]"
| "map_insert r d ((k, v) # es) =
     (if range_less k r then (k, v) # map_insert r d es
      else if range_less r k then (r, d) # (k, v) # es
      else (k, v) # es)"

definition rm_insert :: "nat \<Rightarrow> addr_range \<Rightarrow> 'v \<Rightarrow> 'v range_map \<Rightarrow> (addr_range option \<times> 'v range_map) res" where
  "rm_insert mcs r d m =
     sbind (rm_intersects mcs r m) (\<lambda>(hit, m).
       if hit \<noteq> None then Inr (None, m)
       else Inr (Some r, m\<lparr>tree := map_insert r d (tree m)\<rparr>))"

definition rm_erase :: "addr_range \<Rightarrow> 'v range_map \<Rightarrow> 'v range_map" where
  "rm_erase p m = m\<lparr>cache := filter (\<lambda>k. k \<noteq> p) (cache m), tree := filter (\<lambda>e. fst e \<noteq> p) (tree m)\<rparr>"

text \<open>
  Erasing the entries from position \<^verbatim>\<open>p\<close> up to position \<^verbatim>\<open>q\<close>: the loop drops the key of the
  first one from the cache at every round.
\<close>

definition rm_erase_range :: "nat \<Rightarrow> nat \<Rightarrow> 'v range_map \<Rightarrow> 'v range_map" where
  "rm_erase_range p q m =
     m\<lparr>cache := fold (\<lambda>it c. filter (\<lambda>k. k \<noteq> fst (tree m ! p)) c) [p..<q] (cache m),
       tree := take p (tree m) @ drop q (tree m)\<rparr>"

definition rm_clear :: "'v range_map \<Rightarrow> 'v range_map" where
  "rm_clear m = m\<lparr>cache := [], tree := []\<rparr>"

definition rm_size :: "'v range_map \<Rightarrow> nat" where
  "rm_size m = length (tree m)"

definition rm_is_empty :: "'v range_map \<Rightarrow> bool" where
  "rm_is_empty m \<longleftrightarrow> tree m = []"

section \<open>The invariant\<close>

text \<open>
  An entry is not empty, and a stripe has a granularity and more than one byte.  Two entries
  either lie one after the other or are different stripes of the same range.
\<close>

definition entry_ok :: "addr_range \<Rightarrow> bool" where
  "entry_ok k \<longleftrightarrow> r_start k < r_end k \<and> (masks k = [] \<longrightarrow> intlvMatch k = 0) \<and>
     (interleaved k \<longrightarrow> is_ok (granularity k) \<and> range_size k \<noteq> 1)"

definition entry_before :: "addr_range \<Rightarrow> addr_range \<Rightarrow> bool" where
  "entry_before k l \<longleftrightarrow> r_end k \<le> r_start l \<or> mergesWith k l \<and> interleaved k \<and> intlvMatch k < intlvMatch l"

definition rm_inv :: "'v range_map \<Rightarrow> bool" where
  "rm_inv m \<longleftrightarrow> (\<forall>k\<in>set (rm_keys m). entry_ok k) \<and> sorted_wrt entry_before (rm_keys m) \<and>
     set (cache m) \<subseteq> set (rm_keys m)"

definition rm_lookup :: "'v range_map \<Rightarrow> addr \<Rightarrow> 'v option" where
  "rm_lookup m a = map_option snd (find (\<lambda>e. contains (fst e) a) (tree m))"

lemma rm_keys_cache [simp]: "rm_keys (m\<lparr>cache := c\<rparr>) = rm_keys m"
  by (simp add: rm_keys_def)

lemma rm_inv_empty [simp]: "rm_inv rm_empty"
  by (simp add: rm_inv_def rm_empty_def rm_keys_def)

lemma entry_before_less: "entry_ok k \<Longrightarrow> entry_before k l \<Longrightarrow> range_less k l"
  by (auto simp: entry_before_def range_less_def mergesWith_def entry_ok_def interleaved_def)

lemma entry_before_disjoint:
  assumes "entry_before k l"
  shows "addrs k \<inter> addrs l = {}"
proof -
  have False if "a \<in> addrs k" "a \<in> addrs l" for a
    using assms unfolding entry_before_def
  proof
    assume "r_end k \<le> r_start l"
    then show False using addrs_bounds [OF that(1)] addrs_bounds [OF that(2)] by (meson leD le_less_trans less_le_trans)
  next
    assume *: "mergesWith k l \<and> interleaved k \<and> intlvMatch k < intlvMatch l"
    then have "(ucast (intlvMatch k) :: u32) = ucast (intlvMatch l)"
      using that by (simp add: addrs_def contains_def mergesWith_def Let_def split: if_splits)
    then have "intlvMatch k = intlvMatch l" by (simp add: ucast_up_inj)
    with * show False by simp
  qed
  then show ?thesis by blast
qed

section \<open>Searching\<close>

lemma set_addNewEntryToCache: "set (addNewEntryToCache mcs k c) \<subseteq> insert k (set c)"
  by (auto simp: addNewEntryToCache_def Let_def dest: in_set_butlastD)

lemma cache_find_cases:
  assumes "\<forall>k\<in>set ks. is_ok (cond k)"
  shows "(\<exists>k\<in>set ks. cache_find cond ks = Inr (Some k) \<and> cond k = Inr True) \<or> cache_find cond ks = Inr None"
  using assms
proof (induction ks)
  case (Cons k ks)
  obtain b where "cond k = Inr b" using Cons.prems by (auto simp: is_ok_iff)
  then show ?case using Cons by (cases b) auto
qed simp

lemma find_down_cases:
  assumes "\<forall>k\<in>set ks. is_ok (cond k)"
  shows "(\<exists>k\<in>set ks. find_down cond ks = Inr (Some k) \<and> cond k = Inr True) \<or> find_down cond ks = Inr None"
  using assms
proof (induction ks)
  case (Cons k ks)
  obtain b where "cond k = Inr b" using Cons.prems by (auto simp: is_ok_iff)
  then show ?case using Cons by (cases b; cases ks) auto
qed simp

lemma find_down_complete:
  assumes "cond k = Inr True" "\<forall>x\<in>set xs. mergesWith k x"
  shows "find_down cond (xs @ k # ys) \<noteq> Inr None"
  using assms(2)
proof (induction xs)
  case (Cons x xs)
  have "mergesWith (hd (xs @ [k])) x"
    using Cons.prems by (cases xs) (auto simp: mergesWith_def)
  moreover have "\<exists>zs. xs @ k # ys = hd (xs @ [k]) # zs" by (cases xs) auto
  ultimately show ?case
    using Cons by (auto simp: res_simps split: if_splits)
qed (simp add: assms(1))

text \<open>
  A search whose test is defined on every entry returns, keeps the entries and the invariant,
  and what it returns passes the test.
\<close>

lemma rm_find_sound:
  assumes inv: "rm_inv m" and ok: "\<forall>k\<in>set (rm_keys m). is_ok (cond k)"
  shows "\<exists>res m'. rm_find mcs r cond m = Inr (res, m') \<and> tree m' = tree m \<and> rm_inv m' \<and>
    (case res of
       Some k \<Rightarrow> k \<in> set (rm_keys m) \<and> cond k = Inr True
     | None \<Rightarrow> cache_find cond (cache m) = Inr None \<and>
         (case dropWhile (\<lambda>k. \<not> range_less r k) (rm_keys m) of [] \<Rightarrow> True | nxt # _ \<Rightarrow> cond nxt = Inr False) \<and>
         find_down cond (rev (takeWhile (\<lambda>k. \<not> range_less r k) (rm_keys m))) = Inr None)"
proof -
  define after where "after = dropWhile (\<lambda>k. \<not> range_less r k) (rm_keys m)"
  define before where "before = takeWhile (\<lambda>k. \<not> range_less r k) (rm_keys m)"
  note folds = after_def [symmetric] before_def [symmetric]
  have sub: "set (cache m) \<subseteq> set (rm_keys m)" using inv by (simp add: rm_inv_def)
  have keep: "rm_inv (m\<lparr>cache := addNewEntryToCache mcs k (cache m)\<rparr>)" if "k \<in> set (rm_keys m)" for k
    using inv that set_addNewEntryToCache [of mcs k "cache m"] by (auto simp: rm_inv_def)
  have promote: "rm_inv (m\<lparr>cache := k # remove1 k (cache m)\<rparr>)" if "k \<in> set (cache m)" for k
    using inv that sub by (auto simp: rm_inv_def dest: notin_set_remove1 [THEN contrapos_pp])
  from cache_find_cases [of "cache m" cond] ok sub
  consider (hit) k where "k \<in> set (cache m)" "cache_find cond (cache m) = Inr (Some k)" "cond k = Inr True"
    | (miss) "cache_find cond (cache m) = Inr None"
    by blast
  then show ?thesis
  proof cases
    case hit
    then show ?thesis using promote sub unfolding folds by (auto simp: rm_find_def)
  next
    case miss
    have "find_down cond (rev before) = Inr None \<or>
        (\<exists>k\<in>set (rm_keys m). find_down cond (rev before) = Inr (Some k) \<and> cond k = Inr True)"
    proof -
      have bef: "set (rev before) \<subseteq> set (rm_keys m)" by (auto simp: before_def dest: set_takeWhileD)
      have "(\<exists>k\<in>set (rev before). find_down cond (rev before) = Inr (Some k) \<and> cond k = Inr True) \<or>
          find_down cond (rev before) = Inr None"
        by (rule find_down_cases) (use ok bef in blast)
      then show ?thesis using bef by blast
    qed
    moreover have "after = [] \<or> (\<exists>nxt rest b. after = nxt # rest \<and> nxt \<in> set (rm_keys m) \<and> cond nxt = Inr b)"
    proof (cases after)
      case (Cons nxt rest)
      then have "nxt \<in> set (rm_keys m)" by (metis after_def list.set_intros(1) set_dropWhileD)
      then show ?thesis using Cons ok by (auto simp: is_ok_iff)
    qed simp
    ultimately show ?thesis
      using miss keep inv unfolding rm_find_def Let_def folds by auto
  qed
qed

section \<open>Lookup\<close>

lemma isSubset_bounds:
  assumes "\<not> interleaved r" "r_start r < r_end r" "isSubset r k = Inr True"
  shows "r_start k \<le> r_start r" "r_end r \<le> r_end k"
proof -
  have "interleaved k \<Longrightarrow> contains k (r_start r) \<and> contains k (r_end r - 1)"
    using assms by (auto simp: isSubset_def split: if_splits)
  moreover have "unat (r_end r - 1) = unat (r_end r) - 1" using assms(2) by (intro unat_minus_one) auto
  ultimately show "r_start k \<le> r_start r" "r_end r \<le> r_end k"
    using assms by (auto simp: isSubset_def contains_def Let_def word_le_nat_alt word_less_nat_alt split: if_splits)
qed

lemma isSubset_start_in:
  assumes "\<not> interleaved r" "r_start r < r_end r" "isSubset r k = Inr True" "entry_ok k"
  shows "r_start r \<in> addrs k"
proof (cases "interleaved k")
  case False
  then have "plain k" using assms(4) by (simp add: plain_def interleaved_def entry_ok_def)
  then show ?thesis using isSubset_bounds [OF assms(1-3)] assms(2) by (simp add: addrs_plain)
qed (use assms in \<open>auto simp: isSubset_def addrs_def split: if_splits\<close>)

lemma isSubset_ok: "\<not> interleaved r \<Longrightarrow> entry_ok k \<Longrightarrow> is_ok (isSubset r k)"
  by (auto simp: isSubset_def entry_ok_def is_ok_iff split: if_splits)

lemma rm_keys_disjoint:
  assumes "rm_inv m" "k \<in> set (rm_keys m)" "l \<in> set (rm_keys m)" "a \<in> addrs k" "a \<in> addrs l"
  shows "k = l"
proof -
  have "sorted_wrt entry_before (rm_keys m)" using assms(1) by (simp add: rm_inv_def)
  then have dis: "addrs (rm_keys m ! i) \<inter> addrs (rm_keys m ! j) = {}"
    if "i < j" "j < length (rm_keys m)" for i j
    using that entry_before_disjoint unfolding sorted_wrt_iff_nth_less by blast
  obtain i j where ij: "i < length (rm_keys m)" "j < length (rm_keys m)"
      "k = rm_keys m ! i" "l = rm_keys m ! j"
    using assms(2,3) by (metis in_set_conv_nth)
  then show ?thesis
    using dis [of i j] dis [of j i] assms(4,5) by (cases i j rule: linorder_cases) auto
qed

text \<open>
  The entry that covers a contiguous range is reached: everything between it and the upper bound
  is a stripe of the same range.
\<close>

lemma find_down_reaches:
  assumes inv: "rm_inv m" and r: "\<not> interleaved r" "r_start r < r_end r"
    and k: "k \<in> set (rm_keys m)" "isSubset r k = Inr True"
  shows "find_down (isSubset r) (rev (takeWhile (\<lambda>k. \<not> range_less r k) (rm_keys m))) \<noteq> Inr None"
proof -
  note b = isSubset_bounds [OF r k(2)]
  let ?P = "\<lambda>k. \<not> range_less r k"
  have P: "?P x" if "r_start x \<le> r_start r" for x
    using that r(1) by (auto simp: range_less_def)
  obtain p q where keys: "rm_keys m = p @ k # q" using k(1) by (metis split_list)
  have srt: "sorted_wrt entry_before (p @ k # q)" and ok: "\<forall>x\<in>set (p @ k # q). entry_ok x"
    using inv unfolding rm_inv_def keys by blast+
  have "?P x" if "x \<in> set p" for x
  proof -
    have "entry_before x k" "entry_ok x" using srt ok that by (auto simp: sorted_wrt_append)
    then have "r_start x \<le> r_start k" using range_less_start entry_before_less by blast
    then show ?thesis using P b(1) by (meson order_trans)
  qed
  then have tw: "takeWhile ?P (p @ k # q) = p @ k # takeWhile ?P q"
    using P [OF b(1)] by simp
  have "mergesWith k x" if "x \<in> set (takeWhile ?P q)" for x
  proof -
    from that have x: "\<not> range_less r x" "x \<in> set q" using set_takeWhileD [OF that] by auto
    have "entry_before k x" using srt x(2) by (auto simp: sorted_wrt_append)
    moreover have "r_start x < r_end k"
      using not_range_less_start [OF x(1)] b(2) r(2) by (meson le_less_trans less_le_trans)
    ultimately show ?thesis by (auto simp: entry_before_def)
  qed
  then show ?thesis
    unfolding keys tw using find_down_complete [of "isSubset r" k "rev (takeWhile ?P q)" "rev p", OF k(2)]
    by simp
qed

lemma rm_contains_correct:
  assumes "rm_inv m" "\<not> interleaved r" "r_start r < r_end r"
  shows "\<exists>res m'. rm_contains mcs r m = Inr (res, m') \<and> tree m' = tree m \<and> rm_inv m' \<and>
    (\<forall>k. res = Some k \<longleftrightarrow> k \<in> set (rm_keys m) \<and> isSubset r k = Inr True)"
proof -
  have "\<forall>k\<in>set (rm_keys m). is_ok (isSubset r k)"
    using assms by (intro ballI isSubset_ok) (auto simp: rm_inv_def)
  from rm_find_sound [OF assms(1) this, of mcs r]
  obtain res m' where f: "rm_find mcs r (isSubset r) m = Inr (res, m')" "tree m' = tree m" "rm_inv m'"
    and res: "case res of
       Some k \<Rightarrow> k \<in> set (rm_keys m) \<and> isSubset r k = Inr True
     | None \<Rightarrow> cache_find (isSubset r) (cache m) = Inr None \<and>
         (case dropWhile (\<lambda>k. \<not> range_less r k) (rm_keys m) of [] \<Rightarrow> True | nxt # _ \<Rightarrow> isSubset r nxt = Inr False) \<and>
         find_down (isSubset r) (rev (takeWhile (\<lambda>k. \<not> range_less r k) (rm_keys m))) = Inr None"
    by blast
  have some: "k \<in> set (rm_keys m) \<and> isSubset r k = Inr True" if "res = Some k" for k
    using res that by simp
  have none: "find_down (isSubset r) (rev (takeWhile (\<lambda>k. \<not> range_less r k) (rm_keys m))) = Inr None"
    if "res = None"
    using res that by simp
  have "res = Some k" if k: "k \<in> set (rm_keys m)" "isSubset r k = Inr True" for k
  proof (cases res)
    case None
    then show ?thesis using none find_down_reaches [OF assms k] by simp
  next
    case (Some l)
    with some have l: "l \<in> set (rm_keys m)" "isSubset r l = Inr True" by auto
    have "entry_ok k" "entry_ok l" using assms(1) k l by (auto simp: rm_inv_def)
    then have "k = l"
      using rm_keys_disjoint [OF assms(1) k(1) l(1)] isSubset_start_in [OF assms(2,3)] k(2) l(2) by blast
    with Some show ?thesis by simp
  qed
  then show ?thesis using f some unfolding rm_contains_def by blast
qed

text \<open>A single address.\<close>

lemma granularity_pos: "interleaved k \<Longrightarrow> granularity k = Inr g \<Longrightarrow> 1 \<le> g"
proof -
  assume "interleaved k" "granularity k = Inr g"
  then obtain l where "l < 64" "g = 2 ^ l"
    by (auto simp: granularity_def Let_def push_bit_eq_mult split: if_splits)
  then have "unat g = 2 ^ l" by (simp add: unat_2_power)
  then show ?thesis by (simp add: word_le_nat_alt)
qed

lemma isSubset_single:
  assumes "a \<noteq> - 1" "entry_ok k"
  shows "isSubset (RangeSize a 1) k = Inr (contains k a)"
proof (cases "interleaved k")
  case True
  then obtain g where g: "granularity k = Inr g" using assms(2) by (auto simp: entry_ok_def is_ok_iff)
  then show ?thesis
    using True granularity_pos [OF True g]
    by (simp add: isSubset_def RangeSize_def range_size_def interleaved_def)
next
  case False
  then have "plain k" using assms(2) by (simp add: plain_def interleaved_def entry_ok_def)
  then show ?thesis
    using False unat_plus_one [OF assms(1)]
    by (auto simp: isSubset_def RangeSize_def interleaved_def contains_plain word_le_nat_alt word_less_nat_alt)
qed

lemma RangeSize_single: "a \<noteq> - 1 \<Longrightarrow> r_start (RangeSize a 1) < r_end (RangeSize a 1)"
  using unat_plus_one [of a] by (simp add: RangeSize_def word_less_nat_alt)

lemma rm_distinct: "rm_inv m \<Longrightarrow> distinct (rm_keys m)"
proof -
  assume inv: "rm_inv m"
  have "\<not> entry_before k k" if "k \<in> set (rm_keys m)" for k
    using inv that by (auto simp: rm_inv_def entry_ok_def entry_before_def)
  then show ?thesis
    using inv unfolding rm_inv_def sorted_wrt_iff_nth_less distinct_conv_nth
    by (metis linorder_neqE_nat nth_mem)
qed

lemma rm_lookup_eq:
  assumes "rm_inv m" "k \<in> set (rm_keys m)" "contains k a"
  shows "rm_lookup m a = map_of (tree m) k"
proof -
  have same: "fst e = k" if "e \<in> set (tree m)" "contains (fst e) a" for e
    using rm_keys_disjoint [OF assms(1), of "fst e" k a] that assms(2,3) by (simp add: addrs_def rm_keys_def)
  obtain v where "(k, v) \<in> set (tree m)" using assms(2) by (auto simp: rm_keys_def)
  then have "find (\<lambda>e. contains (fst e) a) (tree m) \<noteq> None"
    using assms(3) unfolding find_None_iff by (metis fst_conv)
  then obtain e where e: "find (\<lambda>e. contains (fst e) a) (tree m) = Some e" by blast
  then have "e \<in> set (tree m)" "contains (fst e) a" by (auto simp: find_Some_iff)
  then have "fst e = k" "map_of (tree m) (fst e) = Some (snd e)"
    using same rm_distinct [OF assms(1)] by (auto simp: rm_keys_def intro: map_of_is_SomeI)
  then show ?thesis using e by (simp add: rm_lookup_def)
qed

lemma rm_contains_addr_correct:
  assumes "rm_inv m" "a \<noteq> - 1"
  shows "\<exists>res m'. rm_contains_addr mcs a m = Inr (res, m') \<and> tree m' = tree m \<and> rm_inv m' \<and>
    rm_lookup m a = Option.bind res (map_of (tree m))"
proof -
  have r: "\<not> interleaved (RangeSize a 1)" by simp
  from rm_contains_correct [OF assms(1) r RangeSize_single [OF assms(2)], of mcs]
  obtain res m' where f: "rm_contains mcs (RangeSize a 1) m = Inr (res, m')" "tree m' = tree m" "rm_inv m'"
    and res: "\<And>k. res = Some k \<longleftrightarrow> k \<in> set (rm_keys m) \<and> isSubset (RangeSize a 1) k = Inr True"
    by blast
  have ok: "entry_ok k" if "k \<in> set (rm_keys m)" for k using assms(1) that by (auto simp: rm_inv_def)
  have res': "res = Some k \<longleftrightarrow> k \<in> set (rm_keys m) \<and> contains k a" for k
    using res [of k] isSubset_single [OF assms(2) ok, of k] by auto
  have "rm_lookup m a = Option.bind res (map_of (tree m))"
  proof (cases res)
    case None
    then have "find (\<lambda>e. contains (fst e) a) (tree m) = None"
      using res' unfolding find_None_iff rm_keys_def by (metis imageI list.set_map option.distinct(1))
    then show ?thesis using None by (simp add: rm_lookup_def)
  next
    case (Some k)
    then show ?thesis using res' [of k] rm_lookup_eq [OF assms(1), of k a] by simp
  qed
  then show ?thesis using f unfolding rm_contains_addr_def by blast
qed

section \<open>Insertion\<close>

lemma entry_before_trans: "entry_ok l \<Longrightarrow> entry_before k l \<Longrightarrow> entry_before l r \<Longrightarrow> entry_before k r"
  unfolding entry_before_def mergesWith_def entry_ok_def interleaved_def
  by (elim conjE disjE) auto

lemma intersects_False:
  assumes "entry_ok r" "entry_ok k" "interleaved r \<Longrightarrow> range_size k \<noteq> 1" "intersects r k = Inr False"
  shows "r_end k \<le> r_start r \<or> r_end r \<le> r_start k \<or> mergesWith r k \<and> interleaved r \<and> intlvMatch r \<noteq> intlvMatch k"
  using assms by (auto simp: intersects_def entry_ok_def mergesWith_def interleaved_def split: if_splits)

lemma rm_find_None:
  assumes "rm_find mcs r cond m = Inr (None, m')"
  shows "m' = m"
    and "dropWhile (\<lambda>k. \<not> range_less r k) (rm_keys m) = n # ns \<Longrightarrow> cond n = Inr False"
    and "takeWhile (\<lambda>k. \<not> range_less r k) (rm_keys m) = ls @ [l] \<Longrightarrow> cond l = Inr False"
  using assms
  by (auto simp: rm_find_def Let_def res_simps split: option.splits list.splits if_splits)

lemma map_insert_between:
  assumes "\<forall>e\<in>set es. range_less (fst e) r" "\<forall>e\<in>set fs. range_less r (fst e) \<and> \<not> range_less (fst e) r"
  shows "map_insert r d (es @ fs) = es @ (r, d) # fs"
  using assms(1)
proof (induction es)
  case Nil
  then show ?case using assms(2) by (cases fs) auto
qed auto

lemma range_less_asym: "range_less a b \<Longrightarrow> \<not> range_less b a"
  by (auto simp: range_less_def split: if_splits)

text \<open>
  When the search for an overlap finds nothing, the new key belongs between the entries before
  and after its upper bound.
\<close>

lemma insert_position:
  assumes inv: "rm_inv m" and r: "entry_ok r" "interleaved r \<longrightarrow> (\<forall>k\<in>set (rm_keys m). range_size k \<noteq> 1)"
    and none: "rm_find mcs r (intersects r) m = Inr (None, m')"
  shows "\<exists>es fs. tree m = es @ fs \<and> map_insert r d (tree m) = es @ (r, d) # fs \<and>
    (\<forall>e\<in>set es. entry_before (fst e) r) \<and> (\<forall>e\<in>set fs. entry_before r (fst e))"
proof -
  let ?P = "\<lambda>k. \<not> range_less r k"
  define es where "es = takeWhile (?P \<circ> fst) (tree m)"
  define fs where "fs = dropWhile (?P \<circ> fst) (tree m)"
  have t: "tree m = es @ fs" by (simp add: es_def fs_def)
  have es: "takeWhile ?P (rm_keys m) = map fst es" and fs: "dropWhile ?P (rm_keys m) = map fst fs"
    by (simp_all add: es_def fs_def takeWhile_map dropWhile_map rm_keys_def)
  have ok: "entry_ok (fst e)" if "e \<in> set es \<union> set fs" for e using inv that by (auto simp: rm_inv_def rm_keys_def t)
  have srt: "sorted_wrt entry_before (map fst es @ map fst fs)" using inv by (simp add: rm_inv_def rm_keys_def t)
  note ff = intersects_False [OF r(1)]
  have before: "entry_before (fst e) r" if e: "e \<in> set es" for e
  proof -
    obtain es' l where l: "es = es' @ [l]" using e by (cases es rule: rev_cases) auto
    have "intersects r (fst l) = Inr False" using rm_find_None(3) [OF none, unfolded es] by (simp add: l)
    moreover have "\<not> range_less r (fst l)" using set_takeWhileD [of l "?P \<circ> fst" "tree m"] by (simp add: es_def [symmetric] l)
    ultimately have lr: "entry_before (fst l) r"
      using ff [of "fst l"] ok [of l] r
      by (auto simp: entry_before_def range_less_def mergesWith_def entry_ok_def interleaved_def l t rm_keys_def split: if_splits)
    show ?thesis
    proof (cases "e = l")
      case False
      then have "entry_before (fst e) (fst l)" using srt e l by (auto simp: sorted_wrt_append)
      then show ?thesis using lr ok [of l] by (auto simp: l intro: entry_before_trans)
    qed (simp add: lr)
  qed
  have after: "entry_before r (fst e)" if e: "e \<in> set fs" for e
  proof -
    obtain n fs' where n: "fs = n # fs'" using e by (cases fs) auto
    have "intersects r (fst n) = Inr False" using rm_find_None(2) [OF none, unfolded fs] by (simp add: n)
    moreover have "range_less r (fst n)" using hd_dropWhile [of "?P \<circ> fst" "tree m"] by (simp add: fs_def [symmetric] n)
    ultimately have rn: "entry_before r (fst n)"
      using ff [of "fst n"] ok [of n] r
      by (auto simp: entry_before_def range_less_def mergesWith_def entry_ok_def interleaved_def n t rm_keys_def split: if_splits)
    show ?thesis
    proof (cases "e = n")
      case False
      then have "entry_before (fst n) (fst e)" using srt e n by (auto simp: sorted_wrt_append)
      then show ?thesis using rn ok [of n] by (auto simp: n intro: entry_before_trans)
    qed (simp add: rn)
  qed
  have "\<forall>e\<in>set es. range_less (fst e) r"
    using before ok by (blast intro: entry_before_less)
  moreover have "\<forall>e\<in>set fs. range_less r (fst e) \<and> \<not> range_less (fst e) r"
    using after r(1) by (blast intro: entry_before_less dest: range_less_asym)
  ultimately have "map_insert r d (es @ fs) = es @ (r, d) # fs" by (rule map_insert_between)
  then show ?thesis using t before after by metis
qed

lemma find_append: "find P (xs @ ys) = (case find P xs of None \<Rightarrow> find P ys | Some x \<Rightarrow> Some x)"
  by (induction xs) auto

lemma rm_insert_correct:
  assumes inv: "rm_inv m" and r: "entry_ok r" "interleaved r \<longrightarrow> (\<forall>k\<in>set (rm_keys m). range_size k \<noteq> 1)"
    and ins: "rm_insert mcs r d m = Inr (Some k, m')"
  shows "k = r" "rm_inv m'" "\<And>a. rm_lookup m' a = (if contains r a then Some d else rm_lookup m a)"
proof -
  obtain hit m1 where f: "rm_find mcs r (intersects r) m = Inr (hit, m1)"
    and i: "(if hit \<noteq> None then Inr (None, m1) else Inr (Some r, m1\<lparr>tree := map_insert r d (tree m1)\<rparr>)) = (Inr (Some k, m') :: (addr_range option \<times> 'a range_map) res)"
    using ins by (auto simp: rm_insert_def rm_intersects_def sbind_Inr_iff)
  have k: "k = r" and m': "m' = m1\<lparr>tree := map_insert r d (tree m1)\<rparr>" and "hit = None"
    using i by (auto split: if_splits)
  then have none: "rm_find mcs r (intersects r) m = Inr (None, m1)" using f by simp
  have m1: "m1 = m" by (rule rm_find_None(1) [OF none])
  show "k = r" by (rule k)
  obtain es fs where t: "tree m = es @ fs" and mi: "map_insert r d (tree m) = es @ (r, d) # fs"
    and es: "\<forall>e\<in>set es. entry_before (fst e) r" and fs: "\<forall>e\<in>set fs. entry_before r (fst e)"
    using insert_position [OF inv r none, of d] by blast
  have t': "tree m' = es @ (r, d) # fs" and c': "cache m' = cache m" using mi by (simp_all add: m' m1)
  show "rm_inv m'"
    using inv es fs r(1) unfolding rm_inv_def rm_keys_def t t' c' by (auto simp: sorted_wrt_append)
  have out: "\<not> contains (fst e) a" if "e \<in> set es" "contains r a" for e a
    using entry_before_disjoint [of "fst e" r] es that by (auto simp: addrs_def)
  show "rm_lookup m' a = (if contains r a then Some d else rm_lookup m a)" for a
  proof (cases "contains r a")
    case True
    then have "find (\<lambda>e. contains (fst e) a) es = None" using out by (auto simp: find_None_iff)
    then show ?thesis using True by (simp add: rm_lookup_def t' find_append)
  next
    case False
    then show ?thesis by (simp add: rm_lookup_def t t' find_append split: option.split)
  qed
qed

lemma rm_insert_refused:
  assumes "rm_inv m" "rm_insert mcs r d m = Inr (None, m')"
    "\<forall>k\<in>set (rm_keys m). is_ok (intersects r k)"
  shows "tree m' = tree m" "rm_inv m'" "\<exists>k\<in>set (rm_keys m). intersects r k = Inr True"
  using assms(2) rm_find_sound [OF assms(1,3), of mcs r]
  by (auto simp: rm_insert_def rm_intersects_def split: if_splits option.splits)

section \<open>Erasure\<close>

lemma rm_erase_correct:
  assumes "rm_inv m" "p \<in> set (rm_keys m)"
  shows "rm_inv (rm_erase p m)" "rm_lookup (rm_erase p m) a = (if contains p a then None else rm_lookup m a)"
proof -
  have keys: "rm_keys (rm_erase p m) = filter (\<lambda>k. k \<noteq> p) (rm_keys m)"
    by (simp add: rm_erase_def rm_keys_def filter_map comp_def)
  show "rm_inv (rm_erase p m)"
    using assms(1) unfolding rm_inv_def keys by (auto simp: rm_erase_def intro: sorted_wrt_filter)
  have other: "\<not> contains (fst e) a" if "e \<in> set (tree m)" "fst e \<noteq> p" "contains p a" for e
    using rm_keys_disjoint [OF assms, of "fst e" a] that by (auto simp: addrs_def rm_keys_def)
  have keep: "find P (filter Q xs) = find P xs" if "\<And>x. x \<in> set xs \<Longrightarrow> P x \<Longrightarrow> Q x" for P Q and xs :: "(addr_range \<times> 'a) list"
    using that by (induction xs) auto
  show "rm_lookup (rm_erase p m) a = (if contains p a then None else rm_lookup m a)"
  proof (cases "contains p a")
    case True
    then show ?thesis using other by (auto simp: rm_lookup_def rm_erase_def find_None_iff)
  next
    case False
    then have "find (\<lambda>e. contains (fst e) a) (filter (\<lambda>e. fst e \<noteq> p) (tree m)) = find (\<lambda>e. contains (fst e) a) (tree m)"
      by (intro keep) auto
    then show ?thesis using False by (simp add: rm_lookup_def rm_erase_def)
  qed
qed

section \<open>Properties\<close>

text \<open>
  C12: Looking an address up refines the abstract decoder: for every map that satisfies the
  invariant the search terminates without a panic, keeps the entries and the invariant, and
  returns exactly the value of the entry that contains the address, whatever the cache holds.
\<close>

theorem lookup_refines_decoder:
  assumes "rm_inv m" "a \<noteq> - 1"
  shows "\<exists>res m'. rm_contains_addr mcs a m = Inr (res, m') \<and> tree m' = tree m \<and> rm_inv m' \<and>
    rm_lookup m a = Option.bind res (map_of (tree m))"
  using assms by (rule rm_contains_addr_correct)

theorem lookup_refines_decoder_witness:
  "\<exists>res m'. rm_contains_addr 1 (5 :: addr) \<lparr>tree = [(AddrRange 0 10, True), (AddrRange 10 20, False)], cache = [AddrRange 10 20]\<rparr> = Inr (res, m') \<and>
    tree m' = [(AddrRange 0 10, True), (AddrRange 10 20, False)] \<and> rm_inv m' \<and>
    rm_lookup \<lparr>tree = [(AddrRange 0 10, True), (AddrRange 10 20, False)], cache = [AddrRange 10 20]\<rparr> 5 =
      Option.bind res (map_of [(AddrRange 0 10, True), (AddrRange 10 20, False)])"
proof -
  let ?m = "\<lparr>tree = [(AddrRange 0 10, True), (AddrRange 10 20, False)], cache = [AddrRange 10 20]\<rparr>"
  have "rm_inv ?m"
    by (simp add: rm_inv_def rm_keys_def entry_ok_def entry_before_def interleaved_def)
  from lookup_refines_decoder [OF this, of 5 1] show ?thesis by simp
qed

text \<open>
  The last address of the address space is looked up wrongly: the one-byte range around it
  wraps to end at 0, which lies below the end of every range, so an entry that does not contain
  the address is returned.
\<close>

lemma lookup_max_addr_wrong:
  "let m = \<lparr>tree = [(AddrRange 0 10, True)], cache = []\<rparr>
   in \<not> contains (AddrRange 0 10) (- 1) \<and>
      map_sum id fst (rm_contains_addr 0 (- 1) m) = Inr (Some (AddrRange 0 10))"
proof -
  have "contains (AddrRange 0 10) (- 1) = False" by code_simp
  moreover have "map_sum id fst (rm_contains_addr 0 (- 1) \<lparr>tree = [(AddrRange 0 10, True)], cache = []\<rparr>) =
      Inr (Some (AddrRange 0 10))" by code_simp
  ultimately show ?thesis by (simp add: Let_def)
qed

end
