(* ===== verification/Request.thy ===== *)
theory Request
  imports Prelude
begin

text \<open>
  Model of \<^verbatim>\<open>src/gem5/src/base/flags.hh\<close> and of \<^verbatim>\<open>src/gem5/src/mem/request.hh\<close>: the request that
  travels from a requestor to its target, its three sets of flags and the operations on them.
  The flag constants that the definitions use keep their names behind the prefixes \<^verbatim>\<open>R_\<close> (request)
  and \<^verbatim>\<open>RV_\<close> (validity).  The functor of an atomic operation is code of the requestor, so it is
  an arbitrary function on bytes.
\<close>

section \<open>Flags\<close>

definition isSet :: "'a :: len word \<Rightarrow> 'a word \<Rightarrow> bool" where
  "isSet flags m \<longleftrightarrow> flags AND m \<noteq> 0"

definition allSet :: "'a :: len word \<Rightarrow> 'a word \<Rightarrow> bool" where
  "allSet flags m \<longleftrightarrow> flags AND m = m"

definition noneSet :: "'a :: len word \<Rightarrow> 'a word \<Rightarrow> bool" where
  "noneSet flags m \<longleftrightarrow> flags AND m = 0"

definition clearFlags :: "'a :: len word \<Rightarrow> 'a word \<Rightarrow> 'a word" where
  "clearFlags flags m = flags AND NOT m"

definition setFlags :: "'a :: len word \<Rightarrow> 'a word \<Rightarrow> 'a word" where
  "setFlags flags m = flags OR m"

definition setFlagsIf :: "'a :: len word \<Rightarrow> 'a word \<Rightarrow> bool \<Rightarrow> 'a word" where
  "setFlagsIf flags m condition = (if condition then setFlags flags m else clearFlags flags m)"

definition replaceFlags :: "'a :: len word \<Rightarrow> 'a word \<Rightarrow> 'a word \<Rightarrow> 'a word" where
  "replaceFlags flags new_flags m = (flags AND NOT m) OR (new_flags AND m)"

named_theorems flag_simps \<open>tests after updates of flags\<close>

lemma isSet_setFlags [flag_simps]: "isSet (setFlags f m) n \<longleftrightarrow> isSet f n \<or> m AND n \<noteq> 0"
  by (simp add: isSet_def setFlags_def bit.conj_disj_distrib2 or_eq_0_iff)

lemma isSet_clearFlags_same [flag_simps]: "\<not> isSet (clearFlags f m) m"
  by (simp add: isSet_def clearFlags_def and.assoc)

lemma isSet_clearFlags_other [flag_simps]: "m AND n = 0 \<Longrightarrow> isSet (clearFlags f m) n \<longleftrightarrow> isSet f n"
proof -
  assume "m AND n = 0"
  then have "NOT m AND n = n" by (simp add: bit_eq_iff bit_and_iff bit_not_iff) blast
  then show ?thesis by (simp add: isSet_def clearFlags_def and.assoc)
qed

lemma noneSet_iff [flag_simps]: "noneSet f m \<longleftrightarrow> \<not> isSet f m"
  by (simp add: noneSet_def isSet_def)

section \<open>Requests\<close>

abbreviation (input) R_INST_FETCH :: u64 where "R_INST_FETCH \<equiv> 0x100"
abbreviation (input) R_UNCACHEABLE :: u64 where "R_UNCACHEABLE \<equiv> 0x400"
abbreviation (input) R_CACHE_BLOCK_ZERO :: u64 where "R_CACHE_BLOCK_ZERO \<equiv> 0x10000"
abbreviation (input) R_LOCKED_RMW :: u64 where "R_LOCKED_RMW \<equiv> 0x100000"
abbreviation (input) R_LLSC :: u64 where "R_LLSC \<equiv> 0x200000"
abbreviation (input) R_MEM_SWAP :: u64 where "R_MEM_SWAP \<equiv> 0x400000"
abbreviation (input) R_MEM_SWAP_COND :: u64 where "R_MEM_SWAP_COND \<equiv> 0x800000"
abbreviation (input) R_READ_MODIFY_WRITE :: u64 where "R_READ_MODIFY_WRITE \<equiv> 0x20000"
abbreviation (input) R_PREFETCH :: u64 where "R_PREFETCH \<equiv> 0x1000000"
abbreviation (input) R_PF_EXCLUSIVE :: u64 where "R_PF_EXCLUSIVE \<equiv> 0x2000000"
abbreviation (input) R_ACQUIRE :: u64 where "R_ACQUIRE \<equiv> 0x20000"
abbreviation (input) R_ATOMIC_RETURN_OP :: u64 where "R_ATOMIC_RETURN_OP \<equiv> 0x40000000"
abbreviation (input) R_ATOMIC_NO_RETURN_OP :: u64 where "R_ATOMIC_NO_RETURN_OP \<equiv> 0x80000000"
abbreviation (input) R_SECURE :: u64 where "R_SECURE \<equiv> 0x10000000"
abbreviation (input) R_INVALIDATE :: u64 where "R_INVALIDATE \<equiv> 0x100000000"
abbreviation (input) R_CLEAN :: u64 where "R_CLEAN \<equiv> 0x200000000"
abbreviation (input) R_HTM_START :: u64 where "R_HTM_START \<equiv> 0x10000000000"
abbreviation (input) R_HTM_COMMIT :: u64 where "R_HTM_COMMIT \<equiv> 0x20000000000"
abbreviation (input) R_HTM_CANCEL :: u64 where "R_HTM_CANCEL \<equiv> 0x40000000000"
abbreviation (input) R_HTM_ABORT :: u64 where "R_HTM_ABORT \<equiv> 0x80000000000"

abbreviation (input) RV_VALID_SIZE :: u16 where "RV_VALID_SIZE \<equiv> 0x1"
abbreviation (input) RV_VALID_PADDR :: u16 where "RV_VALID_PADDR \<equiv> 0x2"
abbreviation (input) RV_VALID_VADDR :: u16 where "RV_VALID_VADDR \<equiv> 0x4"
abbreviation (input) RV_VALID_PC :: u16 where "RV_VALID_PC \<equiv> 0x10"
abbreviation (input) RV_VALID_CONTEXT_ID :: u16 where "RV_VALID_CONTEXT_ID \<equiv> 0x20"
abbreviation (input) RV_VALID_EXTRA_DATA :: u16 where "RV_VALID_EXTRA_DATA \<equiv> 0x80"
abbreviation (input) RV_VALID_STREAM_ID :: u16 where "RV_VALID_STREAM_ID \<equiv> 0x100"
abbreviation (input) RV_VALID_SUBSTREAM_ID :: u16 where "RV_VALID_SUBSTREAM_ID \<equiv> 0x200"

abbreviation (input) R_STICKY_FLAGS :: u64 where "R_STICKY_FLAGS \<equiv> R_INST_FETCH"
abbreviation (input) RV_STICKY_PRIVATE_FLAGS :: u16 where "RV_STICKY_PRIVATE_FLAGS \<equiv> RV_VALID_CONTEXT_ID"

type_synonym atomic_op = "u8 list \<Rightarrow> u8 list"

record request =
  r_paddr :: addr
  r_size :: u32
  r_byteEnable :: "bool list"
  r_requestorId :: u16
  r_flags :: u64
  r_cacheCoherenceFlags :: u64
  r_privateFlags :: u16
  r_time :: tick
  r_taskId :: u32
  r_streamId :: u32
  r_substreamId :: u32
  r_systemReq :: bool
  r_vaddr :: addr
  r_extraData :: u64
  r_contextId :: int
  r_pc :: addr
  r_reqInstSeqNum :: u64
  r_atomicOp :: "atomic_op option"
  r_instCount :: u64
  r_translateDelta :: tick
  r_accessDelta :: tick
  r_depth :: int

text \<open>The default member initialisers; \<^verbatim>\<open>context_switch_task_id::Unknown\<close> is 1024.\<close>

definition Request_default :: request where
  "Request_default = \<lparr>r_paddr = 0, r_size = 0, r_byteEnable = [], r_requestorId = - 1, r_flags = 0,
     r_cacheCoherenceFlags = 0, r_privateFlags = 0, r_time = - 1, r_taskId = 1024, r_streamId = 0,
     r_substreamId = 0, r_systemReq = False, r_vaddr = - 1, r_extraData = 0, r_contextId = - 1, r_pc = - 1,
     r_reqInstSeqNum = 0, r_atomicOp = None, r_instCount = 0, r_translateDelta = 0, r_accessDelta = 0,
     r_depth = 0\<rparr>"

definition Request_phys :: "tick \<Rightarrow> addr \<Rightarrow> u32 \<Rightarrow> u64 \<Rightarrow> u16 \<Rightarrow> request" where
  "Request_phys curTick paddr sz flags rid =
     Request_default\<lparr>r_paddr := paddr, r_size := sz, r_requestorId := rid, r_time := curTick,
       r_flags := setFlags 0 flags, r_privateFlags := setFlags 0 (RV_VALID_PADDR OR RV_VALID_SIZE),
       r_byteEnable := replicate (unat sz) True\<rparr>"

definition setVirt :: "tick \<Rightarrow> addr \<Rightarrow> u32 \<Rightarrow> u64 \<Rightarrow> u16 \<Rightarrow> addr \<Rightarrow> atomic_op option \<Rightarrow> request \<Rightarrow> request" where
  "setVirt curTick vaddr sz flags rid pc amo_op r =
     r\<lparr>r_vaddr := vaddr, r_size := sz, r_requestorId := rid, r_pc := pc, r_time := curTick,
       r_flags := setFlags (clearFlags (r_flags r) (NOT R_STICKY_FLAGS)) flags,
       r_privateFlags := setFlags (clearFlags (r_privateFlags r) (NOT RV_STICKY_PRIVATE_FLAGS))
         (RV_VALID_VADDR OR RV_VALID_SIZE OR RV_VALID_PC),
       r_depth := 0, r_accessDelta := 0, r_translateDelta := 0, r_atomicOp := amo_op\<rparr>"

definition setContext :: "int \<Rightarrow> request \<Rightarrow> request" where
  "setContext context_id r =
     r\<lparr>r_contextId := context_id, r_privateFlags := setFlags (r_privateFlags r) RV_VALID_CONTEXT_ID\<rparr>"

definition Request_virt :: "tick \<Rightarrow> addr \<Rightarrow> u32 \<Rightarrow> u64 \<Rightarrow> u16 \<Rightarrow> addr \<Rightarrow> int \<Rightarrow> atomic_op option \<Rightarrow> request" where
  "Request_virt curTick vaddr sz flags rid pc cid amo_op =
     (setContext cid (setVirt curTick vaddr sz flags rid pc amo_op Request_default))
       \<lparr>r_byteEnable := replicate (unat sz) True\<rparr>"

text \<open>The copy constructor leaves the stream ids, the system flag and the counts at their defaults.\<close>

definition Request_copy :: "request \<Rightarrow> request" where
  "Request_copy r =
     r\<lparr>r_streamId := 0, r_substreamId := 0, r_systemReq := False, r_instCount := 0\<rparr>"

definition hasStreamId :: "request \<Rightarrow> bool" where
  "hasStreamId r \<longleftrightarrow> isSet (r_privateFlags r) RV_VALID_STREAM_ID"

definition setStreamId :: "u32 \<Rightarrow> request \<Rightarrow> request" where
  "setStreamId sid r = r\<lparr>r_streamId := sid, r_privateFlags := setFlags (r_privateFlags r) RV_VALID_STREAM_ID\<rparr>"

definition setSubstreamId :: "u32 \<Rightarrow> request \<Rightarrow> request res" where
  "setSubstreamId ssid r = sbind (sassert (hasStreamId r)) (\<lambda>_.
     Inr (r\<lparr>r_substreamId := ssid, r_privateFlags := setFlags (r_privateFlags r) RV_VALID_SUBSTREAM_ID\<rparr>))"

definition setPaddr :: "addr \<Rightarrow> request \<Rightarrow> request" where
  "setPaddr paddr r = r\<lparr>r_paddr := paddr, r_privateFlags := setFlags (r_privateFlags r) RV_VALID_PADDR\<rparr>"

definition hasPaddr :: "request \<Rightarrow> bool" where
  "hasPaddr r \<longleftrightarrow> isSet (r_privateFlags r) RV_VALID_PADDR"

definition hasVaddr :: "request \<Rightarrow> bool" where
  "hasVaddr r \<longleftrightarrow> isSet (r_privateFlags r) RV_VALID_VADDR"

definition hasSize :: "request \<Rightarrow> bool" where
  "hasSize r \<longleftrightarrow> isSet (r_privateFlags r) RV_VALID_SIZE"

definition req_getPaddr :: "request \<Rightarrow> addr res" where
  "req_getPaddr r = sbind (sassert (hasPaddr r)) (\<lambda>_. Inr (r_paddr r))"

definition req_getSize :: "request \<Rightarrow> u32 res" where
  "req_getSize r = sbind (sassert (hasSize r)) (\<lambda>_. Inr (r_size r))"

definition setByteEnable :: "bool list \<Rightarrow> request \<Rightarrow> request res" where
  "setByteEnable be r = sbind (sassert (length be = unat (r_size r))) (\<lambda>_. Inr (r\<lparr>r_byteEnable := be\<rparr>))"

definition isMasked :: "request \<Rightarrow> bool" where
  "isMasked r \<longleftrightarrow> False \<in> set (r_byteEnable r)"

definition req_setFlags :: "u64 \<Rightarrow> request \<Rightarrow> request res" where
  "req_setFlags flags r = sbind (sassert (hasPaddr r \<or> hasVaddr r)) (\<lambda>_. Inr (r\<lparr>r_flags := setFlags (r_flags r) flags\<rparr>))"

definition req_clearFlags :: "u64 \<Rightarrow> request \<Rightarrow> request res" where
  "req_clearFlags flags r = sbind (sassert (hasPaddr r \<or> hasVaddr r)) (\<lambda>_. Inr (r\<lparr>r_flags := clearFlags (r_flags r) flags\<rparr>))"

definition setCacheCoherenceFlags :: "u64 \<Rightarrow> request \<Rightarrow> request res" where
  "setCacheCoherenceFlags extraFlags r = sbind (sassert (hasPaddr r \<or> hasVaddr r)) (\<lambda>_.
     Inr (r\<lparr>r_cacheCoherenceFlags := setFlags (r_cacheCoherenceFlags r) extraFlags\<rparr>))"

text \<open>
  A request that crosses a line is split at a virtual address.  The new size is cut to
  \<^verbatim>\<open>unsigned\<close>, and the byte enables are shared out in the same proportion.
\<close>

definition splitOnVaddr :: "addr \<Rightarrow> request \<Rightarrow> (request \<times> request) res" where
  "splitOnVaddr split_addr r =
     (if \<not> hasVaddr r then Inl Assert_Failed
      else if hasPaddr r then Inl Assert_Failed
      else if \<not> (split_addr > r_vaddr r \<and> split_addr < r_vaddr r + ucast (r_size r)) then Inl Assert_Failed
      else
        (let size1 = ucast (split_addr - r_vaddr r);
             req1 = (Request_copy r)\<lparr>r_size := size1, r_byteEnable := take (unat size1) (r_byteEnable r)\<rparr>;
             req2 = (Request_copy r)\<lparr>r_vaddr := split_addr, r_size := r_size r - size1,
                      r_byteEnable := drop (unat size1) (r_byteEnable r)\<rparr>
         in Inr (req1, req2)))"

definition getExtraData :: "request \<Rightarrow> u64 res" where
  "getExtraData r = sbind (sassert (isSet (r_privateFlags r) RV_VALID_EXTRA_DATA)) (\<lambda>_. Inr (r_extraData r))"

definition setExtraData :: "u64 \<Rightarrow> request \<Rightarrow> request" where
  "setExtraData v r = r\<lparr>r_extraData := v, r_privateFlags := setFlags (r_privateFlags r) RV_VALID_EXTRA_DATA\<rparr>"

definition hasContextId :: "request \<Rightarrow> bool" where
  "hasContextId r \<longleftrightarrow> isSet (r_privateFlags r) RV_VALID_CONTEXT_ID"

definition contextId :: "request \<Rightarrow> int res" where
  "contextId r = sbind (sassert (hasContextId r)) (\<lambda>_. Inr (r_contextId r))"

definition req_isUncacheable :: "request \<Rightarrow> bool" where
  "req_isUncacheable r \<longleftrightarrow> isSet (r_flags r) R_UNCACHEABLE"

definition req_isPrefetch :: "request \<Rightarrow> bool" where
  "req_isPrefetch r \<longleftrightarrow> isSet (r_flags r) (R_PREFETCH OR R_PF_EXCLUSIVE)"

definition req_isPrefetchEx :: "request \<Rightarrow> bool" where
  "req_isPrefetchEx r \<longleftrightarrow> isSet (r_flags r) R_PF_EXCLUSIVE"

definition req_isLLSC :: "request \<Rightarrow> bool" where
  "req_isLLSC r \<longleftrightarrow> isSet (r_flags r) R_LLSC"

definition req_isLockedRMW :: "request \<Rightarrow> bool" where
  "req_isLockedRMW r \<longleftrightarrow> isSet (r_flags r) R_LOCKED_RMW"

definition req_isSwap :: "request \<Rightarrow> bool" where
  "req_isSwap r \<longleftrightarrow> isSet (r_flags r) (R_MEM_SWAP OR R_MEM_SWAP_COND)"

definition req_isCondSwap :: "request \<Rightarrow> bool" where
  "req_isCondSwap r \<longleftrightarrow> isSet (r_flags r) R_MEM_SWAP_COND"

definition req_isReadModifyWrite :: "request \<Rightarrow> bool" where
  "req_isReadModifyWrite r \<longleftrightarrow> isSet (r_flags r) (R_LOCKED_RMW OR R_READ_MODIFY_WRITE)"

definition req_isSecure :: "request \<Rightarrow> bool" where
  "req_isSecure r \<longleftrightarrow> isSet (r_flags r) R_SECURE"

definition req_isHTMAbort :: "request \<Rightarrow> bool" where
  "req_isHTMAbort r \<longleftrightarrow> isSet (r_flags r) R_HTM_ABORT"

definition req_isHTMCmd :: "request \<Rightarrow> bool" where
  "req_isHTMCmd r \<longleftrightarrow> isSet (r_flags r) R_HTM_START \<or> isSet (r_flags r) R_HTM_COMMIT \<or>
     isSet (r_flags r) R_HTM_CANCEL \<or> req_isHTMAbort r"

definition req_isAtomic :: "request \<Rightarrow> bool" where
  "req_isAtomic r \<longleftrightarrow> isSet (r_flags r) R_ATOMIC_RETURN_OP \<or> isSet (r_flags r) R_ATOMIC_NO_RETURN_OP"

definition req_isAcquire :: "request \<Rightarrow> bool" where
  "req_isAcquire r \<longleftrightarrow> isSet (r_cacheCoherenceFlags r) R_ACQUIRE"

definition req_isCacheClean :: "request \<Rightarrow> bool" where
  "req_isCacheClean r \<longleftrightarrow> isSet (r_flags r) R_CLEAN"

definition req_isCacheInvalidate :: "request \<Rightarrow> bool" where
  "req_isCacheInvalidate r \<longleftrightarrow> isSet (r_flags r) R_INVALIDATE"

definition req_isCacheMaintenance :: "request \<Rightarrow> bool" where
  "req_isCacheMaintenance r \<longleftrightarrow> isSet (r_flags r) (R_CLEAN OR R_INVALIDATE)"

section \<open>Splitting\<close>

lemma split_sizes:
  assumes "splitOnVaddr s r = Inr (r1, r2)" "unat (r_vaddr r) + unat (r_size r) < 2 ^ 64"
  shows "r_vaddr r1 = r_vaddr r" "r_vaddr r2 = r_vaddr r1 + ucast (r_size r1)"
    "unat (r_size r1) + unat (r_size r2) = unat (r_size r)" "0 < r_size r1" "0 < r_size r2"
proof -
  have lt: "r_vaddr r < s" "s < r_vaddr r + ucast (r_size r)"
    and r1: "r1 = (Request_copy r)\<lparr>r_size := ucast (s - r_vaddr r), r_byteEnable := take (unat (ucast (s - r_vaddr r) :: u32)) (r_byteEnable r)\<rparr>"
    and r2: "r2 = (Request_copy r)\<lparr>r_vaddr := s, r_size := r_size r - ucast (s - r_vaddr r),
                      r_byteEnable := drop (unat (ucast (s - r_vaddr r) :: u32)) (r_byteEnable r)\<rparr>"
    using assms(1) by (auto simp: splitOnVaddr_def Let_def split: if_splits)
  have e: "unat (r_vaddr r + ucast (r_size r)) = unat (r_vaddr r) + unat (r_size r)"
    using assms(2) by (subst unat_add_no_wrap) (simp_all add: unat_ucast_up)
  have d: "unat (s - r_vaddr r) = unat s - unat (r_vaddr r)"
    using lt(1) by (simp add: unat_sub less_imp_le)
  have b: "0 < unat (s - r_vaddr r)" "unat (s - r_vaddr r) < unat (r_size r)"
    using lt e d by (auto simp: word_less_nat_alt)
  have c: "unat (ucast (s - r_vaddr r) :: u32) = unat (s - r_vaddr r)"
    using b(2) unat_lt_exp [of "r_size r"] by (simp add: unsigned_ucast_eq take_bit_nat_eq_self)
  show "r_vaddr r1 = r_vaddr r" by (simp add: r1 Request_copy_def)
  have "(ucast (ucast (s - r_vaddr r) :: u32) :: u64) = s - r_vaddr r"
    by (simp only: word_unat_eq_iff unat_ucast_up [where 'a = 32 and 'b = 64, simplified] c)
  then show "r_vaddr r2 = r_vaddr r1 + ucast (r_size r1)" by (simp add: r1 r2 Request_copy_def)
  have s2: "unat (r_size r - ucast (s - r_vaddr r)) = unat (r_size r) - unat (s - r_vaddr r)"
    using b(2) by (subst unat_sub) (simp_all add: word_le_nat_alt c)
  then show "unat (r_size r1) + unat (r_size r2) = unat (r_size r)" using b by (simp add: r1 r2 c)
  show "0 < r_size r1" "0 < r_size r2" using b s2 by (simp_all add: r1 r2 word_less_nat_alt c)
qed

section \<open>Properties\<close>

text \<open>
  \<^verbatim>\<open>splitOnVaddr\<close> cuts a virtual access that does not wrap around into two non-empty adjacent
  accesses of the same total size.
\<close>

lemma splitOnVaddr_partitions:
  assumes "splitOnVaddr s r = Inr (r1, r2)" "unat (r_vaddr r) + unat (r_size r) < 2 ^ 64"
  shows "r_vaddr r1 = r_vaddr r \<and> r_vaddr r2 = r_vaddr r1 + ucast (r_size r1) \<and>
    unat (r_size r1) + unat (r_size r2) = unat (r_size r) \<and> 0 < r_size r1 \<and> 0 < r_size r2"
  using split_sizes [OF assms] by blast

lemma splitOnVaddr_partitions_witness:
  "\<exists>r1 r2. splitOnVaddr 0x1000 (setVirt 0 0xff8 16 0 0 0 None Request_default) = Inr (r1, r2) \<and>
    unat (r_size r1) + unat (r_size r2) = 16"
proof -
  let ?r = "setVirt 0 0xff8 16 0 0 0 None Request_default"
  have "is_ok (splitOnVaddr 0x1000 ?r)" by code_simp
  then obtain r1 r2 where s: "splitOnVaddr 0x1000 ?r = Inr (r1, r2)" by (cases "splitOnVaddr 0x1000 ?r") auto
  from splitOnVaddr_partitions [OF s] s show ?thesis by (simp add: setVirt_def)
qed

text \<open>
  \<^verbatim>\<open>isAcquire\<close> never sees the \<^verbatim>\<open>ACQUIRE\<close> flag it names: that flag belongs to the request flags,
  while the test reads the coherence flags; a request made with only \<^verbatim>\<open>ACQUIRE\<close> is not an acquire, but
  counts as a read-modify-write, whose bit is the same.
\<close>

lemma acquire_flag_lost:
  "let r = Request_phys t a sz R_ACQUIRE rid in \<not> req_isAcquire r \<and> req_isReadModifyWrite r"
  by (simp add: Request_phys_def Request_default_def req_isAcquire_def req_isReadModifyWrite_def isSet_def setFlags_def)

end
