(* ===== verification/Mem_Cmd.thy ===== *)
theory Mem_Cmd
  imports Prelude
begin

text \<open>
  Model of class \<^verbatim>\<open>MemCmd\<close> of \<^verbatim>\<open>src/gem5/src/mem/packet.hh\<close> and of its table
  \<^verbatim>\<open>commandInfo\<close> in \<^verbatim>\<open>src/gem5/src/mem/packet.cc\<close>.  The table is an array without designators: an
  entry belongs to a command only through its position, so the command enumeration has its integer
  values here and every query goes through the array, as in the source.
\<close>

section \<open>Commands and their table\<close>

datatype command =
    InvalidCmd | ReadReq | ReadResp | ReadRespWithInvalidate | WriteReq | WriteResp
  | WriteCompleteResp | WritebackDirty | WritebackClean | WriteClean | CleanEvict | SoftPFReq
  | SoftPFExReq | HardPFReq | SoftPFResp | HardPFResp | WriteLineReq | UpgradeReq
  | SCUpgradeReq | UpgradeResp | SCUpgradeFailReq | UpgradeFailResp | ReadExReq | ReadExResp
  | ReadCleanReq | ReadSharedReq | LoadLockedReq | StoreCondReq | StoreCondFailReq | StoreCondResp
  | LockedRMWReadReq | LockedRMWReadResp | LockedRMWWriteReq | LockedRMWWriteResp | SwapReq | SwapResp
  | MemFenceReq | MemSyncReq | MemSyncResp | MemFenceResp | CleanSharedReq | CleanSharedResp
  | CleanInvalidReq | CleanInvalidResp | InvalidDestError | BadAddressError | ReadError | WriteError
  | FunctionalReadError | FunctionalWriteError | PrintReq | FlushReq | InvalidateReq | InvalidateResp
  | HTMReq | HTMReqResp | HTMAbort | TlbiExtSync

datatype attribute =
    IsRead | IsWrite | IsUpgrade | IsInvalidate | IsClean | NeedsWritable | IsRequest
  | IsResponse | NeedsResponse | IsEviction | IsSWPrefetch | IsHWPrefetch | IsLlsc | IsLockedRMW
  | HasData | IsError | IsPrint | IsFlush | FromCache

fun cmd_index :: "command \<Rightarrow> nat" where
  "cmd_index InvalidCmd = 0"
| "cmd_index ReadReq = 1"
| "cmd_index ReadResp = 2"
| "cmd_index ReadRespWithInvalidate = 3"
| "cmd_index WriteReq = 4"
| "cmd_index WriteResp = 5"
| "cmd_index WriteCompleteResp = 6"
| "cmd_index WritebackDirty = 7"
| "cmd_index WritebackClean = 8"
| "cmd_index WriteClean = 9"
| "cmd_index CleanEvict = 10"
| "cmd_index SoftPFReq = 11"
| "cmd_index SoftPFExReq = 12"
| "cmd_index HardPFReq = 13"
| "cmd_index SoftPFResp = 14"
| "cmd_index HardPFResp = 15"
| "cmd_index WriteLineReq = 16"
| "cmd_index UpgradeReq = 17"
| "cmd_index SCUpgradeReq = 18"
| "cmd_index UpgradeResp = 19"
| "cmd_index SCUpgradeFailReq = 20"
| "cmd_index UpgradeFailResp = 21"
| "cmd_index ReadExReq = 22"
| "cmd_index ReadExResp = 23"
| "cmd_index ReadCleanReq = 24"
| "cmd_index ReadSharedReq = 25"
| "cmd_index LoadLockedReq = 26"
| "cmd_index StoreCondReq = 27"
| "cmd_index StoreCondFailReq = 28"
| "cmd_index StoreCondResp = 29"
| "cmd_index LockedRMWReadReq = 30"
| "cmd_index LockedRMWReadResp = 31"
| "cmd_index LockedRMWWriteReq = 32"
| "cmd_index LockedRMWWriteResp = 33"
| "cmd_index SwapReq = 34"
| "cmd_index SwapResp = 35"
| "cmd_index MemFenceReq = 38"
| "cmd_index MemSyncReq = 39"
| "cmd_index MemSyncResp = 40"
| "cmd_index MemFenceResp = 41"
| "cmd_index CleanSharedReq = 42"
| "cmd_index CleanSharedResp = 43"
| "cmd_index CleanInvalidReq = 44"
| "cmd_index CleanInvalidResp = 45"
| "cmd_index InvalidDestError = 46"
| "cmd_index BadAddressError = 47"
| "cmd_index ReadError = 48"
| "cmd_index WriteError = 49"
| "cmd_index FunctionalReadError = 50"
| "cmd_index FunctionalWriteError = 51"
| "cmd_index PrintReq = 52"
| "cmd_index FlushReq = 53"
| "cmd_index InvalidateReq = 54"
| "cmd_index InvalidateResp = 55"
| "cmd_index HTMReq = 56"
| "cmd_index HTMReqResp = 57"
| "cmd_index HTMAbort = 58"
| "cmd_index TlbiExtSync = 59"

record command_info =
  attributes :: "attribute list"
  response :: command
  str :: string

definition commandInfo :: "command_info list" where
  "commandInfo = [
    \<lparr>attributes = [], response = InvalidCmd, str = ''InvalidCmd''\<rparr>,
    \<lparr>attributes = [IsRead, IsRequest, NeedsResponse], response = ReadResp, str = ''ReadReq''\<rparr>,
    \<lparr>attributes = [IsRead, IsResponse, HasData], response = InvalidCmd, str = ''ReadResp''\<rparr>,
    \<lparr>attributes = [IsRead, IsResponse, HasData, IsInvalidate], response = InvalidCmd, str = ''ReadRespWithInvalidate''\<rparr>,
    \<lparr>attributes = [IsWrite, NeedsWritable, IsRequest, NeedsResponse, HasData], response = WriteResp, str = ''WriteReq''\<rparr>,
    \<lparr>attributes = [IsWrite, IsResponse], response = InvalidCmd, str = ''WriteResp''\<rparr>,
    \<lparr>attributes = [IsWrite, IsResponse], response = InvalidCmd, str = ''WriteCompleteResp''\<rparr>,
    \<lparr>attributes = [IsWrite, IsRequest, IsEviction, HasData, FromCache], response = InvalidCmd, str = ''WritebackDirty''\<rparr>,
    \<lparr>attributes = [IsWrite, IsRequest, IsEviction, HasData, FromCache], response = InvalidCmd, str = ''WritebackClean''\<rparr>,
    \<lparr>attributes = [IsWrite, IsRequest, HasData, FromCache], response = InvalidCmd, str = ''WriteClean''\<rparr>,
    \<lparr>attributes = [IsRequest, IsEviction, FromCache], response = InvalidCmd, str = ''CleanEvict''\<rparr>,
    \<lparr>attributes = [IsRead, IsRequest, IsSWPrefetch, NeedsResponse], response = SoftPFResp, str = ''SoftPFReq''\<rparr>,
    \<lparr>attributes = [IsRead, NeedsWritable, IsInvalidate, IsRequest, IsSWPrefetch, NeedsResponse], response = SoftPFResp, str = ''SoftPFExReq''\<rparr>,
    \<lparr>attributes = [IsRead, IsRequest, IsHWPrefetch, NeedsResponse, FromCache], response = HardPFResp, str = ''HardPFReq''\<rparr>,
    \<lparr>attributes = [IsRead, IsResponse, IsSWPrefetch, HasData], response = InvalidCmd, str = ''SoftPFResp''\<rparr>,
    \<lparr>attributes = [IsRead, IsResponse, IsHWPrefetch, HasData], response = InvalidCmd, str = ''HardPFResp''\<rparr>,
    \<lparr>attributes = [IsWrite, NeedsWritable, IsRequest, NeedsResponse, HasData], response = WriteResp, str = ''WriteLineReq''\<rparr>,
    \<lparr>attributes = [IsInvalidate, NeedsWritable, IsUpgrade, IsRequest, NeedsResponse, FromCache], response = UpgradeResp, str = ''UpgradeReq''\<rparr>,
    \<lparr>attributes = [IsInvalidate, NeedsWritable, IsUpgrade, IsLlsc, IsRequest, NeedsResponse, FromCache], response = UpgradeResp, str = ''SCUpgradeReq''\<rparr>,
    \<lparr>attributes = [IsUpgrade, IsResponse], response = InvalidCmd, str = ''UpgradeResp''\<rparr>,
    \<lparr>attributes = [IsRead, NeedsWritable, IsInvalidate, IsLlsc, IsRequest, NeedsResponse, FromCache], response = UpgradeFailResp, str = ''SCUpgradeFailReq''\<rparr>,
    \<lparr>attributes = [IsRead, IsResponse, HasData], response = InvalidCmd, str = ''UpgradeFailResp''\<rparr>,
    \<lparr>attributes = [IsRead, NeedsWritable, IsInvalidate, IsRequest, NeedsResponse, FromCache], response = ReadExResp, str = ''ReadExReq''\<rparr>,
    \<lparr>attributes = [IsRead, IsResponse, HasData], response = InvalidCmd, str = ''ReadExResp''\<rparr>,
    \<lparr>attributes = [IsRead, IsRequest, NeedsResponse, FromCache], response = ReadResp, str = ''ReadCleanReq''\<rparr>,
    \<lparr>attributes = [IsRead, IsRequest, NeedsResponse, FromCache], response = ReadResp, str = ''ReadSharedReq''\<rparr>,
    \<lparr>attributes = [IsRead, IsLlsc, IsRequest, NeedsResponse], response = ReadResp, str = ''LoadLockedReq''\<rparr>,
    \<lparr>attributes = [IsWrite, NeedsWritable, IsLlsc, IsRequest, NeedsResponse, HasData], response = StoreCondResp, str = ''StoreCondReq''\<rparr>,
    \<lparr>attributes = [IsWrite, NeedsWritable, IsLlsc, IsRequest, NeedsResponse, HasData], response = StoreCondResp, str = ''StoreCondFailReq''\<rparr>,
    \<lparr>attributes = [IsWrite, IsLlsc, IsResponse], response = InvalidCmd, str = ''StoreCondResp''\<rparr>,
    \<lparr>attributes = [IsRead, IsLockedRMW, NeedsWritable, IsRequest, NeedsResponse], response = LockedRMWReadResp, str = ''LockedRMWReadReq''\<rparr>,
    \<lparr>attributes = [IsRead, IsLockedRMW, NeedsWritable, IsResponse, HasData], response = InvalidCmd, str = ''LockedRMWReadResp''\<rparr>,
    \<lparr>attributes = [IsWrite, IsLockedRMW, NeedsWritable, IsRequest, NeedsResponse, HasData], response = LockedRMWWriteResp, str = ''LockedRMWWriteReq''\<rparr>,
    \<lparr>attributes = [IsWrite, IsLockedRMW, NeedsWritable, IsResponse], response = InvalidCmd, str = ''LockedRMWWriteResp''\<rparr>,
    \<lparr>attributes = [IsRead, IsWrite, NeedsWritable, IsRequest, HasData, NeedsResponse], response = SwapResp, str = ''SwapReq''\<rparr>,
    \<lparr>attributes = [IsRead, IsWrite, IsResponse, HasData], response = InvalidCmd, str = ''SwapResp''\<rparr>,
    \<lparr>attributes = [], response = InvalidCmd, str = ''Deprecated_MessageReq''\<rparr>,
    \<lparr>attributes = [], response = InvalidCmd, str = ''Deprecated_MessageResp''\<rparr>,
    \<lparr>attributes = [IsRequest, NeedsResponse], response = MemFenceResp, str = ''MemFenceReq''\<rparr>,
    \<lparr>attributes = [IsRequest, NeedsResponse], response = MemSyncResp, str = ''MemSyncReq''\<rparr>,
    \<lparr>attributes = [IsResponse], response = InvalidCmd, str = ''MemSyncResp''\<rparr>,
    \<lparr>attributes = [IsResponse], response = InvalidCmd, str = ''MemFenceResp''\<rparr>,
    \<lparr>attributes = [IsRequest, IsClean, NeedsResponse, FromCache], response = CleanSharedResp, str = ''CleanSharedReq''\<rparr>,
    \<lparr>attributes = [IsResponse, IsClean], response = InvalidCmd, str = ''CleanSharedResp''\<rparr>,
    \<lparr>attributes = [IsRequest, IsInvalidate, IsClean, NeedsResponse, FromCache], response = CleanInvalidResp, str = ''CleanInvalidReq''\<rparr>,
    \<lparr>attributes = [IsResponse, IsInvalidate, IsClean], response = InvalidCmd, str = ''CleanInvalidResp''\<rparr>,
    \<lparr>attributes = [IsResponse, IsError], response = InvalidCmd, str = ''InvalidDestError''\<rparr>,
    \<lparr>attributes = [IsResponse, IsError], response = InvalidCmd, str = ''BadAddressError''\<rparr>,
    \<lparr>attributes = [IsRead, IsResponse, IsError], response = InvalidCmd, str = ''ReadError''\<rparr>,
    \<lparr>attributes = [IsWrite, IsResponse, IsError], response = InvalidCmd, str = ''WriteError''\<rparr>,
    \<lparr>attributes = [IsRead, IsResponse, IsError], response = InvalidCmd, str = ''FunctionalReadError''\<rparr>,
    \<lparr>attributes = [IsWrite, IsResponse, IsError], response = InvalidCmd, str = ''FunctionalWriteError''\<rparr>,
    \<lparr>attributes = [IsRequest, IsPrint], response = InvalidCmd, str = ''PrintReq''\<rparr>,
    \<lparr>attributes = [IsRequest, IsFlush, NeedsWritable], response = InvalidCmd, str = ''FlushReq''\<rparr>,
    \<lparr>attributes = [IsInvalidate, IsRequest, NeedsWritable, NeedsResponse, FromCache], response = InvalidateResp, str = ''InvalidateReq''\<rparr>,
    \<lparr>attributes = [IsInvalidate, IsResponse], response = InvalidCmd, str = ''InvalidateResp''\<rparr>,
    \<lparr>attributes = [IsRead, IsRequest, NeedsResponse], response = HTMReqResp, str = ''HTMReq''\<rparr>,
    \<lparr>attributes = [IsRead, IsResponse], response = InvalidCmd, str = ''HTMReqResp''\<rparr>,
    \<lparr>attributes = [IsRead, IsRequest], response = InvalidCmd, str = ''HTMAbort''\<rparr>,
    \<lparr>attributes = [IsRequest], response = InvalidCmd, str = ''TlbiExtSync''\<rparr>]"

definition testCmdAttrib :: "command \<Rightarrow> attribute \<Rightarrow> bool" where
  "testCmdAttrib c attrib \<longleftrightarrow> attrib \<in> set (attributes (commandInfo ! cmd_index c))"

definition isRead :: "command \<Rightarrow> bool" where
  "isRead c \<longleftrightarrow> testCmdAttrib c IsRead"

definition isWrite :: "command \<Rightarrow> bool" where
  "isWrite c \<longleftrightarrow> testCmdAttrib c IsWrite"

definition isUpgrade :: "command \<Rightarrow> bool" where
  "isUpgrade c \<longleftrightarrow> testCmdAttrib c IsUpgrade"

definition isRequest :: "command \<Rightarrow> bool" where
  "isRequest c \<longleftrightarrow> testCmdAttrib c IsRequest"

definition isResponse :: "command \<Rightarrow> bool" where
  "isResponse c \<longleftrightarrow> testCmdAttrib c IsResponse"

definition needsWritable :: "command \<Rightarrow> bool" where
  "needsWritable c \<longleftrightarrow> testCmdAttrib c NeedsWritable"

definition needsResponse :: "command \<Rightarrow> bool" where
  "needsResponse c \<longleftrightarrow> testCmdAttrib c NeedsResponse"

definition isInvalidate :: "command \<Rightarrow> bool" where
  "isInvalidate c \<longleftrightarrow> testCmdAttrib c IsInvalidate"

definition isEviction :: "command \<Rightarrow> bool" where
  "isEviction c \<longleftrightarrow> testCmdAttrib c IsEviction"

definition isClean :: "command \<Rightarrow> bool" where
  "isClean c \<longleftrightarrow> testCmdAttrib c IsClean"

definition fromCache :: "command \<Rightarrow> bool" where
  "fromCache c \<longleftrightarrow> testCmdAttrib c FromCache"

definition hasData :: "command \<Rightarrow> bool" where
  "hasData c \<longleftrightarrow> testCmdAttrib c HasData"

definition isLLSC :: "command \<Rightarrow> bool" where
  "isLLSC c \<longleftrightarrow> testCmdAttrib c IsLlsc"

definition isLockedRMW :: "command \<Rightarrow> bool" where
  "isLockedRMW c \<longleftrightarrow> testCmdAttrib c IsLockedRMW"

definition isSWPrefetch :: "command \<Rightarrow> bool" where
  "isSWPrefetch c \<longleftrightarrow> testCmdAttrib c IsSWPrefetch"

definition isHWPrefetch :: "command \<Rightarrow> bool" where
  "isHWPrefetch c \<longleftrightarrow> testCmdAttrib c IsHWPrefetch"

definition isError :: "command \<Rightarrow> bool" where
  "isError c \<longleftrightarrow> testCmdAttrib c IsError"

definition isPrint :: "command \<Rightarrow> bool" where
  "isPrint c \<longleftrightarrow> testCmdAttrib c IsPrint"

definition isFlush :: "command \<Rightarrow> bool" where
  "isFlush c \<longleftrightarrow> testCmdAttrib c IsFlush"

definition isWriteback :: "command \<Rightarrow> bool" where
  "isWriteback c \<longleftrightarrow> testCmdAttrib c IsEviction \<and> testCmdAttrib c HasData"

definition isPrefetch :: "command \<Rightarrow> bool" where
  "isPrefetch c \<longleftrightarrow> testCmdAttrib c IsSWPrefetch \<or> testCmdAttrib c IsHWPrefetch"

definition isDemand :: "command \<Rightarrow> bool" where
  "isDemand c \<longleftrightarrow> c = ReadReq \<or> c = WriteReq \<or> c = WriteLineReq \<or> c = ReadExReq \<or> c = ReadCleanReq \<or> c = ReadSharedReq"

definition responseCommand :: "command \<Rightarrow> command" where
  "responseCommand c = response (commandInfo ! cmd_index c)"

text \<open>The identifiers of the enumerators, for the comparison with the strings of the table.\<close>

fun cmd_name :: "command \<Rightarrow> string" where
  "cmd_name InvalidCmd = ''InvalidCmd''"
| "cmd_name ReadReq = ''ReadReq''"
| "cmd_name ReadResp = ''ReadResp''"
| "cmd_name ReadRespWithInvalidate = ''ReadRespWithInvalidate''"
| "cmd_name WriteReq = ''WriteReq''"
| "cmd_name WriteResp = ''WriteResp''"
| "cmd_name WriteCompleteResp = ''WriteCompleteResp''"
| "cmd_name WritebackDirty = ''WritebackDirty''"
| "cmd_name WritebackClean = ''WritebackClean''"
| "cmd_name WriteClean = ''WriteClean''"
| "cmd_name CleanEvict = ''CleanEvict''"
| "cmd_name SoftPFReq = ''SoftPFReq''"
| "cmd_name SoftPFExReq = ''SoftPFExReq''"
| "cmd_name HardPFReq = ''HardPFReq''"
| "cmd_name SoftPFResp = ''SoftPFResp''"
| "cmd_name HardPFResp = ''HardPFResp''"
| "cmd_name WriteLineReq = ''WriteLineReq''"
| "cmd_name UpgradeReq = ''UpgradeReq''"
| "cmd_name SCUpgradeReq = ''SCUpgradeReq''"
| "cmd_name UpgradeResp = ''UpgradeResp''"
| "cmd_name SCUpgradeFailReq = ''SCUpgradeFailReq''"
| "cmd_name UpgradeFailResp = ''UpgradeFailResp''"
| "cmd_name ReadExReq = ''ReadExReq''"
| "cmd_name ReadExResp = ''ReadExResp''"
| "cmd_name ReadCleanReq = ''ReadCleanReq''"
| "cmd_name ReadSharedReq = ''ReadSharedReq''"
| "cmd_name LoadLockedReq = ''LoadLockedReq''"
| "cmd_name StoreCondReq = ''StoreCondReq''"
| "cmd_name StoreCondFailReq = ''StoreCondFailReq''"
| "cmd_name StoreCondResp = ''StoreCondResp''"
| "cmd_name LockedRMWReadReq = ''LockedRMWReadReq''"
| "cmd_name LockedRMWReadResp = ''LockedRMWReadResp''"
| "cmd_name LockedRMWWriteReq = ''LockedRMWWriteReq''"
| "cmd_name LockedRMWWriteResp = ''LockedRMWWriteResp''"
| "cmd_name SwapReq = ''SwapReq''"
| "cmd_name SwapResp = ''SwapResp''"
| "cmd_name MemFenceReq = ''MemFenceReq''"
| "cmd_name MemSyncReq = ''MemSyncReq''"
| "cmd_name MemSyncResp = ''MemSyncResp''"
| "cmd_name MemFenceResp = ''MemFenceResp''"
| "cmd_name CleanSharedReq = ''CleanSharedReq''"
| "cmd_name CleanSharedResp = ''CleanSharedResp''"
| "cmd_name CleanInvalidReq = ''CleanInvalidReq''"
| "cmd_name CleanInvalidResp = ''CleanInvalidResp''"
| "cmd_name InvalidDestError = ''InvalidDestError''"
| "cmd_name BadAddressError = ''BadAddressError''"
| "cmd_name ReadError = ''ReadError''"
| "cmd_name WriteError = ''WriteError''"
| "cmd_name FunctionalReadError = ''FunctionalReadError''"
| "cmd_name FunctionalWriteError = ''FunctionalWriteError''"
| "cmd_name PrintReq = ''PrintReq''"
| "cmd_name FlushReq = ''FlushReq''"
| "cmd_name InvalidateReq = ''InvalidateReq''"
| "cmd_name InvalidateResp = ''InvalidateResp''"
| "cmd_name HTMReq = ''HTMReq''"
| "cmd_name HTMReqResp = ''HTMReqResp''"
| "cmd_name HTMAbort = ''HTMAbort''"
| "cmd_name TlbiExtSync = ''TlbiExtSync''"

section \<open>The table read command by command\<close>

text \<open>
  One evaluation of the array per command; everything below works with these equations.
\<close>

lemmas cmd_predicates = isRead_def isWrite_def isUpgrade_def isRequest_def isResponse_def needsWritable_def needsResponse_def isInvalidate_def isEviction_def isClean_def fromCache_def hasData_def isLLSC_def isLockedRMW_def isSWPrefetch_def isHWPrefetch_def isError_def isPrint_def isFlush_def isWriteback_def isPrefetch_def testCmdAttrib_def

lemma commandInfo_at [simp]:
  "commandInfo ! cmd_index InvalidCmd = \<lparr>attributes = [], response = InvalidCmd, str = ''InvalidCmd''\<rparr>"
  "commandInfo ! cmd_index ReadReq = \<lparr>attributes = [IsRead, IsRequest, NeedsResponse], response = ReadResp, str = ''ReadReq''\<rparr>"
  "commandInfo ! cmd_index ReadResp = \<lparr>attributes = [IsRead, IsResponse, HasData], response = InvalidCmd, str = ''ReadResp''\<rparr>"
  "commandInfo ! cmd_index ReadRespWithInvalidate = \<lparr>attributes = [IsRead, IsResponse, HasData, IsInvalidate], response = InvalidCmd, str = ''ReadRespWithInvalidate''\<rparr>"
  "commandInfo ! cmd_index WriteReq = \<lparr>attributes = [IsWrite, NeedsWritable, IsRequest, NeedsResponse, HasData], response = WriteResp, str = ''WriteReq''\<rparr>"
  "commandInfo ! cmd_index WriteResp = \<lparr>attributes = [IsWrite, IsResponse], response = InvalidCmd, str = ''WriteResp''\<rparr>"
  "commandInfo ! cmd_index WriteCompleteResp = \<lparr>attributes = [IsWrite, IsResponse], response = InvalidCmd, str = ''WriteCompleteResp''\<rparr>"
  "commandInfo ! cmd_index WritebackDirty = \<lparr>attributes = [IsWrite, IsRequest, IsEviction, HasData, FromCache], response = InvalidCmd, str = ''WritebackDirty''\<rparr>"
  "commandInfo ! cmd_index WritebackClean = \<lparr>attributes = [IsWrite, IsRequest, IsEviction, HasData, FromCache], response = InvalidCmd, str = ''WritebackClean''\<rparr>"
  "commandInfo ! cmd_index WriteClean = \<lparr>attributes = [IsWrite, IsRequest, HasData, FromCache], response = InvalidCmd, str = ''WriteClean''\<rparr>"
  "commandInfo ! cmd_index CleanEvict = \<lparr>attributes = [IsRequest, IsEviction, FromCache], response = InvalidCmd, str = ''CleanEvict''\<rparr>"
  "commandInfo ! cmd_index SoftPFReq = \<lparr>attributes = [IsRead, IsRequest, IsSWPrefetch, NeedsResponse], response = SoftPFResp, str = ''SoftPFReq''\<rparr>"
  "commandInfo ! cmd_index SoftPFExReq = \<lparr>attributes = [IsRead, NeedsWritable, IsInvalidate, IsRequest, IsSWPrefetch, NeedsResponse], response = SoftPFResp, str = ''SoftPFExReq''\<rparr>"
  "commandInfo ! cmd_index HardPFReq = \<lparr>attributes = [IsRead, IsRequest, IsHWPrefetch, NeedsResponse, FromCache], response = HardPFResp, str = ''HardPFReq''\<rparr>"
  "commandInfo ! cmd_index SoftPFResp = \<lparr>attributes = [IsRead, IsResponse, IsSWPrefetch, HasData], response = InvalidCmd, str = ''SoftPFResp''\<rparr>"
  "commandInfo ! cmd_index HardPFResp = \<lparr>attributes = [IsRead, IsResponse, IsHWPrefetch, HasData], response = InvalidCmd, str = ''HardPFResp''\<rparr>"
  "commandInfo ! cmd_index WriteLineReq = \<lparr>attributes = [IsWrite, NeedsWritable, IsRequest, NeedsResponse, HasData], response = WriteResp, str = ''WriteLineReq''\<rparr>"
  "commandInfo ! cmd_index UpgradeReq = \<lparr>attributes = [IsInvalidate, NeedsWritable, IsUpgrade, IsRequest, NeedsResponse, FromCache], response = UpgradeResp, str = ''UpgradeReq''\<rparr>"
  "commandInfo ! cmd_index SCUpgradeReq = \<lparr>attributes = [IsInvalidate, NeedsWritable, IsUpgrade, IsLlsc, IsRequest, NeedsResponse, FromCache], response = UpgradeResp, str = ''SCUpgradeReq''\<rparr>"
  "commandInfo ! cmd_index UpgradeResp = \<lparr>attributes = [IsUpgrade, IsResponse], response = InvalidCmd, str = ''UpgradeResp''\<rparr>"
  "commandInfo ! cmd_index SCUpgradeFailReq = \<lparr>attributes = [IsRead, NeedsWritable, IsInvalidate, IsLlsc, IsRequest, NeedsResponse, FromCache], response = UpgradeFailResp, str = ''SCUpgradeFailReq''\<rparr>"
  "commandInfo ! cmd_index UpgradeFailResp = \<lparr>attributes = [IsRead, IsResponse, HasData], response = InvalidCmd, str = ''UpgradeFailResp''\<rparr>"
  "commandInfo ! cmd_index ReadExReq = \<lparr>attributes = [IsRead, NeedsWritable, IsInvalidate, IsRequest, NeedsResponse, FromCache], response = ReadExResp, str = ''ReadExReq''\<rparr>"
  "commandInfo ! cmd_index ReadExResp = \<lparr>attributes = [IsRead, IsResponse, HasData], response = InvalidCmd, str = ''ReadExResp''\<rparr>"
  "commandInfo ! cmd_index ReadCleanReq = \<lparr>attributes = [IsRead, IsRequest, NeedsResponse, FromCache], response = ReadResp, str = ''ReadCleanReq''\<rparr>"
  "commandInfo ! cmd_index ReadSharedReq = \<lparr>attributes = [IsRead, IsRequest, NeedsResponse, FromCache], response = ReadResp, str = ''ReadSharedReq''\<rparr>"
  "commandInfo ! cmd_index LoadLockedReq = \<lparr>attributes = [IsRead, IsLlsc, IsRequest, NeedsResponse], response = ReadResp, str = ''LoadLockedReq''\<rparr>"
  "commandInfo ! cmd_index StoreCondReq = \<lparr>attributes = [IsWrite, NeedsWritable, IsLlsc, IsRequest, NeedsResponse, HasData], response = StoreCondResp, str = ''StoreCondReq''\<rparr>"
  "commandInfo ! cmd_index StoreCondFailReq = \<lparr>attributes = [IsWrite, NeedsWritable, IsLlsc, IsRequest, NeedsResponse, HasData], response = StoreCondResp, str = ''StoreCondFailReq''\<rparr>"
  "commandInfo ! cmd_index StoreCondResp = \<lparr>attributes = [IsWrite, IsLlsc, IsResponse], response = InvalidCmd, str = ''StoreCondResp''\<rparr>"
  "commandInfo ! cmd_index LockedRMWReadReq = \<lparr>attributes = [IsRead, IsLockedRMW, NeedsWritable, IsRequest, NeedsResponse], response = LockedRMWReadResp, str = ''LockedRMWReadReq''\<rparr>"
  "commandInfo ! cmd_index LockedRMWReadResp = \<lparr>attributes = [IsRead, IsLockedRMW, NeedsWritable, IsResponse, HasData], response = InvalidCmd, str = ''LockedRMWReadResp''\<rparr>"
  "commandInfo ! cmd_index LockedRMWWriteReq = \<lparr>attributes = [IsWrite, IsLockedRMW, NeedsWritable, IsRequest, NeedsResponse, HasData], response = LockedRMWWriteResp, str = ''LockedRMWWriteReq''\<rparr>"
  "commandInfo ! cmd_index LockedRMWWriteResp = \<lparr>attributes = [IsWrite, IsLockedRMW, NeedsWritable, IsResponse], response = InvalidCmd, str = ''LockedRMWWriteResp''\<rparr>"
  "commandInfo ! cmd_index SwapReq = \<lparr>attributes = [IsRead, IsWrite, NeedsWritable, IsRequest, HasData, NeedsResponse], response = SwapResp, str = ''SwapReq''\<rparr>"
  "commandInfo ! cmd_index SwapResp = \<lparr>attributes = [IsRead, IsWrite, IsResponse, HasData], response = InvalidCmd, str = ''SwapResp''\<rparr>"
  "commandInfo ! cmd_index MemFenceReq = \<lparr>attributes = [IsRequest, NeedsResponse], response = MemFenceResp, str = ''MemFenceReq''\<rparr>"
  "commandInfo ! cmd_index MemSyncReq = \<lparr>attributes = [IsRequest, NeedsResponse], response = MemSyncResp, str = ''MemSyncReq''\<rparr>"
  "commandInfo ! cmd_index MemSyncResp = \<lparr>attributes = [IsResponse], response = InvalidCmd, str = ''MemSyncResp''\<rparr>"
  "commandInfo ! cmd_index MemFenceResp = \<lparr>attributes = [IsResponse], response = InvalidCmd, str = ''MemFenceResp''\<rparr>"
  "commandInfo ! cmd_index CleanSharedReq = \<lparr>attributes = [IsRequest, IsClean, NeedsResponse, FromCache], response = CleanSharedResp, str = ''CleanSharedReq''\<rparr>"
  "commandInfo ! cmd_index CleanSharedResp = \<lparr>attributes = [IsResponse, IsClean], response = InvalidCmd, str = ''CleanSharedResp''\<rparr>"
  "commandInfo ! cmd_index CleanInvalidReq = \<lparr>attributes = [IsRequest, IsInvalidate, IsClean, NeedsResponse, FromCache], response = CleanInvalidResp, str = ''CleanInvalidReq''\<rparr>"
  "commandInfo ! cmd_index CleanInvalidResp = \<lparr>attributes = [IsResponse, IsInvalidate, IsClean], response = InvalidCmd, str = ''CleanInvalidResp''\<rparr>"
  "commandInfo ! cmd_index InvalidDestError = \<lparr>attributes = [IsResponse, IsError], response = InvalidCmd, str = ''InvalidDestError''\<rparr>"
  "commandInfo ! cmd_index BadAddressError = \<lparr>attributes = [IsResponse, IsError], response = InvalidCmd, str = ''BadAddressError''\<rparr>"
  "commandInfo ! cmd_index ReadError = \<lparr>attributes = [IsRead, IsResponse, IsError], response = InvalidCmd, str = ''ReadError''\<rparr>"
  "commandInfo ! cmd_index WriteError = \<lparr>attributes = [IsWrite, IsResponse, IsError], response = InvalidCmd, str = ''WriteError''\<rparr>"
  "commandInfo ! cmd_index FunctionalReadError = \<lparr>attributes = [IsRead, IsResponse, IsError], response = InvalidCmd, str = ''FunctionalReadError''\<rparr>"
  "commandInfo ! cmd_index FunctionalWriteError = \<lparr>attributes = [IsWrite, IsResponse, IsError], response = InvalidCmd, str = ''FunctionalWriteError''\<rparr>"
  "commandInfo ! cmd_index PrintReq = \<lparr>attributes = [IsRequest, IsPrint], response = InvalidCmd, str = ''PrintReq''\<rparr>"
  "commandInfo ! cmd_index FlushReq = \<lparr>attributes = [IsRequest, IsFlush, NeedsWritable], response = InvalidCmd, str = ''FlushReq''\<rparr>"
  "commandInfo ! cmd_index InvalidateReq = \<lparr>attributes = [IsInvalidate, IsRequest, NeedsWritable, NeedsResponse, FromCache], response = InvalidateResp, str = ''InvalidateReq''\<rparr>"
  "commandInfo ! cmd_index InvalidateResp = \<lparr>attributes = [IsInvalidate, IsResponse], response = InvalidCmd, str = ''InvalidateResp''\<rparr>"
  "commandInfo ! cmd_index HTMReq = \<lparr>attributes = [IsRead, IsRequest, NeedsResponse], response = HTMReqResp, str = ''HTMReq''\<rparr>"
  "commandInfo ! cmd_index HTMReqResp = \<lparr>attributes = [IsRead, IsResponse], response = InvalidCmd, str = ''HTMReqResp''\<rparr>"
  "commandInfo ! cmd_index HTMAbort = \<lparr>attributes = [IsRead, IsRequest], response = InvalidCmd, str = ''HTMAbort''\<rparr>"
  "commandInfo ! cmd_index TlbiExtSync = \<lparr>attributes = [IsRequest], response = InvalidCmd, str = ''TlbiExtSync''\<rparr>"
  by (simp_all add: commandInfo_def)

declare cmd_index.simps [simp del]

lemma cmd_table_aligned: "str (commandInfo ! cmd_index c) = cmd_name c"
  by (cases c) simp_all

lemma cmd_protocol:
  "needsResponse c \<longleftrightarrow> responseCommand c \<noteq> InvalidCmd"
  "needsResponse c \<Longrightarrow> isRequest c \<and> isResponse (responseCommand c) \<and> \<not> needsResponse (responseCommand c)"
  "c \<noteq> InvalidCmd \<Longrightarrow> isRequest c \<noteq> isResponse c"
  "isWrite c \<Longrightarrow> isRequest c \<Longrightarrow> hasData c"
  "isRead c \<Longrightarrow> needsResponse c \<Longrightarrow> c \<noteq> HTMReq \<Longrightarrow> hasData (responseCommand c)"
  "needsResponse c \<Longrightarrow> \<not> isLLSC c \<Longrightarrow> isRead (responseCommand c) = isRead c \<and> isWrite (responseCommand c) = isWrite c"
  by (cases c; simp add: cmd_predicates responseCommand_def)+

lemma isRead_not_print: "isRead c \<Longrightarrow> \<not> isPrint c" "isRead c \<Longrightarrow> c \<noteq> WriteReq"
  by (cases c; simp add: cmd_predicates)+

section \<open>Properties\<close>

text \<open>
  The command table is aligned with the enumeration, and it implements the request/response
  protocol: a command needs a response exactly when it names a response command, that command is a
  response that needs none itself, every command but the invalid one is either a request or a
  response, write requests carry data, and reads that need a response name one that carries data
  (the HTM command apart).
\<close>

lemma command_protocol:
  "str (commandInfo ! cmd_index c) = cmd_name c \<and>
   (needsResponse c \<longleftrightarrow> responseCommand c \<noteq> InvalidCmd) \<and>
   (needsResponse c \<longrightarrow> isRequest c \<and> isResponse (responseCommand c) \<and> \<not> needsResponse (responseCommand c)) \<and>
   (c \<noteq> InvalidCmd \<longrightarrow> isRequest c \<noteq> isResponse c) \<and> (isWrite c \<longrightarrow> isRequest c \<longrightarrow> hasData c) \<and>
   (isRead c \<longrightarrow> needsResponse c \<longrightarrow> c \<noteq> HTMReq \<longrightarrow> hasData (responseCommand c))"
  using cmd_protocol cmd_table_aligned by blast

lemma command_protocol_witness: "needsResponse WriteReq \<and> isResponse (responseCommand WriteReq) \<and> hasData WriteReq"
proof -
  have "needsResponse WriteReq" "isWrite WriteReq" by (simp_all add: cmd_predicates)
  then show ?thesis using command_protocol [of WriteReq] by blast
qed

end
