(* ===== verification/Packet.thy ===== *)
theory Packet
  imports Addr_Range Request Mem_Cmd
begin

text \<open>
  Model of class \<^verbatim>\<open>Packet\<close> (\<^verbatim>\<open>src/gem5/src/mem/packet.hh\<close>, \<^verbatim>\<open>mem/packet.cc\<close> and
  \<^verbatim>\<open>mem/packet_access.hh\<close>): the unit that moves through the memory system, with its command, flags,
  payload, requester ids for PCI Express and the sender states pushed on its way.  The payload is
  a list of bytes held by value (\<^verbatim>\<open>None\<close> is the null pointer); every accessor keeps the assertion
  it makes.  A copy beyond a buffer is undefined behaviour.
\<close>

section \<open>State\<close>

abbreviation (input) P_COPY_FLAGS :: u32 where "P_COPY_FLAGS \<equiv> 0x000000FF"
abbreviation (input) P_RESPONDER_FLAGS :: u32 where "P_RESPONDER_FLAGS \<equiv> 0x00000009"
abbreviation (input) P_EXPRESS_SNOOP :: u32 where "P_EXPRESS_SNOOP \<equiv> 0x00000002"
abbreviation (input) P_RESPONDER_HAD_WRITABLE :: u32 where "P_RESPONDER_HAD_WRITABLE \<equiv> 0x00000004"
abbreviation (input) P_CACHE_RESPONDING :: u32 where "P_CACHE_RESPONDING \<equiv> 0x00000008"
abbreviation (input) P_WRITE_THROUGH :: u32 where "P_WRITE_THROUGH \<equiv> 0x00000010"
abbreviation (input) P_SATISFIED :: u32 where "P_SATISFIED \<equiv> 0x00000020"
abbreviation (input) P_FAILS_TRANSACTION :: u32 where "P_FAILS_TRANSACTION \<equiv> 0x00000040"
abbreviation (input) P_FROM_TRANSACTION :: u32 where "P_FROM_TRANSACTION \<equiv> 0x00000080"
abbreviation (input) P_VALID_ADDR :: u32 where "P_VALID_ADDR \<equiv> 0x00000100"
abbreviation (input) P_VALID_SIZE :: u32 where "P_VALID_SIZE \<equiv> 0x00000200"
abbreviation (input) P_STATIC_DATA :: u32 where "P_STATIC_DATA \<equiv> 0x00001000"
abbreviation (input) P_DYNAMIC_DATA :: u32 where "P_DYNAMIC_DATA \<equiv> 0x00002000"

datatype htm_cache_failure = NO_FAIL | FAIL_SELF | FAIL_REMOTE | FAIL_OTHER

datatype byte_order = BigEndian | LittleEndian

record packet =
  p_flags :: u32
  p_cmd :: command
  p_req :: request
  p_data :: "u8 list option"
  p_addr :: addr
  p_isSecure :: bool
  p_size :: u32
  bytesValid :: "bool list"
  qosValue :: u8
  htmReturnReason :: htm_cache_failure
  htmTransactionUid :: u64
  req_bus :: "int list"
  req_dev :: "int list"
  req_func :: "int list"
  is_posted :: bool
  headerDelay :: u32
  snoopDelay :: u32
  payloadDelay :: u32
  senderState :: "nat list"

section \<open>Commands and flags\<close>

definition hasRespData :: "packet \<Rightarrow> bool" where
  "hasRespData p \<longleftrightarrow> hasData (responseCommand (p_cmd p))"

definition pkt_needsWritable :: "packet \<Rightarrow> bool res" where
  "pkt_needsWritable p = sbind (sassert (isRequest (p_cmd p))) (\<lambda>_. Inr (needsWritable (p_cmd p)))"

definition cacheResponding :: "packet \<Rightarrow> bool" where
  "cacheResponding p \<longleftrightarrow> isSet (p_flags p) P_CACHE_RESPONDING"

definition setCacheResponding :: "packet \<Rightarrow> packet res" where
  "setCacheResponding p =
     sbind (sassert (isRequest (p_cmd p))) (\<lambda>_.
     sbind (sassert (\<not> isSet (p_flags p) P_CACHE_RESPONDING)) (\<lambda>_.
     Inr (p\<lparr>p_flags := setFlags (p_flags p) P_CACHE_RESPONDING\<rparr>)))"

definition responderHadWritable :: "packet \<Rightarrow> bool" where
  "responderHadWritable p \<longleftrightarrow> isSet (p_flags p) P_RESPONDER_HAD_WRITABLE"

definition setResponderHadWritable :: "packet \<Rightarrow> packet res" where
  "setResponderHadWritable p =
     sbind (sassert (cacheResponding p)) (\<lambda>_.
     sbind (sassert (\<not> responderHadWritable p)) (\<lambda>_.
     Inr (p\<lparr>p_flags := setFlags (p_flags p) P_RESPONDER_HAD_WRITABLE\<rparr>)))"

definition copyResponderFlags :: "packet \<Rightarrow> packet \<Rightarrow> packet res" where
  "copyResponderFlags p pkt =
     sbind (sassert (isRequest (p_cmd p))) (\<lambda>_.
     sbind (sassert (\<not> cacheResponding pkt \<or> \<not> cacheResponding p)) (\<lambda>_.
     Inr (p\<lparr>p_flags := setFlags (p_flags p) (p_flags pkt AND P_RESPONDER_FLAGS)\<rparr>)))"

definition setWriteThrough :: "packet \<Rightarrow> packet res" where
  "setWriteThrough p =
     sbind (sassert (isWrite (p_cmd p) \<and> (isEviction (p_cmd p) \<or> p_cmd p = WriteClean))) (\<lambda>_.
     Inr (p\<lparr>p_flags := setFlags (p_flags p) P_WRITE_THROUGH\<rparr>))"

definition setSatisfied :: "packet \<Rightarrow> packet res" where
  "setSatisfied p =
     sbind (sassert (isClean (p_cmd p))) (\<lambda>_.
     sbind (sassert (\<not> isSet (p_flags p) P_SATISFIED)) (\<lambda>_.
     Inr (p\<lparr>p_flags := setFlags (p_flags p) P_SATISFIED\<rparr>)))"

definition setBadAddress :: "packet \<Rightarrow> packet res" where
  "setBadAddress p = sbind (sassert (isResponse (p_cmd p))) (\<lambda>_. Inr (p\<lparr>p_cmd := BadAddressError\<rparr>))"

definition setBadCommand :: "packet \<Rightarrow> packet res" where
  "setBadCommand p = sbind (sassert (isResponse (p_cmd p))) (\<lambda>_.
     Inr (if isWrite (p_cmd p) then p\<lparr>p_cmd := WriteError\<rparr> else p\<lparr>p_cmd := ReadError\<rparr>))"

definition copyError :: "packet \<Rightarrow> packet \<Rightarrow> packet res" where
  "copyError p pkt = sbind (sassert (isError (p_cmd pkt))) (\<lambda>_. Inr (p\<lparr>p_cmd := p_cmd pkt\<rparr>))"

section \<open>Address and size\<close>

definition getAddr :: "packet \<Rightarrow> addr res" where
  "getAddr p = sbind (sassert (isSet (p_flags p) P_VALID_ADDR)) (\<lambda>_. Inr (p_addr p))"

definition setAddr :: "addr \<Rightarrow> packet \<Rightarrow> packet res" where
  "setAddr a p = sbind (sassert (isSet (p_flags p) P_VALID_ADDR)) (\<lambda>_. Inr (p\<lparr>p_addr := a\<rparr>))"

definition getSize :: "packet \<Rightarrow> u32 res" where
  "getSize p = sbind (sassert (isSet (p_flags p) P_VALID_SIZE)) (\<lambda>_. Inr (p_size p))"

definition pkt_setSize :: "u32 \<Rightarrow> packet \<Rightarrow> packet res" where
  "pkt_setSize sz p = sbind (sassert (\<not> isSet (p_flags p) P_VALID_SIZE)) (\<lambda>_.
     Inr (p\<lparr>p_size := sz, p_flags := setFlags (p_flags p) P_VALID_SIZE\<rparr>))"

definition getAddrRange :: "packet \<Rightarrow> addr_range res" where
  "getAddrRange p = sbind (getAddr p) (\<lambda>a. sbind (getSize p) (\<lambda>sz. Inr (RangeSize a (ucast sz))))"

definition pkt_getOffset :: "u32 \<Rightarrow> packet \<Rightarrow> addr res" where
  "pkt_getOffset blk_size p = sbind (getAddr p) (\<lambda>a. Inr (a AND ucast (blk_size - 1)))"

definition getBlockAddr :: "u32 \<Rightarrow> packet \<Rightarrow> addr res" where
  "getBlockAddr blk_size p = sbind (getAddr p) (\<lambda>a. Inr (a AND NOT (ucast (blk_size - 1))))"

definition pkt_isSecure :: "packet \<Rightarrow> bool res" where
  "pkt_isSecure p = sbind (sassert (isSet (p_flags p) P_VALID_ADDR)) (\<lambda>_. Inr (p_isSecure p))"

definition matchBlockAddr :: "addr \<Rightarrow> bool \<Rightarrow> u32 \<Rightarrow> packet \<Rightarrow> bool res" where
  "matchBlockAddr a is_secure blk_size p =
     sbind (getBlockAddr blk_size p) (\<lambda>b. sbind (pkt_isSecure p) (\<lambda>s. Inr (b = a \<and> s = is_secure)))"

definition matchAddr :: "addr \<Rightarrow> bool \<Rightarrow> packet \<Rightarrow> bool res" where
  "matchAddr a is_secure p = sbind (getAddr p) (\<lambda>b. sbind (pkt_isSecure p) (\<lambda>s. Inr (b = a \<and> s = is_secure)))"

definition isMaskedWrite :: "packet \<Rightarrow> bool" where
  "isMaskedWrite p \<longleftrightarrow> p_cmd p = WriteReq \<and> isMasked (p_req p)"

definition isWholeLineWrite :: "u32 \<Rightarrow> packet \<Rightarrow> bool res" where
  "isWholeLineWrite blk_size p =
     (if p_cmd p = WriteReq \<or> p_cmd p = WriteLineReq then
        sbind (pkt_getOffset blk_size p) (\<lambda>off.
        sbind (getSize p) (\<lambda>sz. Inr (off = 0 \<and> sz = blk_size \<and> \<not> isMaskedWrite p)))
      else Inr False)"

definition mustCheckAbove :: "packet \<Rightarrow> bool" where
  "mustCheckAbove p \<longleftrightarrow> p_cmd p = HardPFReq \<or> isEviction (p_cmd p)"

definition isCleanEviction :: "packet \<Rightarrow> bool" where
  "isCleanEviction p \<longleftrightarrow> p_cmd p = CleanEvict \<or> p_cmd p = WritebackClean"

definition convertScToWrite :: "packet \<Rightarrow> packet res" where
  "convertScToWrite p =
     sbind (sassert (isLLSC (p_cmd p))) (\<lambda>_. sbind (sassert (isWrite (p_cmd p))) (\<lambda>_. Inr (p\<lparr>p_cmd := WriteReq\<rparr>)))"

definition convertLlToRead :: "packet \<Rightarrow> packet res" where
  "convertLlToRead p =
     sbind (sassert (isLLSC (p_cmd p))) (\<lambda>_. sbind (sassert (isRead (p_cmd p))) (\<lambda>_. Inr (p\<lparr>p_cmd := ReadReq\<rparr>)))"

section \<open>Hardware transactional memory\<close>

definition setHtmTransactionFailedInCache :: "htm_cache_failure \<Rightarrow> packet \<Rightarrow> packet" where
  "setHtmTransactionFailedInCache code p =
     (let p = (if code \<noteq> NO_FAIL then p\<lparr>p_flags := setFlags (p_flags p) P_FAILS_TRANSACTION\<rparr> else p)
      in p\<lparr>htmReturnReason := code\<rparr>)"

definition htmTransactionFailedInCache :: "packet \<Rightarrow> bool" where
  "htmTransactionFailedInCache p \<longleftrightarrow> isSet (p_flags p) P_FAILS_TRANSACTION"

definition getHtmTransactionFailedInCacheRC :: "packet \<Rightarrow> htm_cache_failure res" where
  "getHtmTransactionFailedInCacheRC p = sbind (sassert (htmTransactionFailedInCache p)) (\<lambda>_. Inr (htmReturnReason p))"

definition setHtmTransactional :: "u64 \<Rightarrow> packet \<Rightarrow> packet" where
  "setHtmTransactional uid p = p\<lparr>p_flags := setFlags (p_flags p) P_FROM_TRANSACTION, htmTransactionUid := uid\<rparr>"

definition isHtmTransactional :: "packet \<Rightarrow> bool" where
  "isHtmTransactional p \<longleftrightarrow> isSet (p_flags p) P_FROM_TRANSACTION"

definition getHtmTransactionUid :: "packet \<Rightarrow> u64 res" where
  "getHtmTransactionUid p = sbind (sassert (isSet (p_flags p) P_FROM_TRANSACTION)) (\<lambda>_. Inr (htmTransactionUid p))"

definition makeResponse :: "packet \<Rightarrow> packet res" where
  "makeResponse p =
     sbind (sassert (needsResponse (p_cmd p))) (\<lambda>_.
     sbind (sassert (isRequest (p_cmd p))) (\<lambda>_.
     Inr (p\<lparr>p_cmd := responseCommand (p_cmd p), p_flags := clearFlags (p_flags p) P_EXPRESS_SNOOP\<rparr>)))"

definition makeHtmTransactionalReqResponse :: "htm_cache_failure \<Rightarrow> packet \<Rightarrow> packet res" where
  "makeHtmTransactionalReqResponse code p =
     sbind (sassert (needsResponse (p_cmd p))) (\<lambda>_.
     sbind (sassert (isRequest (p_cmd p))) (\<lambda>_.
       (let p = setHtmTransactionFailedInCache code (p\<lparr>p_cmd := responseCommand (p_cmd p)\<rparr>)
        in Inr (p\<lparr>p_flags := clearFlags (p_flags p) P_EXPRESS_SNOOP\<rparr>))))"

definition setFunctionalResponseStatus :: "bool \<Rightarrow> packet \<Rightarrow> packet" where
  "setFunctionalResponseStatus success p =
     (if \<not> success then
        if isWrite (p_cmd p) then p\<lparr>p_cmd := FunctionalWriteError\<rparr> else p\<lparr>p_cmd := FunctionalReadError\<rparr>
      else p)"

section \<open>Payload\<close>

definition dataStatic :: "u8 list \<Rightarrow> packet \<Rightarrow> packet res" where
  "dataStatic bs p = sbind (sassert (noneSet (p_flags p) (P_STATIC_DATA OR P_DYNAMIC_DATA))) (\<lambda>_.
     Inr (p\<lparr>p_data := Some bs, p_flags := setFlags (p_flags p) P_STATIC_DATA\<rparr>))"

definition dataDynamic :: "u8 list \<Rightarrow> packet \<Rightarrow> packet res" where
  "dataDynamic bs p = sbind (sassert (noneSet (p_flags p) (P_STATIC_DATA OR P_DYNAMIC_DATA))) (\<lambda>_.
     Inr (p\<lparr>p_data := Some bs, p_flags := setFlags (p_flags p) P_DYNAMIC_DATA\<rparr>))"

text \<open>\<^verbatim>\<open>allocate\<close> obtains uninitialised memory; its contents are an argument.\<close>

definition allocate :: "(nat \<Rightarrow> u8) \<Rightarrow> packet \<Rightarrow> packet res" where
  "allocate junk p =
     (if hasData (p_cmd p) \<or> hasRespData p then
        sbind (sassert (noneSet (p_flags p) (P_STATIC_DATA OR P_DYNAMIC_DATA))) (\<lambda>_.
        sbind (getSize p) (\<lambda>sz.
        Inr (p\<lparr>p_flags := setFlags (p_flags p) P_DYNAMIC_DATA, p_data := Some (map junk [0..<unat sz])\<rparr>)))
      else Inr p)"

definition deleteData :: "packet \<Rightarrow> packet" where
  "deleteData p = p\<lparr>p_flags := clearFlags (p_flags p) (P_STATIC_DATA OR P_DYNAMIC_DATA), p_data := None\<rparr>"

text \<open>The payload behind \<^verbatim>\<open>getPtr\<close> and \<^verbatim>\<open>getConstPtr\<close>; dereferencing a null pointer is undefined.\<close>

definition getConstPtr :: "packet \<Rightarrow> u8 list res" where
  "getConstPtr p = sbind (sassert (isSet (p_flags p) (P_STATIC_DATA OR P_DYNAMIC_DATA))) (\<lambda>_.
     case p_data p of None \<Rightarrow> Inl Undefined_Behaviour | Some bs \<Rightarrow> Inr bs)"

definition getPtr :: "packet \<Rightarrow> u8 list res" where
  "getPtr p = sbind (sassert (isSet (p_flags p) (P_STATIC_DATA OR P_DYNAMIC_DATA))) (\<lambda>_.
     sbind (sassert (\<not> isMaskedWrite p)) (\<lambda>_.
     case p_data p of None \<Rightarrow> Inl Undefined_Behaviour | Some bs \<Rightarrow> Inr bs))"

definition memcpy_out :: "u8 list \<Rightarrow> nat \<Rightarrow> nat \<Rightarrow> u8 list res" where
  "memcpy_out src off n = (if off + n \<le> length src then Inr (get_bytes src off n) else Inl Undefined_Behaviour)"

definition memcpy_in :: "u8 list \<Rightarrow> nat \<Rightarrow> u8 list \<Rightarrow> u8 list res" where
  "memcpy_in dst off bs = (if off + length bs \<le> length dst then Inr (put_bytes dst off bs) else Inl Undefined_Behaviour)"

text \<open>\<^verbatim>\<open>n\<close> is \<^verbatim>\<open>sizeof(T)\<close>; values of every width are carried in 64 bits.\<close>

definition getRaw :: "nat \<Rightarrow> packet \<Rightarrow> u8 list res" where
  "getRaw n p =
     sbind (sassert (isSet (p_flags p) (P_STATIC_DATA OR P_DYNAMIC_DATA))) (\<lambda>_.
     sbind (sassert (n \<le> unat (p_size p))) (\<lambda>_.
     case p_data p of None \<Rightarrow> Inl Undefined_Behaviour | Some bs \<Rightarrow> memcpy_out bs 0 n))"

definition setRaw :: "u8 list \<Rightarrow> packet \<Rightarrow> packet res" where
  "setRaw v p =
     sbind (sassert (isSet (p_flags p) (P_STATIC_DATA OR P_DYNAMIC_DATA))) (\<lambda>_.
     sbind (sassert (length v \<le> unat (p_size p))) (\<lambda>_.
     case p_data p of
       None \<Rightarrow> Inl Undefined_Behaviour
     | Some bs \<Rightarrow> sbind (memcpy_in bs 0 v) (\<lambda>bs. Inr (p\<lparr>p_data := Some bs\<rparr>))))"

definition getLE :: "nat \<Rightarrow> packet \<Rightarrow> u64 res" where
  "getLE n p = sbind (getRaw n p) (\<lambda>bs. Inr (le_val bs))"

definition getBE :: "nat \<Rightarrow> packet \<Rightarrow> u64 res" where
  "getBE n p = sbind (getRaw n p) (\<lambda>bs. Inr (le_val (rev bs)))"

definition setLE :: "nat \<Rightarrow> u64 \<Rightarrow> packet \<Rightarrow> packet res" where
  "setLE n v p = setRaw (le_bytes n v) p"

definition setBE :: "nat \<Rightarrow> u64 \<Rightarrow> packet \<Rightarrow> packet res" where
  "setBE n v p = setRaw (rev (le_bytes n v)) p"

definition pkt_get :: "nat \<Rightarrow> byte_order \<Rightarrow> packet \<Rightarrow> u64 res" where
  "pkt_get n endian p = (case endian of BigEndian \<Rightarrow> getBE n p | LittleEndian \<Rightarrow> getLE n p)"

definition pkt_set :: "nat \<Rightarrow> u64 \<Rightarrow> byte_order \<Rightarrow> packet \<Rightarrow> packet res" where
  "pkt_set n v endian p = (case endian of BigEndian \<Rightarrow> setBE n v p | LittleEndian \<Rightarrow> setLE n v p)"

definition getUintX :: "byte_order \<Rightarrow> packet \<Rightarrow> u64 res" where
  "getUintX endian p =
     sbind (getConstPtr p) (\<lambda>bs. sbind (getSize p) (\<lambda>sz.
       if unat sz \<in> {1, 2, 4, 8} then
         sbind (memcpy_out bs 0 (unat sz)) (\<lambda>v.
         Inr (case endian of BigEndian \<Rightarrow> le_val (rev v) | LittleEndian \<Rightarrow> le_val v))
       else Inl Panic))"

definition setUintX :: "u64 \<Rightarrow> byte_order \<Rightarrow> packet \<Rightarrow> packet res" where
  "setUintX w endian p =
     sbind (getPtr p) (\<lambda>bs. sbind (getSize p) (\<lambda>sz.
       if unat sz \<in> {1, 2, 4, 8} then
         (let v = le_bytes (unat sz) w in
          sbind (memcpy_in bs 0 (case endian of BigEndian \<Rightarrow> rev v | LittleEndian \<Rightarrow> v)) (\<lambda>bs.
          Inr (p\<lparr>p_data := Some bs\<rparr>)))
       else Inl Panic))"

text \<open>
  \<^verbatim>\<open>setData\<close> copies \<^verbatim>\<open>getSize()\<close> bytes from a buffer at an offset into the payload.  The buffer is a
  different object from the payload here, so the identity test of the source is false.
\<close>

definition setData :: "u8 list \<Rightarrow> nat \<Rightarrow> packet \<Rightarrow> packet res" where
  "setData src off p =
     sbind (getPtr p) (\<lambda>bs. sbind (getSize p) (\<lambda>sz.
     sbind (memcpy_out src off (unat sz)) (\<lambda>v.
     sbind (memcpy_in bs 0 v) (\<lambda>bs. Inr (p\<lparr>p_data := Some bs\<rparr>)))))"

definition setDataFromBlock :: "u8 list \<Rightarrow> u32 \<Rightarrow> packet \<Rightarrow> packet res" where
  "setDataFromBlock blk_data blkSize p = sbind (pkt_getOffset blkSize p) (\<lambda>off. setData blk_data (unat off) p)"

text \<open>
  \<^verbatim>\<open>writeData\<close> copies the payload into a buffer at an offset, or only its enabled bytes.
\<close>

fun write_enabled :: "bool list \<Rightarrow> u8 list \<Rightarrow> nat \<Rightarrow> u8 list \<Rightarrow> u8 list res" where
  "write_enabled (en # ens) (b # bs) off dst =
     (if en then
        if off < length dst then write_enabled ens bs (Suc off) (dst[off := b]) else Inl Undefined_Behaviour
      else write_enabled ens bs (Suc off) dst)"
| "write_enabled _ _ off dst = Inr dst"

definition writeData :: "packet \<Rightarrow> u8 list \<Rightarrow> nat \<Rightarrow> u8 list res" where
  "writeData p dst off =
     (if \<not> isMaskedWrite p then
        sbind (getConstPtr p) (\<lambda>bs. sbind (getSize p) (\<lambda>sz.
        sbind (memcpy_out bs 0 (unat sz)) (\<lambda>v. memcpy_in dst off v)))
      else
        sbind (getSize p) (\<lambda>sz.
        sbind (sassert (length (r_byteEnable (p_req p)) = unat sz)) (\<lambda>_.
        sbind (getConstPtr p) (\<lambda>bs.
        sbind (memcpy_out bs 0 (unat sz)) (\<lambda>v. write_enabled (r_byteEnable (p_req p)) v off dst)))))"

definition writeDataToBlock :: "packet \<Rightarrow> u8 list \<Rightarrow> u32 \<Rightarrow> u8 list res" where
  "writeDataToBlock p blk_data blkSize = sbind (pkt_getOffset blkSize p) (\<lambda>off. writeData p blk_data (unat off))"

section \<open>Construction\<close>

definition makeReadCmd :: "request \<Rightarrow> command" where
  "makeReadCmd r =
     (if req_isHTMCmd r then (if req_isHTMAbort r then HTMAbort else HTMReq)
      else if req_isLLSC r then LoadLockedReq
      else if req_isPrefetchEx r then SoftPFExReq
      else if req_isPrefetch r then SoftPFReq
      else if req_isLockedRMW r then LockedRMWReadReq
      else ReadReq)"

definition makeWriteCmd :: "request \<Rightarrow> command" where
  "makeWriteCmd r =
     (if req_isLLSC r then StoreCondReq
      else if req_isSwap r \<or> req_isAtomic r then SwapReq
      else if req_isCacheInvalidate r then (if req_isCacheClean r then CleanInvalidReq else InvalidateReq)
      else if req_isCacheClean r then CleanSharedReq
      else if req_isLockedRMW r then LockedRMWWriteReq
      else WriteReq)"

definition packet_init :: "request \<Rightarrow> command \<Rightarrow> packet" where
  "packet_init r c = \<lparr>p_flags = 0, p_cmd = c, p_req = r, p_data = None, p_addr = 0, p_isSecure = False,
     p_size = 0, bytesValid = [], qosValue = 0, htmReturnReason = NO_FAIL, htmTransactionUid = 0,
     req_bus = [- 1, - 1], req_dev = [- 1, - 1], req_func = [- 1, - 1], is_posted = False,
     headerDelay = 0, snoopDelay = 0, payloadDelay = 0, senderState = []\<rparr>"

definition Packet_new :: "request \<Rightarrow> command \<Rightarrow> packet res" where
  "Packet_new r c =
     (let p = packet_init r c;
          p = (if hasPaddr r
               then p\<lparr>p_addr := r_paddr r, p_flags := setFlags (p_flags p) P_VALID_ADDR, p_isSecure := req_isSecure r\<rparr>
               else p)
      in sbind (if req_isHTMCmd r
                then (let p = p\<lparr>p_flags := setFlags (p_flags p) P_VALID_ADDR\<rparr> in
                      sbind (sassert (p_addr p = 0)) (\<lambda>_. Inr p))
                else Inr p) (\<lambda>p.
         Inr (if hasSize r then p\<lparr>p_size := r_size r, p_flags := setFlags (p_flags p) P_VALID_SIZE\<rparr> else p)))"

definition Packet_new_blk :: "request \<Rightarrow> command \<Rightarrow> u32 \<Rightarrow> packet" where
  "Packet_new_blk r c blkSize =
     (let p = packet_init r c;
          p = (if hasPaddr r
               then p\<lparr>p_addr := r_paddr r AND scast (NOT (blkSize - 1)), p_flags := setFlags (p_flags p) P_VALID_ADDR,
                      p_isSecure := req_isSecure r\<rparr>
               else p)
      in p\<lparr>p_size := blkSize, p_flags := setFlags (p_flags p) P_VALID_SIZE\<rparr>)"

definition createRead :: "request \<Rightarrow> packet res" where
  "createRead r = Packet_new r (makeReadCmd r)"

definition createWrite :: "request \<Rightarrow> packet res" where
  "createWrite r = Packet_new r (makeWriteCmd r)"

text \<open>The copy negates the first function number of the requester id, as the source does.\<close>

definition Packet_copy :: "packet \<Rightarrow> bool \<Rightarrow> bool \<Rightarrow> (nat \<Rightarrow> u8) \<Rightarrow> packet res" where
  "Packet_copy pkt clear_flags alloc_data junk =
     (let p = (packet_init (p_req pkt) (p_cmd pkt))
                \<lparr>p_addr := p_addr pkt, p_isSecure := p_isSecure pkt, p_size := p_size pkt,
                 bytesValid := bytesValid pkt, qosValue := qosValue pkt, headerDelay := headerDelay pkt,
                 payloadDelay := payloadDelay pkt, senderState := senderState pkt,
                 req_bus := [req_bus pkt ! 0, req_bus pkt ! 1], req_dev := [req_dev pkt ! 0, req_dev pkt ! 1],
                 req_func := [- (req_func pkt ! 0), req_func pkt ! 1]\<rparr>;
          p = (if \<not> clear_flags then p\<lparr>p_flags := setFlags (p_flags p) (p_flags pkt AND P_COPY_FLAGS)\<rparr> else p);
          p = p\<lparr>p_flags := setFlags (p_flags p) (p_flags pkt AND (P_VALID_ADDR OR P_VALID_SIZE))\<rparr>;
          p = (if isHtmTransactional pkt then setHtmTransactional (htmTransactionUid pkt) p else p);
          p = (if htmTransactionFailedInCache pkt then setHtmTransactionFailedInCache (htmReturnReason pkt) p else p)
      in if alloc_data then
           if isSet (p_flags pkt) P_STATIC_DATA
           then Inr (p\<lparr>p_data := p_data pkt, p_flags := setFlags (p_flags p) P_STATIC_DATA\<rparr>)
           else allocate junk p
         else Inr p)"

section \<open>Sender states\<close>

definition pushSenderState :: "nat \<Rightarrow> packet \<Rightarrow> packet" where
  "pushSenderState st p = p\<lparr>senderState := st # senderState p\<rparr>"

definition popSenderState :: "packet \<Rightarrow> (nat \<times> packet) res" where
  "popSenderState p =
     (case senderState p of [] \<Rightarrow> Inl Assert_Failed | st # sts \<Rightarrow> Inr (st, p\<lparr>senderState := sts\<rparr>))"

text \<open>\<^verbatim>\<open>is_T\<close> stands for the success of the dynamic cast.\<close>

definition findNextSenderState :: "(nat \<Rightarrow> bool) \<Rightarrow> packet \<Rightarrow> nat option" where
  "findNextSenderState is_T p = find is_T (senderState p)"

section \<open>Functional accesses\<close>

text \<open>
  Both functions match a functional packet against a buffer of \<^verbatim>\<open>sz\<close> bytes at address \<^verbatim>\<open>a\<close> that
  some queue or cache holds, and return whether the packet is done, the packet and the buffer.
  The loops over \<^verbatim>\<open>bytesValid\<close> test the bytes before and after the ones just filled in.
\<close>

definition fill_valid :: "nat \<Rightarrow> nat \<Rightarrow> nat \<Rightarrow> bool list \<Rightarrow> bool \<times> bool list" where
  "fill_valid fsz func_offset overlap_size bv =
     (let bv = (if bv = [] then replicate fsz False else bv);
          all_bytes_valid = list_all id (take func_offset bv);
          bv = put_bytes bv func_offset (replicate overlap_size True);
          all_bytes_valid = (all_bytes_valid \<and> list_all id (drop (func_offset + overlap_size) (take fsz bv)))
      in (all_bytes_valid, bv))"

definition trySatisfyFunctional :: "addr \<Rightarrow> bool \<Rightarrow> u32 \<Rightarrow> u8 list option \<Rightarrow> packet \<Rightarrow> (bool \<times> packet \<times> u8 list option) res" where
  "trySatisfyFunctional a is_secure sz dat p =
     sbind (getAddr p) (\<lambda>func_start. sbind (getSize p) (\<lambda>fsz.
       (let func_end = func_start + ucast fsz - 1;
            val_start = a;
            val_end = val_start + scast sz - 1
        in if is_secure \<noteq> p_isSecure p \<or> func_start > val_end \<or> val_start > func_end then Inr (False, p, dat)
           else if isPrint (p_cmd p) then sbind (sassert (dat = None)) (\<lambda>_. Inr (False, p, dat))
           else case dat of
               None \<Rightarrow> Inr (False, p, dat)
             | Some d \<Rightarrow>
                 (let val_offset = unat (if func_start > val_start then func_start - val_start else 0);
                      func_offset = unat (if func_start < val_start then val_start - func_start else 0);
                      overlap_size = unat (min val_end func_end + 1 - max val_start func_start)
                  in if isRead (p_cmd p) then
                       sbind (getPtr p) (\<lambda>bs.
                       sbind (memcpy_out d val_offset overlap_size) (\<lambda>v.
                       sbind (memcpy_in bs func_offset v) (\<lambda>bs.
                         (let (all_bytes_valid, bv) = fill_valid (unat fsz) func_offset overlap_size (bytesValid p)
                          in Inr (all_bytes_valid, p\<lparr>p_data := Some bs, bytesValid := bv\<rparr>, dat)))))
                     else if isWrite (p_cmd p) then
                       sbind (getConstPtr p) (\<lambda>bs.
                       sbind (memcpy_out bs func_offset overlap_size) (\<lambda>v.
                       sbind (memcpy_in d val_offset v) (\<lambda>d. Inr (False, p, Some d))))
                     else Inl Panic))))"

definition trySatisfyFunctional_pkt :: "packet \<Rightarrow> packet \<Rightarrow> (bool \<times> packet \<times> packet) res" where
  "trySatisfyFunctional_pkt other p =
     (if isMaskedWrite other then Inr (False, p, other)
      else
        sbind (getAddr other) (\<lambda>a. sbind (pkt_isSecure other) (\<lambda>sec. sbind (getSize other) (\<lambda>sz.
        sbind (if hasData (p_cmd other) then sbind (getPtr other) (\<lambda>bs. Inr (Some bs)) else Inr None) (\<lambda>dat.
        sbind (trySatisfyFunctional a sec sz dat p) (\<lambda>(ok, p, dat'). Inr (ok, p,
          if hasData (p_cmd other) then other\<lparr>p_data := dat'\<rparr> else other)))))))"

text \<open>\<^verbatim>\<open>checkFunctional\<close> keeps its offsets in \<^verbatim>\<open>int\<close>s; a negative length is undefined for \<^verbatim>\<open>memcpy\<close>.\<close>

definition to_int :: "addr \<Rightarrow> int" where
  "to_int w = sint (ucast w :: u32)"

definition nonneg :: "int \<Rightarrow> nat res" where
  "nonneg i = (if 0 \<le> i then Inr (nat i) else Inl Undefined_Behaviour)"

definition checkFunctional :: "addr \<Rightarrow> bool \<Rightarrow> u32 \<Rightarrow> u8 list option \<Rightarrow> packet \<Rightarrow> (bool \<times> packet \<times> u8 list option) res" where
  "checkFunctional a is_secure sz dat p =
     sbind (getAddr p) (\<lambda>func_start. sbind (getSize p) (\<lambda>fsz.
       (let func_end = func_start + ucast fsz - 1;
            val_start = a;
            val_end = val_start + scast sz - 1
        in if is_secure \<noteq> p_isSecure p \<or> func_start > val_end \<or> val_start > func_end then Inr (False, p, dat)
           else if isPrint (p_cmd p) then sbind (sassert (dat = None)) (\<lambda>_. Inr (False, p, dat))
           else case dat of
               None \<Rightarrow> Inr (False, p, dat)
             | Some d \<Rightarrow>
                 (let offset = to_int (func_start - val_start) in
                  if isRead (p_cmd p) then
                    if func_start \<ge> val_start \<and> func_end \<le> val_end then
                      sbind (getPtr p) (\<lambda>bs.
                      sbind (nonneg offset) (\<lambda>off.
                      sbind (memcpy_out d off (unat fsz)) (\<lambda>v.
                      sbind (memcpy_in bs 0 v) (\<lambda>bs.
                      Inr (True, p\<lparr>p_data := Some bs,
                             bytesValid := (if bytesValid p = [] then replicate (unat fsz) True else bytesValid p)\<rparr>, dat)))))
                    else
                      (let (val_offset, func_offset, overlap_size) =
                         (if val_start < func_start \<and> val_end \<le> func_end
                          then (to_int (func_start - val_start), 0, to_int (val_end - func_start))
                          else if val_start \<ge> func_start \<and> val_end > func_end
                          then (0, to_int (val_start - func_start), to_int (func_end - val_start))
                          else if val_start \<ge> func_start \<and> val_end \<le> func_end
                          then (0, to_int (val_start - func_start), sint sz)
                          else (to_int (func_start - val_start), 0, to_int (func_end - func_start)))
                       in sbind (getPtr p) (\<lambda>bs.
                          sbind (nonneg val_offset) (\<lambda>vo. sbind (nonneg func_offset) (\<lambda>fo. sbind (nonneg overlap_size) (\<lambda>n.
                          sbind (memcpy_out d vo n) (\<lambda>v.
                          sbind (memcpy_in bs fo v) (\<lambda>bs.
                            (let (all_bytes_valid, bv) = fill_valid (unat fsz) fo n (bytesValid p)
                             in Inr (all_bytes_valid, p\<lparr>p_data := Some bs, bytesValid := bv\<rparr>, dat)))))))))
                  else if isWrite (p_cmd p) then
                    sbind (getConstPtr p) (\<lambda>bs.
                    if offset \<ge> 0 then
                      sbind (memcpy_out bs 0 (unat (min func_end val_end - func_start + 1))) (\<lambda>v.
                      sbind (memcpy_in d (nat offset) v) (\<lambda>d. Inr (False, p, Some d)))
                    else
                      sbind (memcpy_out bs (nat (- offset)) (unat (min func_end val_end - val_start + 1))) (\<lambda>v.
                      sbind (memcpy_in d 0 v) (\<lambda>d. Inr (False, p, Some d))))
                  else Inl Panic))))"

definition checkFunctional_pkt :: "packet \<Rightarrow> packet \<Rightarrow> (bool \<times> packet \<times> packet) res" where
  "checkFunctional_pkt other p =
     sbind (getAddr other) (\<lambda>a. sbind (pkt_isSecure other) (\<lambda>sec. sbind (getSize other) (\<lambda>sz.
     sbind (if hasData (p_cmd other) then sbind (getPtr other) (\<lambda>bs. Inr (Some bs)) else Inr None) (\<lambda>dat.
     sbind (checkFunctional a sec sz dat p) (\<lambda>(ok, p, dat'). Inr (ok, p,
       if hasData (p_cmd other) then other\<lparr>p_data := dat'\<rparr> else other))))))"

section \<open>Lemmas\<close>

named_theorems pkt_simps \<open>definedness of the packet accessors\<close>

lemma memcpy_out_Inr [pkt_simps]: "memcpy_out src off n = Inr v \<longleftrightarrow> off + n \<le> length src \<and> v = get_bytes src off n"
  by (auto simp: memcpy_out_def)

lemma memcpy_in_Inr [pkt_simps]: "memcpy_in dst off bs = Inr v \<longleftrightarrow> off + length bs \<le> length dst \<and> v = put_bytes dst off bs"
  by (auto simp: memcpy_in_def)

lemma memcpy_ok [simp]:
  "off + n \<le> length src \<Longrightarrow> memcpy_out src off n = Inr (get_bytes src off n)"
  "off + length bs \<le> length dst \<Longrightarrow> memcpy_in dst off bs = Inr (put_bytes dst off bs)"
  by (simp_all add: memcpy_out_def memcpy_in_def)

text \<open>A packet with a physical address, a size and a payload of exactly that many bytes.\<close>

definition pkt_ok :: "packet \<Rightarrow> bool" where
  "pkt_ok p \<longleftrightarrow> isSet (p_flags p) P_VALID_ADDR \<and> isSet (p_flags p) P_VALID_SIZE \<and>
     isSet (p_flags p) (P_STATIC_DATA OR P_DYNAMIC_DATA) \<and>
     (\<exists>bs. p_data p = Some bs \<and> length bs = unat (p_size p))"

lemma pkt_ok_getters [simp]:
  assumes "pkt_ok p"
  shows "getAddr p = Inr (p_addr p)" "getSize p = Inr (p_size p)" "getConstPtr p = Inr (the (p_data p))"
    "\<not> isMaskedWrite p \<Longrightarrow> getPtr p = Inr (the (p_data p))" "length (the (p_data p)) = unat (p_size p)"
    "pkt_isSecure p = Inr (p_isSecure p)"
  using assms by (auto simp: pkt_ok_def getAddr_def getSize_def getConstPtr_def getPtr_def pkt_isSecure_def)

lemma makeResponse_ok:
  assumes "needsResponse (p_cmd p)"
  shows "makeResponse p =
    Inr (p\<lparr>p_cmd := responseCommand (p_cmd p), p_flags := clearFlags (p_flags p) P_EXPRESS_SNOOP\<rparr>)"
  using assms cmd_protocol(2) [of "p_cmd p"] by (simp add: makeResponse_def)

lemma setLE_getLE:
  assumes "setLE n v p = Inr p'" "n \<le> 8"
  shows "getLE n p' = Inr (take_bit (8 * n) v)"
proof -
  obtain bs where bs: "p_data p = Some bs" "n \<le> length bs" "p' = p\<lparr>p_data := Some (put_bytes bs 0 (le_bytes n v))\<rparr>"
    and f: "isSet (p_flags p) (P_STATIC_DATA OR P_DYNAMIC_DATA)" "n \<le> unat (p_size p)"
    using assms(1) by (auto simp: setLE_def setRaw_def res_simps pkt_simps split: option.splits)
  then show ?thesis
    using assms(2) get_put_bytes_same [of 0 "le_bytes n v" bs]
    by (simp add: getLE_def getRaw_def le_val_bytes)
qed

lemma pop_pushSenderState: "popSenderState (pushSenderState st p) = Inr (st, p)"
  by (simp add: popSenderState_def pushSenderState_def)

definition pvalid :: "packet \<Rightarrow> nat \<Rightarrow> bool" where
  "pvalid p i \<longleftrightarrow> bytesValid p \<noteq> [] \<and> bytesValid p ! i"

lemma fill_valid_spec:
  assumes "bv = [] \<or> length bv = n" "fo + ov \<le> n" "fill_valid n fo ov bv = (ok, bv')"
  shows "length bv' = n" "\<And>i. i < n \<Longrightarrow> bv' ! i \<longleftrightarrow> (bv \<noteq> [] \<and> bv ! i) \<or> fo \<le> i \<and> i < fo + ov"
    "ok \<longleftrightarrow> (\<forall>i < n. bv' ! i)"
proof -
  define b where "b = (if bv = [] then replicate n False else bv)"
  have b: "length b = n" "\<And>i. i < n \<Longrightarrow> b ! i \<longleftrightarrow> bv \<noteq> [] \<and> bv ! i"
    using assms(1) by (auto simp: b_def)
  have bv': "bv' = put_bytes b fo (replicate ov True)"
    and ok: "ok \<longleftrightarrow> list_all id (take fo b) \<and> list_all id (drop (fo + ov) (take n bv'))"
    using assms(3) by (auto simp: fill_valid_def b_def [symmetric] Let_def)
  show len: "length bv' = n" using assms(2) b by (simp add: bv')
  show nth: "bv' ! i \<longleftrightarrow> (bv \<noteq> [] \<and> bv ! i) \<or> fo \<le> i \<and> i < fo + ov" if "i < n" for i
    using that assms(2) b by (auto simp: bv' nth_put_bytes)
  have "list_all id (take fo b) \<longleftrightarrow> (\<forall>i < fo. bv' ! i)"
    using assms(2) b nth by (auto simp: list_all_length)
  moreover have "list_all id (drop (fo + ov) (take n bv')) \<longleftrightarrow> (\<forall>i. fo + ov \<le> i \<and> i < n \<longrightarrow> bv' ! i)"
    using assms(2) len by (force simp: list_all_length le_iff_add)
  moreover have "\<forall>i. fo \<le> i \<and> i < fo + ov \<longrightarrow> bv' ! i" using nth assms(2) by auto
  ultimately show "ok \<longleftrightarrow> (\<forall>i < n. bv' ! i)"
    using assms(2) unfolding ok by (meson le_add1 linorder_not_less order_less_le_trans)
qed

text \<open>The window the two byte ranges share, in natural numbers.\<close>

lemma overlap_window:
  fixes fs a fe ve :: addr
  assumes fe: "unat fe = unat fs + n - 1" and ve: "unat ve = unat a + m - 1"
    and n: "0 < n" "n < 2 ^ 32" "0 < m"
    and overlap: "unat a < unat fs + n" "unat fs < unat a + m"
  shows "\<not> fs > ve" "\<not> a > fe"
    "unat (if fs < a then a - fs else 0) = unat a - unat fs" "unat (if fs > a then fs - a else 0) = unat fs - unat a"
    "unat (min ve fe + 1 - max a fs) = min (unat a + m) (unat fs + n) - max (unat a) (unat fs)"
proof -
  show "\<not> fs > ve" "\<not> a > fe" using overlap fe ve n by (auto simp: word_less_nat_alt)
  show "unat (if fs < a then a - fs else 0) = unat a - unat fs" "unat (if fs > a then fs - a else 0) = unat fs - unat a"
    by (auto simp: unat_sub word_less_nat_alt not_less word_le_nat_alt)
  have mn: "unat (min ve fe) = min (unat ve) (unat fe)" by (auto simp: min_def word_le_nat_alt)
  have mx: "unat (max a fs) = max (unat a) (unat fs)" by (auto simp: max_def word_le_nat_alt)
  have "min v (A + k - 1) - max u A + 1 \<le> k" if "0 < k" for A k u v :: nat
    using that by (auto simp: min_def max_def)
  from this [OF n(1), of "unat ve" "unat fs" "unat a"]
  have "unat (min ve fe) - unat (max a fs) + 1 < 2 ^ 64" using n(2) by (simp only: mn mx fe) simp
  moreover have "max a fs \<le> min ve fe" using overlap n by (auto simp: word_le_nat_alt mn mx fe ve)
  ultimately have "unat (min ve fe + 1 - max a fs) = unat (min ve fe) - unat (max a fs) + 1"
    by (intro unat_span) simp_all
  moreover have "min (x - 1) (y - 1) - max u w + 1 = min x y - max u w" if "max u w < min x y" for x y u w :: nat
    using that by arith
  ultimately show "unat (min ve fe + 1 - max a fs) = min (unat a + m) (unat fs + n) - max (unat a) (unat fs)"
    using overlap n by (simp only: mn mx fe ve)
qed

text \<open>
  A functional read picks up exactly the bytes the buffer holds, records them as valid, and is done
  when every byte is valid.
\<close>

lemma trySatisfyFunctional_read:
  fixes a :: addr
  assumes p: "pkt_ok p" "isRead (p_cmd p)" "bytesValid p = [] \<or> length (bytesValid p) = unat (p_size p)"
    and n: "0 < unat (p_size p)" "unat (p_addr p) + unat (p_size p) \<le> 2 ^ 64"
    and d: "length d = unat sz" "0 < unat sz" "unat sz < 2 ^ 31" "unat a + unat sz \<le> 2 ^ 64"
    and overlap: "unat a < unat (p_addr p) + unat (p_size p)" "unat (p_addr p) < unat a + unat sz"
    and sec: "is_secure = p_isSecure p"
  shows "\<exists>ok p'. trySatisfyFunctional a is_secure sz (Some d) p = Inr (ok, p', Some d) \<and>
    length (the (p_data p')) = unat (p_size p) \<and>
    (\<forall>i < unat (p_size p).
       the (p_data p') ! i =
         (let x = unat (p_addr p) + i in
          if unat a \<le> x \<and> x < unat a + unat sz then d ! (x - unat a) else the (p_data p) ! i) \<and>
       (pvalid p' i \<longleftrightarrow> pvalid p i \<or>
         unat a \<le> unat (p_addr p) + i \<and> unat (p_addr p) + i < unat a + unat sz)) \<and>
    (ok \<longleftrightarrow> (\<forall>i < unat (p_size p). pvalid p' i))"
proof -
  let ?fs = "p_addr p" and ?n = "unat (p_size p)" and ?m = "unat sz"
  let ?fe = "?fs + ucast (p_size p) - 1" and ?ve = "a + scast sz - 1"
  have fe: "unat ?fe = unat ?fs + ?n - 1"
    using unat_last [of "ucast (p_size p)" ?fs] n by (simp add: unat_ucast_up)
  have ve: "unat ?ve = unat a + ?m - 1"
    using unat_last [of "scast sz" a] d by (simp add: unat_scast_nonneg)
  define fo where "fo = unat (if ?fs < a then a - ?fs else 0)"
  define vo where "vo = unat (if ?fs > a then ?fs - a else 0)"
  define ov where "ov = unat (min ?ve ?fe + 1 - max a ?fs)"
  have lt: "?n < 2 ^ 32" using unat_lt_exp [of "p_size p"] by simp
  note w = overlap_window [OF fe ve n(1) lt d(2) overlap, folded fo_def vo_def ov_def]
  note fo = w(3) and vo = w(4) and ov = w(5)
  have bounds: "fo + ov \<le> ?n" "vo + ov \<le> ?m" using overlap by (auto simp: fo vo ov)
  obtain ok bv where fv: "fill_valid ?n fo ov (bytesValid p) = (ok, bv)" by (cases "fill_valid ?n fo ov (bytesValid p)")
  note spec = fill_valid_spec [OF p(3) bounds(1) fv]
  define p' where "p' = p\<lparr>p_data := Some (put_bytes (the (p_data p)) fo (get_bytes d vo ov)), bytesValid := bv\<rparr>"
  have run: "trySatisfyFunctional a is_secure sz (Some d) p = Inr (ok, p', Some d)"
    using p w(1,2) sec isRead_not_print [OF p(2)] bounds d(1) fv
    by (simp add: trySatisfyFunctional_def Let_def fo_def [symmetric] vo_def [symmetric] ov_def [symmetric] p'_def isMaskedWrite_def)
  have data: "the (p_data p') ! i = (let x = unat ?fs + i in
      if unat a \<le> x \<and> x < unat a + ?m then d ! (x - unat a) else the (p_data p) ! i)" if "i < ?n" for i
  proof -
    have "the (p_data p') ! i = (if fo \<le> i \<and> i < fo + ov then d ! (vo + (i - fo)) else the (p_data p) ! i)"
      using that bounds p(1) d(1) nth_get_bytes [of vo ov d "i - fo"]
      by (auto simp: p'_def nth_put_bytes)
    moreover have "fo \<le> i \<and> i < fo + ov \<longleftrightarrow> unat a \<le> unat ?fs + i \<and> unat ?fs + i < unat a + ?m"
      using that overlap by (auto simp: fo ov)
    moreover have "fo \<le> i \<Longrightarrow> vo + (i - fo) = unat ?fs + i - unat a" using overlap by (auto simp: fo vo)
    ultimately show ?thesis by (auto simp: Let_def)
  qed
  have "pvalid p' i \<longleftrightarrow> pvalid p i \<or> unat a \<le> unat ?fs + i \<and> unat ?fs + i < unat a + ?m" if "i < ?n" for i
    using spec(1,2) that overlap by (auto simp: p'_def pvalid_def fo ov)
  moreover have "ok \<longleftrightarrow> (\<forall>i < ?n. pvalid p' i)" using spec(1,3) n by (auto simp: p'_def pvalid_def)
  moreover have "length (the (p_data p')) = ?n" using bounds p(1) d(1) by (simp add: p'_def)
  ultimately show ?thesis using run data by blast
qed

section \<open>Properties\<close>

text \<open>A packet with the given payload at a physical address, the kind every driver of the model builds.\<close>

definition data_packet :: "command \<Rightarrow> addr \<Rightarrow> u8 list \<Rightarrow> packet" where
  "data_packet c a bs = (packet_init (Request_phys 0 a (of_nat (length bs)) 0 0) c)
     \<lparr>p_addr := a, p_size := of_nat (length bs), p_data := Some bs,
      p_flags := P_VALID_ADDR OR P_VALID_SIZE OR P_STATIC_DATA\<rparr>"

lemma data_packet_ok: "length bs < 2 ^ 32 \<Longrightarrow> pkt_ok (data_packet c a bs)"
  by (simp add: pkt_ok_def data_packet_def isSet_def unat_of_nat take_bit_nat_eq_self)

lemma data_packet_sel [simp]:
  "p_cmd (data_packet c a bs) = c" "p_addr (data_packet c a bs) = a" "p_data (data_packet c a bs) = Some bs"
  "p_size (data_packet c a bs) = of_nat (length bs)" "bytesValid (data_packet c a bs) = []"
  "p_isSecure (data_packet c a bs) = False"
  by (simp_all add: data_packet_def packet_init_def)

text \<open>
  C33: A functional read is satisfied from a buffer byte by byte: after \<^verbatim>\<open>trySatisfyFunctional\<close> every
  byte of the packet inside the buffer holds the buffer's byte and is marked valid, every other byte
  keeps its value and its mark, and the call answers yes exactly when all bytes are valid.
\<close>

theorem functional_read_overlay:
  fixes a :: addr
  assumes "pkt_ok p" "isRead (p_cmd p)" "bytesValid p = [] \<or> length (bytesValid p) = unat (p_size p)"
    "0 < unat (p_size p)" "unat (p_addr p) + unat (p_size p) \<le> 2 ^ 64"
    "length d = unat sz" "0 < unat sz" "unat sz < 2 ^ 31" "unat a + unat sz \<le> 2 ^ 64"
    "unat a < unat (p_addr p) + unat (p_size p)" "unat (p_addr p) < unat a + unat sz" "is_secure = p_isSecure p"
  shows "\<exists>ok p'. trySatisfyFunctional a is_secure sz (Some d) p = Inr (ok, p', Some d) \<and>
    length (the (p_data p')) = unat (p_size p) \<and>
    (\<forall>i < unat (p_size p).
       the (p_data p') ! i =
         (let x = unat (p_addr p) + i in
          if unat a \<le> x \<and> x < unat a + unat sz then d ! (x - unat a) else the (p_data p) ! i) \<and>
       (pvalid p' i \<longleftrightarrow> pvalid p i \<or>
         unat a \<le> unat (p_addr p) + i \<and> unat (p_addr p) + i < unat a + unat sz)) \<and>
    (ok \<longleftrightarrow> (\<forall>i < unat (p_size p). pvalid p' i))"
  using assms by (rule trySatisfyFunctional_read)

theorem functional_read_overlay_witness:
  "\<exists>p'. trySatisfyFunctional 0x100 False 6 (Some [1, 2, 3, 4, 5, 6]) (data_packet ReadReq 0x104 [0, 0, 0, 0]) =
     Inr (False, p', Some [1, 2, 3, 4, 5, 6]) \<and> the (p_data p') = [5, 6, 0, 0]"
proof -
  let ?p = "data_packet ReadReq 0x104 [0, 0, 0, 0]"
  have "\<exists>ok p'. trySatisfyFunctional 0x100 False 6 (Some [1, 2, 3, 4, 5, 6]) ?p = Inr (ok, p', Some [1, 2, 3, 4, 5, 6]) \<and>
    length (the (p_data p')) = unat (p_size ?p) \<and>
    (\<forall>i < unat (p_size ?p).
       the (p_data p') ! i =
         (let x = unat (p_addr ?p) + i in
          if unat (0x100 :: addr) \<le> x \<and> x < unat (0x100 :: addr) + unat (6 :: u32)
          then [1, 2, 3, 4, 5, 6] ! (x - unat (0x100 :: addr)) else the (p_data ?p) ! i) \<and>
       (pvalid p' i \<longleftrightarrow> pvalid ?p i \<or>
         unat (0x100 :: addr) \<le> unat (p_addr ?p) + i \<and> unat (p_addr ?p) + i < unat (0x100 :: addr) + unat (6 :: u32))) \<and>
    (ok \<longleftrightarrow> (\<forall>i < unat (p_size ?p). pvalid p' i))"
    by (rule functional_read_overlay) (simp_all add: data_packet_ok cmd_predicates)
  then obtain ok p' where t: "trySatisfyFunctional 0x100 False 6 (Some [1, 2, 3, 4, 5, 6]) ?p = Inr (ok, p', Some [1, 2, 3, 4, 5, 6])"
    and l: "length (the (p_data p')) = 4" and ok: "ok \<longleftrightarrow> (\<forall>i<4. pvalid p' i)"
    and all: "\<forall>i<4. the (p_data p') ! i = (if i < 2 then [1, 2, 3, 4, 5, 6] ! (4 + i) else [0, 0, 0, 0] ! i) \<and>
      (pvalid p' i \<longleftrightarrow> i < 2)"
    by (force simp: Let_def pvalid_def)
  have "the (p_data p') ! 0 = 5" "the (p_data p') ! 1 = 6" "the (p_data p') ! 2 = 0" "the (p_data p') ! 3 = 0"
    and v: "\<not> pvalid p' 3"
    using all [rule_format, of 0] all [rule_format, of 1] all [rule_format, of 2] all [rule_format, of 3] by simp_all
  then have "the (p_data p') = [5, 6, 0, 0]"
    using l by (intro nth_equalityI) (auto simp: less_Suc_eq numeral_eq_Suc)
  moreover have "\<not> ok" using v ok by (auto intro!: exI [of _ "3 :: nat"])
  ultimately show ?thesis using t by auto
qed

text \<open>
  A value stored into a packet in little-endian order is read back, truncated to the width of
  the access.
\<close>

lemma setLE_getLE_roundtrip:
  assumes "setLE n v p = Inr p'" "n \<le> 8"
  shows "getLE n p' = Inr (take_bit (8 * n) v)"
  using assms by (rule setLE_getLE)

lemma setLE_getLE_roundtrip_witness:
  "\<exists>p'. setLE 2 0x12345 (data_packet WriteReq 0x100 [0, 0, 0, 0]) = Inr p' \<and> getLE 2 p' = Inr 0x2345"
proof -
  let ?p = "data_packet WriteReq 0x100 [0, 0, 0, 0]"
  obtain p' where s: "setLE 2 0x12345 ?p = Inr p'"
    by (simp add: setLE_def setRaw_def data_packet_def packet_init_def isSet_def)
  have "take_bit 16 (0x12345 :: u64) = 0x2345" by code_simp
  with setLE_getLE_roundtrip [OF s] s show ?thesis by simp
qed

text \<open>
  The older \<^verbatim>\<open>checkFunctional\<close> loses the last byte of a partial overlap: both ends are inclusive,
  yet their difference is used as the number of bytes.  Reading [0x104, 0x108) against a write of
  [0x100, 0x106) copies one byte, where \<^verbatim>\<open>trySatisfyFunctional\<close> copies two.
\<close>

lemma checkFunctional_loses_byte:
  "let p = data_packet ReadReq 0x104 [0, 0, 0, 0]; d = Some [1, 2, 3, 4, 5, 6];
       payload = map_sum id (\<lambda>(ok, p, _). p_data p)
   in payload (checkFunctional 0x100 False 6 d p) = Inr (Some [5, 0, 0, 0]) \<and>
      payload (trySatisfyFunctional 0x100 False 6 d p) = Inr (Some [5, 6, 0, 0])"
proof -
  have "map_sum id (\<lambda>(ok, p, _). p_data p) (checkFunctional 0x100 False 6 (Some [1, 2, 3, 4, 5, 6]) (data_packet ReadReq 0x104 [0, 0, 0, 0])) = Inr (Some [5, 0, 0, 0])"
    by code_simp
  moreover have "map_sum id (\<lambda>(ok, p, _). p_data p) (trySatisfyFunctional 0x100 False 6 (Some [1, 2, 3, 4, 5, 6]) (data_packet ReadReq 0x104 [0, 0, 0, 0])) = Inr (Some [5, 6, 0, 0])"
    by code_simp
  ultimately show ?thesis by (simp only: Let_def)
qed

end
