(* ===== verification/Byte_Memory.thy ===== *)
theory Byte_Memory
  imports Packet
begin

text \<open>
  The contract of a component that answers reads and writes of packets from bytes it stores, and
  what a client can conclude from the contract alone: any sequence of reads and writes behaves like
  a map from addresses to bytes.  The memories of the program interpret the contract.
\<close>

definition pkt_covers :: "packet \<Rightarrow> addr \<Rightarrow> bool" where
  "pkt_covers p x \<longleftrightarrow> unat (p_addr p) \<le> unat x \<and> unat x < unat (p_addr p) + unat (p_size p)"

definition store_view :: "packet \<Rightarrow> (addr \<Rightarrow> u8 option) \<Rightarrow> addr \<Rightarrow> u8 option" where
  "store_view p v = (\<lambda>x. if pkt_covers p x then Some (the (p_data p) ! (unat x - unat (p_addr p))) else v x)"

definition load_ok :: "packet \<Rightarrow> packet \<Rightarrow> (addr \<Rightarrow> u8 option) \<Rightarrow> bool" where
  "load_ok p q v \<longleftrightarrow> length (the (p_data q)) = unat (p_size p) \<and>
     (\<forall>x. pkt_covers p x \<longrightarrow> v x = Some (the (p_data q) ! (unat x - unat (p_addr p))))"

definition simple_read :: "packet \<Rightarrow> bool" where
  "simple_read p \<longleftrightarrow> pkt_ok p \<and> p_cmd p = ReadReq \<and> \<not> cacheResponding p \<and> 0 < unat (p_size p)"

definition simple_write :: "packet \<Rightarrow> bool" where
  "simple_write p \<longleftrightarrow> pkt_ok p \<and> p_cmd p = WriteReq \<and> \<not> cacheResponding p \<and> 0 < unat (p_size p) \<and>
     \<not> isMaskedWrite p \<and> \<not> isSet (r_flags (p_req p)) R_INST_FETCH"

text \<open>A sequence of accesses on a component, and the behaviour of an ideal memory.\<close>

fun run_access :: "(packet \<Rightarrow> 's \<Rightarrow> (packet \<times> 's) res) \<Rightarrow> packet list \<Rightarrow> 's \<Rightarrow> (packet list \<times> 's) res" where
  "run_access access [] s = Inr ([], s)"
| "run_access access (p # ps) s =
     sbind (access p s) (\<lambda>(q, s). sbind (run_access access ps s) (\<lambda>(qs, s). Inr (q # qs, s)))"

fun ideal_run :: "packet list \<Rightarrow> packet list \<Rightarrow> (addr \<Rightarrow> u8 option) \<Rightarrow> (addr \<Rightarrow> u8 option) \<Rightarrow> bool" where
  "ideal_run [] qs v v' \<longleftrightarrow> qs = [] \<and> v' = v"
| "ideal_run (p # ps) [] v v' \<longleftrightarrow> False"
| "ideal_run (p # ps) (q # qs) v v' \<longleftrightarrow>
     (if p_cmd p = ReadReq then p_cmd q = ReadResp \<and> load_ok p q v \<and> ideal_run ps qs v v'
      else p_cmd q = WriteResp \<and> ideal_run ps qs (store_view p v) v')"

locale byte_memory =
  fixes access :: "packet \<Rightarrow> 's \<Rightarrow> (packet \<times> 's) res"
    and view :: "'s \<Rightarrow> addr \<Rightarrow> u8 option"
    and inv :: "'s \<Rightarrow> bool"
    and covers :: "packet \<Rightarrow> 's \<Rightarrow> bool"
  assumes read_law: "inv s \<Longrightarrow> covers p s \<Longrightarrow> simple_read p \<Longrightarrow>
      \<exists>q s'. access p s = Inr (q, s') \<and> inv s' \<and> (\<forall>r. covers r s' = covers r s) \<and> view s' = view s \<and>
        p_cmd q = ReadResp \<and> load_ok p q (view s)"
    and write_law: "inv s \<Longrightarrow> covers p s \<Longrightarrow> simple_write p \<Longrightarrow>
      \<exists>q s'. access p s = Inr (q, s') \<and> inv s' \<and> (\<forall>r. covers r s' = covers r s) \<and> view s' = store_view p (view s) \<and>
        p_cmd q = WriteResp"
begin

lemma run_refines_ideal:
  assumes "inv s" "\<forall>p\<in>set ps. covers p s \<and> (simple_read p \<or> simple_write p)"
  shows "\<exists>qs s'. run_access access ps s = Inr (qs, s') \<and> inv s' \<and> ideal_run ps qs (view s) (view s')"
  using assms
proof (induction ps arbitrary: s)
  case (Cons p ps)
  have "simple_read p \<or> simple_write p" "covers p s" using Cons.prems(2) by simp_all
  then show ?case
  proof (elim disjE)
    assume r: "simple_read p"
    from read_law [OF Cons.prems(1) \<open>covers p s\<close> r] obtain q s1
      where s1: "access p s = Inr (q, s1)" "inv s1" "\<forall>r. covers r s1 = covers r s" "view s1 = view s"
        "p_cmd q = ReadResp" "load_ok p q (view s)" by blast
    from Cons.IH [OF s1(2)] Cons.prems(2) s1(3) obtain qs s'
      where "run_access access ps s1 = Inr (qs, s')" "inv s'" "ideal_run ps qs (view s1) (view s')" by auto
    then show ?thesis using s1 r by (auto simp: simple_read_def intro!: exI [of _ "q # qs"])
  next
    assume w: "simple_write p"
    from write_law [OF Cons.prems(1) \<open>covers p s\<close> w] obtain q s1
      where s1: "access p s = Inr (q, s1)" "inv s1" "\<forall>r. covers r s1 = covers r s" "view s1 = store_view p (view s)"
        "p_cmd q = WriteResp" by blast
    from Cons.IH [OF s1(2)] Cons.prems(2) s1(3) obtain qs s'
      where "run_access access ps s1 = Inr (qs, s')" "inv s'" "ideal_run ps qs (view s1) (view s')" by auto
    then show ?thesis using s1 w by (auto simp: simple_write_def intro!: exI [of _ "q # qs"])
  qed
qed simp

lemma read_after_write:
  assumes "inv s" "covers w s" "covers r s" "simple_write w" "simple_read r" "p_addr r = p_addr w" "p_size r = p_size w"
    "unat (p_addr w) + unat (p_size w) \<le> 2 ^ 64"
  shows "\<exists>q1 s1 q2 s2. access w s = Inr (q1, s1) \<and> access r s1 = Inr (q2, s2) \<and> inv s2 \<and>
    p_cmd q1 = WriteResp \<and> p_cmd q2 = ReadResp \<and> the (p_data q2) = the (p_data w)"
proof -
  from write_law [OF assms(1,2,4)] obtain q1 s1 where s1: "access w s = Inr (q1, s1)" "inv s1" "covers r s1"
      "view s1 = store_view w (view s)" "p_cmd q1 = WriteResp" using assms(3) by blast
  from read_law [OF s1(2,3) assms(5)] obtain q2 s2 where s2: "access r s1 = Inr (q2, s2)" "inv s2" "p_cmd q2 = ReadResp"
      "load_ok r q2 (view s1)" by blast
  have len: "length (the (p_data q2)) = unat (p_size w)" "length (the (p_data w)) = unat (p_size w)"
    using s2(4) assms(4,7) by (auto simp: load_ok_def simple_write_def)
  have "the (p_data q2) ! i = the (p_data w) ! i" if "i < unat (p_size w)" for i
  proof -
    let ?x = "p_addr w + of_nat i"
    have i: "unat (of_nat i :: addr) = i"
      using that unat_lt_exp [of "p_size w"] by (simp add: unat_of_nat take_bit_nat_eq_self)
    have x: "unat ?x = unat (p_addr w) + i"
      using that assms(8) i by (subst unat_add_no_wrap) auto
    then have "pkt_covers r ?x" "pkt_covers w ?x" using that assms(6,7) by (simp_all add: pkt_covers_def)
    then show ?thesis using s2(4) x assms(6) by (auto simp: load_ok_def s1(4) store_view_def)
  qed
  then have "the (p_data q2) = the (p_data w)" using len by (intro nth_equalityI) simp_all
  then show ?thesis using s1 s2 by blast
qed

end

text \<open>The packets of a driver are of the kinds the contract speaks about.\<close>

lemma data_packet_quiet [simp]:
  "\<not> cacheResponding (data_packet c a bs)" "r_flags (p_req (data_packet c a bs)) = 0" "\<not> isMaskedWrite (data_packet c a bs)"
  by (simp_all add: cacheResponding_def isMaskedWrite_def isMasked_def data_packet_def packet_init_def Request_phys_def
    Request_default_def isSet_def setFlags_def)

lemma simple_data_packets:
  assumes "0 < length bs" "length bs < 2 ^ 32"
  shows "simple_read (data_packet ReadReq a bs)" "simple_write (data_packet WriteReq a bs)"
  using assms data_packet_ok [of bs]
  by (auto simp: simple_read_def simple_write_def unat_of_nat take_bit_nat_eq_self isSet_def)

section \<open>Bytes in an array\<close>

lemma write_enabled_spec:
  assumes "length ens = length bs" "off + length bs \<le> length dst"
  shows "\<exists>dst'. write_enabled ens bs off dst = Inr dst' \<and> length dst' = length dst \<and>
    (\<forall>i < length dst. dst' ! i = (if off \<le> i \<and> i < off + length bs \<and> ens ! (i - off) then bs ! (i - off) else dst ! i))"
  using assms
proof (induction ens bs arbitrary: off dst rule: list_induct2)
  case (Cons en ens b bs)
  let ?d = "if en then dst[off := b] else dst"
  have "length ?d = length dst" "off < length dst" using Cons.prems by auto
  then obtain dst' where d: "write_enabled ens bs (Suc off) ?d = Inr dst'" "length dst' = length dst"
    and nth: "\<forall>i < length dst. dst' ! i = (if Suc off \<le> i \<and> i < Suc off + length bs \<and> ens ! (i - Suc off)
      then bs ! (i - Suc off) else ?d ! i)"
    using Cons.IH [of "Suc off" ?d] Cons.prems by auto
  have "dst' ! i = (if off \<le> i \<and> i < off + length (b # bs) \<and> (en # ens) ! (i - off) then (b # bs) ! (i - off) else dst ! i)"
    if "i < length dst" for i
    using nth that Cons.prems by (cases "i = off") (auto simp: nth_Cons' Suc_le_eq)
  then show ?case using d \<open>off < length dst\<close> by (auto split: if_splits)
qed auto

definition byte_enabled :: "packet \<Rightarrow> nat \<Rightarrow> bool" where
  "byte_enabled p i \<longleftrightarrow> \<not> isMaskedWrite p \<or> r_byteEnable (p_req p) ! i"

lemma writeData_spec:
  assumes "pkt_ok p" "isMaskedWrite p \<longrightarrow> length (r_byteEnable (p_req p)) = unat (p_size p)"
    "off + unat (p_size p) \<le> length m"
  shows "\<exists>m'. writeData p m off = Inr m' \<and> length m' = length m \<and>
    (\<forall>i < length m. m' ! i = (if off \<le> i \<and> i < off + unat (p_size p) \<and> byte_enabled p (i - off)
       then the (p_data p) ! (i - off) else m ! i))"
proof -
  have g: "get_bytes (the (p_data p)) 0 (unat (p_size p)) = the (p_data p)" using assms(1) by (simp add: get_bytes_def)
  show ?thesis
  proof (cases "isMaskedWrite p")
    case True
    with assms obtain m' where m': "write_enabled (r_byteEnable (p_req p)) (the (p_data p)) off m = Inr m'" "length m' = length m"
      "\<forall>i < length m. m' ! i = (if off \<le> i \<and> i < off + length (the (p_data p)) \<and> r_byteEnable (p_req p) ! (i - off)
         then the (p_data p) ! (i - off) else m ! i)"
      using write_enabled_spec [of "r_byteEnable (p_req p)" "the (p_data p)" off m] by fastforce
    then show ?thesis using True assms by (intro exI [of _ m']) (simp add: writeData_def byte_enabled_def g)
  next
    case False
    then show ?thesis using g assms by (simp add: writeData_def byte_enabled_def nth_put_bytes)
  qed
qed

definition plain_read :: "command \<Rightarrow> bool" where
  "plain_read cmd \<longleftrightarrow> isRead cmd \<and> \<not> isWrite cmd \<and> cmd \<noteq> SwapReq"

definition plain_write :: "command \<Rightarrow> bool" where
  "plain_write cmd \<longleftrightarrow> isWrite cmd \<and> \<not> isRead cmd \<and> \<not> isInvalidate cmd \<and> \<not> isClean cmd \<and> cmd \<noteq> SwapReq"

definition respond :: "packet \<Rightarrow> packet" where
  "respond p = (if needsResponse (p_cmd p)
     then p\<lparr>p_cmd := responseCommand (p_cmd p), p_flags := clearFlags (p_flags p) P_EXPRESS_SNOOP\<rparr> else p)"

lemma respond_eq: "(if needsResponse (p_cmd p) then makeResponse p else Inr p) = Inr (respond p)"
  by (simp add: respond_def makeResponse_ok)

text \<open>The bytes of an array that starts at a base address.\<close>

definition mem_view :: "nat \<Rightarrow> u8 list \<Rightarrow> addr \<Rightarrow> u8 option" where
  "mem_view base m x = (if base \<le> unat x \<and> unat x < base + length m then Some (m ! (unat x - base)) else None)"

lemma mem_view_read:
  assumes "base \<le> unat (p_addr p)" "unat (p_addr p) + unat (p_size p) \<le> base + length m"
    "p_data q = Some (get_bytes m (unat (p_addr p) - base) (unat (p_size p)))"
  shows "load_ok p q (mem_view base m)"
proof -
  have len: "unat (p_addr p) - base + unat (p_size p) \<le> length m" using assms(1,2) by simp
  have "mem_view base m x = Some (the (p_data q) ! (unat x - unat (p_addr p)))" if "pkt_covers p x" for x
  proof -
    have "unat x - unat (p_addr p) < unat (p_size p)" "unat (p_addr p) - base + (unat x - unat (p_addr p)) = unat x - base"
      "base \<le> unat x" "unat x < base + length m"
      using that assms(1,2) by (auto simp: pkt_covers_def)
    then show ?thesis using nth_get_bytes [OF len] by (simp add: mem_view_def assms(3))
  qed
  then show ?thesis using len by (simp add: load_ok_def assms(3))
qed

lemma mem_view_write:
  assumes "pkt_ok p" "\<not> isMaskedWrite p" "base \<le> unat (p_addr p)" "unat (p_addr p) + unat (p_size p) \<le> base + length m"
  shows "\<exists>m'. writeData p m (unat (p_addr p) - base) = Inr m' \<and> length m' = length m \<and> mem_view base m' = store_view p (mem_view base m)"
proof -
  let ?off = "unat (p_addr p) - base"
  have "isMaskedWrite p \<longrightarrow> length (r_byteEnable (p_req p)) = unat (p_size p)" "?off + unat (p_size p) \<le> length m"
    using assms(2-4) by auto
  from writeData_spec [OF assms(1) this] obtain m' where m': "writeData p m ?off = Inr m'" "length m' = length m"
    "\<forall>i < length m. m' ! i = (if ?off \<le> i \<and> i < ?off + unat (p_size p) \<and> byte_enabled p (i - ?off)
       then the (p_data p) ! (i - ?off) else m ! i)" by blast
  have en: "byte_enabled p i" for i using assms(2) by (simp add: byte_enabled_def)
  have "mem_view base m' x = store_view p (mem_view base m) x" for x
  proof (cases "base \<le> unat x \<and> unat x < base + length m")
    case True
    then have "unat x - base < length m" "unat x - base - ?off = unat x - unat (p_addr p)"
      "?off \<le> unat x - base \<longleftrightarrow> unat (p_addr p) \<le> unat x"
      "unat x - base < ?off + unat (p_size p) \<longleftrightarrow> unat x < unat (p_addr p) + unat (p_size p)"
      using assms(3) by auto
    then show ?thesis using m'(2,3) True en by (simp add: mem_view_def store_view_def pkt_covers_def)
  next
    case False
    then show ?thesis using m'(2) assms(3,4) by (auto simp: mem_view_def store_view_def pkt_covers_def)
  qed
  then show ?thesis using m'(1,2) by blast
qed

end
