(* ===== verification/Pci_Bar.thy ===== *)
theory Pci_Bar
  imports Addr_Range
begin

text \<open>
  Model of the base address registers of a PCI function (\<^verbatim>\<open>src/gem5/src/dev/pci/device.hh\<close>,
  \<^verbatim>\<open>PciBar\<close> and its subclasses).  The six objects a device points to are a list; the pointer from the
  upper half of a 64-bit register to its lower half is the index of the lower half in that list.
  The translation a host performs is an interface with the two functions the registers call.
\<close>

section \<open>The host interface seen by a register\<close>

record device_interface =
  pioAddr :: "addr \<Rightarrow> addr"
  memAddr :: "addr \<Rightarrow> addr"
  dmaAddr :: "addr \<Rightarrow> addr"

section \<open>Registers\<close>

datatype pci_bar =
    PciBarNone
  | PciIoBar (io_addr: addr) (io_size: addr)
  | PciLegacyIoBar (lio_addr: addr) (lio_size: addr) (fixedAddr: addr)
  | PciMemBar (mem_addr: addr) (mem_size: addr) (mem_wide: bool) (mem_lower: u64) (mem_upper: u64)
  | PciMemUpperBar (upper_lower: "nat option")

fun bar_addr :: "pci_bar \<Rightarrow> addr" where
  "bar_addr (PciIoBar a _) = a"
| "bar_addr (PciLegacyIoBar a _ _) = a"
| "bar_addr (PciMemBar a _ _ _ _) = a"
| "bar_addr _ = 0"

fun bar_size :: "pci_bar \<Rightarrow> addr" where
  "bar_size (PciIoBar _ s) = s"
| "bar_size (PciLegacyIoBar _ s _) = s"
| "bar_size (PciMemBar _ s _ _ _) = s"
| "bar_size _ = 0"

definition bar_range :: "pci_bar \<Rightarrow> addr_range" where
  "bar_range b = AddrRange (bar_addr b) (bar_addr b + bar_size b)"

fun bar_isMem :: "pci_bar \<Rightarrow> bool" where
  "bar_isMem (PciMemBar _ _ _ _ _) = True"
| "bar_isMem _ = False"

fun bar_isIo :: "pci_bar \<Rightarrow> bool" where
  "bar_isIo (PciIoBar _ _) = True"
| "bar_isIo (PciLegacyIoBar _ _ _) = True"
| "bar_isIo _ = False"

text \<open>The constructors check the size the configuration gives.\<close>

definition PciIoBar_new :: "u32 \<Rightarrow> pci_bar res" where
  "PciIoBar_new sz =
     (let size' = (ucast sz :: addr) in
      if size' = 0 \<or> \<not> isPowerOf2 size' \<or> bit sz 0 \<or> bit sz 1 then Inl Fatal else Inr (PciIoBar 0 size'))"

definition PciLegacyIoBar_new :: "u32 \<Rightarrow> u32 \<Rightarrow> pci_bar" where
  "PciLegacyIoBar_new sz a = PciLegacyIoBar 0 (ucast sz) (ucast a)"

definition PciMemBar_new :: "u64 \<Rightarrow> pci_bar res" where
  "PciMemBar_new sz =
     (let bar = (ucast sz :: u32) in
      if sz = 0 \<or> \<not> isPowerOf2 sz \<or> bit bar 0 \<or> bit bar 1 \<or> bit bar 2 then Inl Fatal
      else Inr (PciMemBar 0 sz False 0 0))"

section \<open>Writes to a register\<close>

definition io_bar_write :: "device_interface \<Rightarrow> u32 \<Rightarrow> addr \<Rightarrow> u32 \<times> pci_bar" where
  "io_bar_write host val sz =
     (let bar = ucast (ucast val AND NOT (sz - 1)) :: u32;
          bar = bar AND NOT 2;
          bar = bar OR 1
      in (bar, PciIoBar (pioAddr host (push_bit 2 (ucast (drop_bit 2 bar)))) sz))"

definition mem_bar_write :: "device_interface \<Rightarrow> u32 \<Rightarrow> addr \<Rightarrow> bool \<Rightarrow> u64 \<Rightarrow> u32 \<times> pci_bar" where
  "mem_bar_write host val sz wide upper =
     (let bar = ucast (ucast val AND NOT (sz - 1)) :: u32;
          bar = (if wide then bar OR 4 else bar AND NOT 4);
          bar = bar AND NOT 2;
          bar = bar AND NOT 1;
          lower = push_bit 3 (ucast (drop_bit 3 bar))
      in (bar, PciMemBar (memAddr host (upper + lower)) sz wide lower upper))"

definition mem_bar_set_upper :: "device_interface \<Rightarrow> u32 \<Rightarrow> pci_bar \<Rightarrow> pci_bar" where
  "mem_bar_set_upper host val b =
     (let upper = push_bit 32 (ucast val)
      in PciMemBar (memAddr host (upper + mem_lower b)) (mem_size b) (mem_wide b) (mem_lower b) upper)"

definition upper_bar_value :: "u32 \<Rightarrow> addr \<Rightarrow> u32" where
  "upper_bar_value val sz = ucast (ucast val AND NOT (drop_bit 32 (sz - 1)))"

definition bar_write :: "device_interface \<Rightarrow> nat \<Rightarrow> u32 \<Rightarrow> pci_bar list \<Rightarrow> (u32 \<times> pci_bar list) res" where
  "bar_write host n val bars =
     (if n \<ge> length bars then Inl Undefined_Behaviour
      else case bars ! n of
        PciBarNone \<Rightarrow> Inr (0, bars)
      | PciIoBar _ sz \<Rightarrow> (let (v, b) = io_bar_write host val sz in Inr (v, bars[n := b]))
      | PciLegacyIoBar _ sz f \<Rightarrow> Inr (0, bars[n := PciLegacyIoBar (pioAddr host f) sz f])
      | PciMemBar _ sz w _ u \<Rightarrow> (let (v, b) = mem_bar_write host val sz w u in Inr (v, bars[n := b]))
      | PciMemUpperBar None \<Rightarrow> Inl Assert_Failed
      | PciMemUpperBar (Some l) \<Rightarrow>
          (let v = upper_bar_value val (bar_size (bars ! l))
           in Inr (v, bars[l := mem_bar_set_upper host v (bars ! l)])))"

text \<open>The lower half of a 64-bit register is told that it has an upper half.\<close>

definition mem_bar_set_wide :: "pci_bar \<Rightarrow> pci_bar" where
  "mem_bar_set_wide b = PciMemBar (mem_addr b) (mem_size b) True (mem_lower b) (mem_upper b)"

fun connect_bars :: "nat \<Rightarrow> pci_bar list \<Rightarrow> pci_bar list res" where
  "connect_bars 0 bars = Inr bars"
| "connect_bars (Suc k) bars =
     (let idx = length bars - Suc k in
      case bars ! idx of
        PciMemUpperBar _ \<Rightarrow>
          if idx = 0 then Inl Fatal
          else (case bars ! (idx - 1) of
              PciMemBar _ _ _ _ _ \<Rightarrow>
                connect_bars k (bars[idx := PciMemUpperBar (Some (idx - 1)),
                                     idx - 1 := mem_bar_set_wide (bars ! (idx - 1))])
            | _ \<Rightarrow> Inl Fatal)
      | _ \<Rightarrow> connect_bars k bars)"

fun write_bars :: "device_interface \<Rightarrow> nat \<Rightarrow> u32 list \<Rightarrow> pci_bar list \<Rightarrow> (u32 list \<times> pci_bar list) res" where
  "write_bars host n [] bars = Inr ([], bars)"
| "write_bars host n (v # vs) bars =
     sbind (bar_write host n v bars) (\<lambda>(r, bars).
     sbind (write_bars host (Suc n) vs bars) (\<lambda>(rs, bars). Inr (r # rs, bars)))"

fun getBAR_from :: "nat \<Rightarrow> pci_bar list \<Rightarrow> addr \<Rightarrow> (nat \<times> addr) option" where
  "getBAR_from i [] a = None"
| "getBAR_from i (bar # bars) a =
     (if contains (bar_range bar) a then Some (i, a - bar_addr bar) else getBAR_from (Suc i) bars a)"

definition getBAR :: "pci_bar list \<Rightarrow> addr \<Rightarrow> (nat \<times> addr) option" where
  "getBAR bars a = getBAR_from 0 bars a"

section \<open>Masks of a power of two\<close>

definition size_ok :: "addr \<Rightarrow> bool" where
  "size_ok sz \<longleftrightarrow> (\<exists>k. 3 \<le> k \<and> k < 64 \<and> sz = 2 ^ k)"

lemma len64: "k < LENGTH(64) \<longleftrightarrow> k < 64"
  by simp

lemma PciMemBar_new_iff: "PciMemBar_new sz = Inr b \<longleftrightarrow> size_ok sz \<and> b = PciMemBar 0 sz False 0 0"
proof (cases "isPowerOf2 sz")
  case True
  then obtain k where k: "k < 64" "sz = 2 ^ k" using isPowerOf2_iff by blast
  have low: "bit (ucast sz :: u32) i \<longleftrightarrow> i = k" if "i < 32" for i
    using that k by (auto simp: bit_ucast_iff bit_exp_iff)
  have inj: "k = j" if "j < 64" "(2 ^ k :: addr) = 2 ^ j" for j
  proof -
    have "unat (2 ^ k :: addr) = 2 ^ k" "unat (2 ^ j :: addr) = 2 ^ j" using k(1) that(1) by (simp_all only: unat_2_power len64)
    then have "(2 :: nat) ^ k = 2 ^ j" by (simp only: that(2))
    then show ?thesis by (simp only: power_inject_exp [of "2 :: nat"] one_less_numeral_iff semiring_norm)
  qed
  then have "size_ok sz \<longleftrightarrow> 3 \<le> k" using k by (auto simp: size_ok_def)
  moreover have "bit (ucast sz :: u32) 0 \<or> bit (ucast sz :: u32) 1 \<or> bit (ucast sz :: u32) 2 \<longleftrightarrow> k < 3"
    using low [of 0] low [of 1] low [of 2] by auto
  moreover have "sz \<noteq> 0" using True by (simp add: isPowerOf2_def)
  ultimately show ?thesis using True by (auto simp: PciMemBar_new_def Let_def)
next
  case False
  then have "\<not> size_ok sz" using isPowerOf2_iff by (auto simp: size_ok_def)
  with False show ?thesis by (simp add: PciMemBar_new_def Let_def)
qed

lemma bit_size_mask: "bit (2 ^ k - 1 :: 'a :: len word) i \<longleftrightarrow> i < k \<and> i < LENGTH('a)"
  by (auto simp: mask_eq_exp_minus_1 [symmetric] bit_mask_iff)

lemmas bar_bits = bit_and_iff bit_or_iff bit_not_iff bit_push_bit_iff bit_drop_bit_eq bit_ucast_iff bit_size_mask

lemma small_bits: "bit (4 :: u32) i \<longleftrightarrow> i = 2" "bit (2 :: u32) i \<longleftrightarrow> i = 1" "bit (1 :: u32) i \<longleftrightarrow> i = 0"
  using bit_exp_iff [of 2 i, where 'a = "32 word"] bit_exp_iff [of 1 i, where 'a = "32 word"]
  by (auto simp: bit_1_iff)

lemma set_low_bits:
  fixes b :: u32
  assumes "\<not> bit b 0" "\<not> bit b 1" "\<not> bit b 2"
  shows "((if w then b OR 4 else b AND NOT 4) AND NOT 2) AND NOT 1 = b OR (if w then 4 else 0)"
proof -
  have "((if w then b OR m4 else b AND NOT m4) AND NOT m2) AND NOT m1 = b OR (if w then m4 else 0)"
    if "\<And>i. bit m4 i \<longleftrightarrow> i = 2" "\<And>i. bit m2 i \<longleftrightarrow> i = 1" "\<And>i. bit m1 i \<longleftrightarrow> i = 0" for m4 m2 m1 :: u32
  proof (rule bit_word_eqI)
    fix i assume "i < LENGTH(32)"
    show "bit (((if w then b OR m4 else b AND NOT m4) AND NOT m2) AND NOT m1) i \<longleftrightarrow> bit (b OR (if w then m4 else 0)) i"
      using assms \<open>i < _\<close> by (cases "i = 0"; cases "i = 1"; cases "i = 2") (simp_all add: that bit_and_iff bit_or_iff bit_not_iff)
  qed
  then show ?thesis using small_bits by blast
qed

lemma mem_bar_write_lower:
  assumes "size_ok sz"
  shows "mem_bar_write host val sz w u =
    (ucast (ucast val AND NOT (sz - 1)) OR (if w then 4 else 0),
     PciMemBar (memAddr host (u + (ucast val AND NOT (sz - 1)))) sz w (ucast val AND NOT (sz - 1)) u)"
proof -
  obtain k where k: "3 \<le> k" "k < 64" "sz = 2 ^ k" using assms by (auto simp: size_ok_def)
  let ?b = "ucast (ucast val AND NOT (sz - 1)) :: u32"
  have lo: "\<not> bit ?b 0" "\<not> bit ?b 1" "\<not> bit ?b 2" using k by (simp_all add: bar_bits)
  define c where "c = ((if w then ?b OR 4 else ?b AND NOT 4) AND NOT 2) AND NOT 1"
  have c: "c = ?b OR (if w then 4 else 0)" unfolding c_def by (rule set_low_bits [OF lo])
  have hi: "bit c j \<longleftrightarrow> bit ?b j" if "3 \<le> j" for j
    using that small_bits(1) [of j] by (auto simp: c bit_or_iff)
  have "push_bit 3 (ucast (drop_bit 3 c)) = (ucast val AND NOT (sz - 1) :: u64)"
  proof (rule bit_word_eqI)
    fix i assume "i < LENGTH(64)"
    show "bit (push_bit 3 (ucast (drop_bit 3 c)) :: u64) i \<longleftrightarrow> bit (ucast val AND NOT (sz - 1)) i"
      using k \<open>i < _\<close> by (cases "i < 3") (auto simp: bar_bits hi dest: bit_imp_le_length)
  qed
  then show ?thesis unfolding mem_bar_write_def Let_def c_def [symmetric] unfolding c by simp
qed

lemma upper_plus_lower:
  assumes "size_ok sz"
  shows "push_bit 32 (ucast (upper_bar_value (ucast (drop_bit 32 a)) sz)) + (ucast (ucast a :: u32) AND NOT (sz - 1)) = (a AND NOT (sz - 1) :: u64)"
proof -
  obtain k where k: "3 \<le> k" "k < 64" "sz = 2 ^ k" using assms by (auto simp: size_ok_def)
  let ?u = "push_bit 32 (ucast (upper_bar_value (ucast (drop_bit 32 a)) sz)) :: u64"
  let ?l = "ucast (ucast a :: u32) AND NOT (sz - 1) :: u64"
  have "?u AND ?l = 0" by (rule bit_word_eqI) (auto simp: bar_bits)
  then have "?u + ?l = ?u OR ?l" by (rule disjunctive_add_eq_or)
  also have "\<dots> = a AND NOT (sz - 1)"
  proof (rule bit_word_eqI)
    fix i assume "i < LENGTH(64)"
    then show "bit (?u OR ?l) i \<longleftrightarrow> bit (a AND NOT (sz - 1)) i"
      using k by (cases "i < 32") (auto simp: upper_bar_value_def bar_bits)
  qed
  finally show ?thesis .
qed

section \<open>Writes to a well-formed set of registers\<close>

text \<open>
  The registers of a device after its construction: memory registers have a legal size, and the
  two halves of a 64-bit register know each other.
\<close>

definition bars_wf :: "pci_bar list \<Rightarrow> bool" where
  "bars_wf bars \<longleftrightarrow> (\<forall>i < length bars. case bars ! i of
     PciMemBar _ sz w _ u \<Rightarrow>
       size_ok sz \<and> (w \<longleftrightarrow> Suc i < length bars \<and> bars ! Suc i = PciMemUpperBar (Some i)) \<and> (\<not> w \<longrightarrow> u = 0)
   | PciMemUpperBar l \<Rightarrow> \<exists>j. i = Suc j \<and> l = Some j \<and> bar_isMem (bars ! j)
   | _ \<Rightarrow> True)"

lemma bar_isMem_cases: "bar_isMem b \<Longrightarrow> \<exists>a sz w l u. b = PciMemBar a sz w l u"
  by (cases b) simp_all

lemma bars_wf_mem:
  "bars_wf bars \<Longrightarrow> i < length bars \<Longrightarrow> bars ! i = PciMemBar a sz w l u \<Longrightarrow>
     size_ok sz \<and> (w \<longleftrightarrow> Suc i < length bars \<and> bars ! Suc i = PciMemUpperBar (Some i)) \<and> (\<not> w \<longrightarrow> u = 0)"
  by (force simp: bars_wf_def)

lemma bars_wf_upper:
  assumes "bars_wf bars" "i < length bars" "bars ! i = PciMemUpperBar l"
  shows "\<exists>j a sz lo u. i = Suc j \<and> l = Some j \<and> bars ! j = PciMemBar a sz True lo u"
proof -
  obtain j where j: "i = Suc j" "l = Some j" "bar_isMem (bars ! j)"
    using assms by (force simp: bars_wf_def)
  then obtain a sz w lo u where b: "bars ! j = PciMemBar a sz w lo u" using bar_isMem_cases by blast
  then have w using bars_wf_mem [OF assms(1), of j] j assms(2,3) by auto
  with j b show ?thesis by simp
qed

text \<open>Only the address state of a register changes; its kind, size and links are fixed.\<close>

fun bar_shape :: "pci_bar \<Rightarrow> pci_bar" where
  "bar_shape (PciIoBar _ s) = PciIoBar 0 s"
| "bar_shape (PciLegacyIoBar _ s f) = PciLegacyIoBar 0 s f"
| "bar_shape (PciMemBar _ s w _ u) = PciMemBar 0 s w 0 (if w then 0 else u)"
| "bar_shape b = b"

lemma bar_shape_size: "bar_shape b = bar_shape b' \<Longrightarrow> bar_size b = bar_size b' \<and> bar_isMem b = bar_isMem b'"
  by (cases b; cases b') auto

lemma bar_shape_upper: "bar_shape b = PciMemUpperBar l \<longleftrightarrow> b = PciMemUpperBar l"
  by (cases b) auto

lemma bar_shape_mem:
  "bar_shape b = bar_shape (PciMemBar a sz w l u) \<longleftrightarrow> (\<exists>a' l' u'. b = PciMemBar a' sz w l' u' \<and> (\<not> w \<longrightarrow> u' = u))"
  by (cases b) auto

lemma bars_wf_shape:
  assumes "map bar_shape bars = map bar_shape bars'"
  shows "bars_wf bars \<longleftrightarrow> bars_wf bars'"
proof -
  have len: "length bars = length bars'" using map_eq_imp_length_eq [OF assms] .
  have sh: "bar_shape (bars ! i) = bar_shape (bars' ! i)" if "i < length bars'" for i
    using assms that len by (metis nth_map)
  have "bars_wf xs" if len: "length xs = length ys" and sh: "\<And>i. i < length ys \<Longrightarrow> bar_shape (xs ! i) = bar_shape (ys ! i)"
    and wf: "bars_wf ys" for xs ys
    unfolding bars_wf_def
  proof (intro allI impI)
    fix i assume i: "i < length xs"
    have up: "xs ! j = PciMemUpperBar l \<longleftrightarrow> ys ! j = PciMemUpperBar l" if "j < length xs" for j l
      using sh [of j] that len bar_shape_upper [of "xs ! j" l] bar_shape_upper [of "ys ! j" l] by simp
    show "case xs ! i of
     PciMemBar _ sz w _ u \<Rightarrow>
       size_ok sz \<and> (w \<longleftrightarrow> Suc i < length xs \<and> xs ! Suc i = PciMemUpperBar (Some i)) \<and> (\<not> w \<longrightarrow> u = 0)
   | PciMemUpperBar l \<Rightarrow> \<exists>j. i = Suc j \<and> l = Some j \<and> bar_isMem (xs ! j)
   | _ \<Rightarrow> True"
    proof (cases "xs ! i")
      case (PciMemBar a sz w l u)
      then obtain a' l' u' where b: "ys ! i = PciMemBar a' sz w l' u'" "\<not> w \<longrightarrow> u' = u"
        using sh [of i] i len by (metis bar_shape_mem)
      from bars_wf_mem [OF wf _ b(1)] b(2) i len PciMemBar up show ?thesis by auto
    next
      case (PciMemUpperBar l)
      with up i have "ys ! i = PciMemUpperBar l" by blast
      from bars_wf_upper [OF wf _ this] i len
      obtain j where j: "i = Suc j" "l = Some j" "bar_isMem (ys ! j)" by auto
      then show ?thesis using PciMemUpperBar bar_shape_size [OF sh [of j]] i len by auto
    qed simp_all
  qed
  from this [of bars bars'] this [of bars' bars] len sh show ?thesis by metis
qed

lemma bar_write_shape:
  assumes "bars_wf bars" "n < length bars"
  shows "\<exists>r bars'. bar_write host n val bars = Inr (r, bars') \<and> map bar_shape bars' = map bar_shape bars"
proof (cases "bars ! n")
  case (PciMemUpperBar l)
  from bars_wf_upper [OF assms this] obtain j a sz lo u where j: "n = Suc j" "l = Some j" "bars ! j = PciMemBar a sz True lo u"
    by blast
  then show ?thesis using PciMemUpperBar assms(2)
    by (auto simp: bar_write_def mem_bar_set_upper_def Let_def map_update intro!: list_update_same_conv [THEN iffD2])
next
  case (PciMemBar a sz w l u)
  then show ?thesis using assms(2)
    by (auto simp: bar_write_def mem_bar_write_def Let_def map_update intro!: list_update_same_conv [THEN iffD2])
qed (use assms(2) in \<open>auto simp: bar_write_def io_bar_write_def Let_def map_update intro!: list_update_same_conv [THEN iffD2]\<close>)

corollary bar_write_wf:
  assumes "bars_wf bars" "bar_write host n val bars = Inr (r, bars')"
  shows "bars_wf bars'" "map bar_shape bars' = map bar_shape bars"
proof -
  have "n < length bars" using assms(2) by (auto simp: bar_write_def split: if_splits)
  then show sh: "map bar_shape bars' = map bar_shape bars" using bar_write_shape [OF assms(1), of n host val] assms(2) by auto
  show "bars_wf bars'" using bars_wf_shape [OF sh] assms(1) by simp
qed

section \<open>Properties\<close>

text \<open>
  Programming both halves of a 64-bit memory register, in either order, moves the region to the
  written address rounded down to a multiple of the size, as translated by the host.
\<close>

lemma wide_bar_programs_address:
  assumes "bars_wf bars" "Suc n < length bars" "bars ! n = PciMemBar a0 sz True l0 u0"
  shows "\<exists>r1 b1 r2 b2. bar_write host n (ucast a) bars = Inr (r1, b1) \<and>
      bar_write host (Suc n) (ucast (drop_bit 32 a)) b1 = Inr (r2, b2) \<and>
      bar_range (b2 ! n) = AddrRange (memAddr host (a AND NOT (sz - 1))) (memAddr host (a AND NOT (sz - 1)) + sz) \<and>
    (\<exists>r1 b1 r2 b2'. bar_write host (Suc n) (ucast (drop_bit 32 a)) bars = Inr (r1, b1) \<and>
      bar_write host n (ucast a) b1 = Inr (r2, b2') \<and> b2' = b2)"
proof -
  have wf: "size_ok sz" "bars ! Suc n = PciMemUpperBar (Some n)" using bars_wf_mem [OF assms(1) _ assms(3)] assms(2) by auto
  note lower = mem_bar_write_lower [OF wf(1)] and sum = upper_plus_lower [OF wf(1), of a]
  show ?thesis using assms(2,3) wf(2)
    by (simp add: bar_write_def lower Let_def mem_bar_set_upper_def bar_range_def sum)
qed

lemma wide_bar_programs_address_witness:
  "\<exists>r1 b1 r2 b2. bar_write \<lparr>pioAddr = id, memAddr = id, dmaAddr = id\<rparr> 0 (ucast (0x123456789 :: u64))
       [PciMemBar 0 0x1000 True 0 0, PciMemUpperBar (Some 0)] = Inr (r1, b1) \<and>
     bar_write \<lparr>pioAddr = id, memAddr = id, dmaAddr = id\<rparr> (Suc 0) (ucast (drop_bit 32 (0x123456789 :: u64))) b1 = Inr (r2, b2) \<and>
     bar_range (b2 ! 0) = AddrRange 0x123456000 0x123457000"
proof -
  have "size_ok 0x1000" by (auto simp: size_ok_def intro!: exI [of _ 12])
  then have "bars_wf [PciMemBar 0 0x1000 True 0 0, PciMemUpperBar (Some 0)]"
    by (auto simp: bars_wf_def less_Suc_eq)
  from wide_bar_programs_address [OF this, of 0 0 "0x1000" 0 0 "\<lparr>pioAddr = id, memAddr = id, dmaAddr = id\<rparr>" "0x123456789"]
  show ?thesis by force
qed

text \<open>
  The sizing protocol: writing all ones to both halves of a 64-bit memory register returns
  values from which the size is recovered by clearing the type bits, inverting and adding one.
\<close>

lemma wide_bar_sizing:
  assumes "bars_wf bars" "Suc n < length bars" "bars ! n = PciMemBar a0 sz True l0 u0" "16 \<le> sz"
  shows "\<exists>lo b1 hi b2. bar_write host n (- 1) bars = Inr (lo, b1) \<and> bar_write host (Suc n) (- 1) b1 = Inr (hi, b2) \<and>
    NOT ((push_bit 32 (ucast hi) OR ucast lo) AND NOT 0xF) + 1 = sz"
proof -
  have wf: "size_ok sz" "bars ! Suc n = PciMemUpperBar (Some n)" using bars_wf_mem [OF assms(1) _ assms(3)] assms(2) by auto
  obtain k where k: "3 \<le> k" "k < 64" "sz = 2 ^ k" using wf(1) by (auto simp: size_ok_def)
  have "4 \<le> k"
  proof (rule ccontr)
    assume "\<not> 4 \<le> k"
    then have "k = 3" using k(1) by simp
    then show False using assms(4) k(3) by simp
  qed
  let ?lo = "ucast (ucast (- 1 :: u32) AND NOT (sz - 1)) OR 4 :: u32" and ?hi = "upper_bar_value (- 1) sz"
  have bits: "bit (0xF :: u64) i \<longleftrightarrow> i < 4" for i
    using bit_mask_iff [of 4 i, where 'a = "64 word"] by (auto simp: mask_eq_exp_minus_1)
  have "(push_bit 32 (ucast ?hi) OR ucast ?lo) AND NOT m = (NOT (sz - 1) :: u64)" if m: "\<And>i. bit m i \<longleftrightarrow> i < 4" for m
  proof (rule bit_word_eqI)
    fix i assume i: "i < LENGTH(64)"
    have "\<not> bit (4 :: u32) i" if "4 \<le> i" using that small_bits(1) [of i] by simp
    then show "bit ((push_bit 32 (ucast ?hi) OR ucast ?lo) AND NOT m) i \<longleftrightarrow> bit (NOT (sz - 1)) i"
      using i k \<open>4 \<le> k\<close>
      by (cases "i < 4"; cases "i < 32") (auto simp: bar_bits m upper_bar_value_def)
  qed
  from this [OF bits] have "NOT ((push_bit 32 (ucast ?hi) OR ucast ?lo) AND NOT 0xF) + 1 = sz" by (simp only: bit.double_compl) simp
  then show ?thesis using assms(2,3) wf(2)
    by (simp add: bar_write_def mem_bar_write_lower [OF wf(1)] Let_def)
qed

lemma wide_bar_sizing_witness:
  "\<exists>lo b1 hi b2. bar_write \<lparr>pioAddr = id, memAddr = id, dmaAddr = id\<rparr> 0 (- 1)
       [PciMemBar 0 0x100000000 True 0 0, PciMemUpperBar (Some 0)] = Inr (lo, b1) \<and>
     bar_write \<lparr>pioAddr = id, memAddr = id, dmaAddr = id\<rparr> (Suc 0) (- 1) b1 = Inr (hi, b2) \<and>
     NOT ((push_bit 32 (ucast hi) OR ucast lo) AND NOT 0xF) + 1 = (0x100000000 :: u64)"
proof -
  have "size_ok 0x100000000" by (auto simp: size_ok_def intro!: exI [of _ 32])
  then have "bars_wf [PciMemBar 0 0x100000000 True 0 0, PciMemUpperBar (Some 0)]"
    by (auto simp: bars_wf_def less_Suc_eq)
  then show ?thesis by (rule wide_bar_sizing) simp_all
qed

end
