(* ===== verification/Pci_Device.thy ===== *)
theory Pci_Device
  imports Pci_Bar Packet
begin

text \<open>
  Model of a PCI function (\<^verbatim>\<open>src/gem5/src/dev/pci/device.hh\<close>, \<^verbatim>\<open>dev/pci/device.cc\<close>,
  \<^verbatim>\<open>dev/pci/pcireg.h\<close>): its configuration space, its base address registers and its capability
  structures.  The union \<^verbatim>\<open>PCIConfig\<close> is its 64 bytes; the named fields are accesses to them in the
  little-endian order of the host.  A change of the address ranges that the device announces to its
  port is a component of the result.
\<close>

section \<open>Configuration space layout\<close>

abbreviation (input) PCI_COMMAND :: nat where "PCI_COMMAND \<equiv> 0x04"
abbreviation (input) PCI_STATUS :: nat where "PCI_STATUS \<equiv> 0x06"
abbreviation (input) PCI_REVISION_ID :: nat where "PCI_REVISION_ID \<equiv> 0x08"
abbreviation (input) PCI_CLASS_CODE :: nat where "PCI_CLASS_CODE \<equiv> 0x09"
abbreviation (input) PCI_CACHE_LINE_SIZE :: nat where "PCI_CACHE_LINE_SIZE \<equiv> 0x0C"
abbreviation (input) PCI_LATENCY_TIMER :: nat where "PCI_LATENCY_TIMER \<equiv> 0x0D"
abbreviation (input) PCI0_BASE_ADDR0 :: nat where "PCI0_BASE_ADDR0 \<equiv> 0x10"
abbreviation (input) PCI0_BASE_ADDR5 :: nat where "PCI0_BASE_ADDR5 \<equiv> 0x24"
abbreviation (input) PCI0_ROM_BASE_ADDR :: nat where "PCI0_ROM_BASE_ADDR \<equiv> 0x30"
abbreviation (input) PCI0_INTERRUPT_LINE :: nat where "PCI0_INTERRUPT_LINE \<equiv> 0x3C"
abbreviation (input) PCI0_INTERRUPT_PIN :: nat where "PCI0_INTERRUPT_PIN \<equiv> 0x3D"
abbreviation (input) PCI0_MINIMUM_GRANT :: nat where "PCI0_MINIMUM_GRANT \<equiv> 0x3E"
abbreviation (input) PCI0_MAXIMUM_LATENCY :: nat where "PCI0_MAXIMUM_LATENCY \<equiv> 0x3F"
abbreviation (input) PCI_DEVICE_SPECIFIC :: nat where "PCI_DEVICE_SPECIFIC \<equiv> 0x40"
abbreviation (input) PCI_CONFIG_SIZE :: nat where "PCI_CONFIG_SIZE \<equiv> 0xFF"

definition cfg_get :: "nat \<Rightarrow> nat \<Rightarrow> u8 list \<Rightarrow> u64" where
  "cfg_get off n cfg = le_val (get_bytes cfg off n)"

definition cfg_put :: "nat \<Rightarrow> nat \<Rightarrow> u64 \<Rightarrow> u8 list \<Rightarrow> u8 list" where
  "cfg_put off n v cfg = put_bytes cfg off (le_bytes n v)"

section \<open>State\<close>

record pci_bus_addr =
  bus :: u8
  dev :: u8
  func :: u8

record pm_cap =
  pm_pid :: u16
  pm_pc :: u16
  pm_pmcs :: u16

record msi_cap =
  msi_mid :: u16
  msi_mc :: u16
  msi_ma :: u32
  msi_mua :: u32
  msi_md :: u16
  msi_mmask :: u32
  msi_mpend :: u32

record msix_cap =
  msix_mxid :: u16
  msix_mxc :: u16
  msix_mtab :: u32
  msix_mpba :: u32

record msix_entry =
  addr_lo :: u32
  addr_hi :: u32
  msg_data :: u32
  vec_ctrl :: u32

record px_cap =
  px_pxid :: u16
  px_pxcap :: u16
  px_pxdcap :: u32
  px_pxdc :: u16
  px_pxds :: u16
  px_pxlcap :: u32
  px_pxlc :: u16
  px_pxls :: u16
  px_pxdcap2 :: u32
  px_pxdc2 :: u32

record pci_params =
  par_busAddr :: pci_bus_addr
  par_bars :: "pci_bar list"
  VendorID :: u16
  DeviceID :: u16
  Command :: u16
  Status :: u16
  Revision :: u8
  ProgIF :: u8
  SubClassCode :: u8
  ClassCode :: u8
  CacheLineSize :: u8
  LatencyTimer :: u8
  HeaderType :: u8
  BIST :: u8
  CardbusCIS :: u32
  SubsystemVendorID :: u16
  SubsystemID :: u16
  ExpansionROM :: u32
  CapabilityPtr :: u8
  InterruptLine :: u8
  InterruptPin :: u8
  MinimumGrant :: u8
  MaximumLatency :: u8
  PMCAPCapId :: u8
  PMCAPNextCapability :: u8
  PMCAPCapabilities :: u16
  PMCAPCtrlStatus :: u16
  MSICAPCapId :: u8
  MSICAPNextCapability :: u8
  par_msicap :: msi_cap
  MSIXCAPBaseOffset :: u8
  MSIXCAPCapId :: u8
  MSIXCAPNextCapability :: u8
  MSIXMsgCtrl :: u16
  MSIXTableOffset :: u32
  MSIXPbaOffset :: u32
  PXCAPCapId :: u8
  PXCAPNextCapability :: u8
  par_pxcap :: px_cap
  par_pio_latency :: tick
  par_config_latency :: tick

record pci_device =
  d_busAddr :: pci_bus_addr
  d_config :: "u8 list"
  d_pmcap :: pm_cap
  d_msicap :: msi_cap
  d_MSIXCAP_BASE :: u8
  MSIX_TABLE_OFFSET :: u32
  MSIX_TABLE_END :: u32
  MSIX_PBA_OFFSET :: u32
  MSIX_PBA_END :: u32
  d_msixcap :: msix_cap
  d_pxcap :: px_cap
  msix_table :: "msix_entry list"
  msix_pba :: "u64 list"
  BARs :: "pci_bar list"
  hostInterface :: device_interface
  pioDelay :: tick
  configDelay :: tick

section \<open>Construction\<close>

definition pci_config_init :: "pci_params \<Rightarrow> u32 list \<Rightarrow> u8 list" where
  "pci_config_init p base_addrs =
     le_bytes 2 (ucast (VendorID p)) @ le_bytes 2 (ucast (DeviceID p)) @
     le_bytes 2 (ucast (Command p)) @ le_bytes 2 (ucast (Status p)) @
     [Revision p, ProgIF p, SubClassCode p, ClassCode p,
      CacheLineSize p, LatencyTimer p, HeaderType p, BIST p] @
     concat (map (\<lambda>v. le_bytes 4 (ucast v)) base_addrs) @
     le_bytes 4 (ucast (CardbusCIS p)) @ le_bytes 2 (ucast (SubsystemVendorID p)) @
     le_bytes 2 (ucast (SubsystemID p)) @ le_bytes 4 (ucast (ExpansionROM p)) @
     [CapabilityPtr p] @ replicate 7 0 @
     [InterruptLine p, InterruptPin p, MinimumGrant p, MaximumLatency p]"

text \<open>The number of vectors and the size of the pending bit array of the MSI-X capability.\<close>

definition msix_vecs :: "u16 \<Rightarrow> nat" where
  "msix_vecs mxc = unat (mxc AND 0x07ff) + 1"

definition msix_pba_size :: "nat \<Rightarrow> nat" where
  "msix_pba_size vecs = vecs div 64 + (if vecs mod 64 > 0 then 1 else 0)"

definition PciDevice_new :: "device_interface \<Rightarrow> pci_params \<Rightarrow> pci_device res" where
  "PciDevice_new host p =
     (if InterruptPin p \<ge> 5 then Inl Fatal else
      sbind (connect_bars (length (par_bars p)) (par_bars p)) (\<lambda>bars.
      sbind (write_bars host 0 (replicate (length bars) 0) bars) (\<lambda>(base_addrs, bars).
        (let vecs = msix_vecs (MSIXMsgCtrl p);
             used = MSIXCAPBaseOffset p \<noteq> 0;
             table_off = MSIXTableOffset p AND 0xfffffffc;
             pba_off = MSIXPbaOffset p AND 0xfffffffc
         in Inr \<lparr>d_busAddr = par_busAddr p,
              d_config = pci_config_init p base_addrs,
              d_pmcap = \<lparr>pm_pid = ucast (PMCAPCapId p) OR push_bit 8 (ucast (PMCAPNextCapability p)),
                         pm_pc = PMCAPCapabilities p, pm_pmcs = PMCAPCtrlStatus p\<rparr>,
              d_msicap = (par_msicap p)
                \<lparr>msi_mid := ucast (MSICAPCapId p) OR push_bit 8 (ucast (MSICAPNextCapability p))\<rparr>,
              d_MSIXCAP_BASE = MSIXCAPBaseOffset p,
              MSIX_TABLE_OFFSET = table_off,
              MSIX_TABLE_END = table_off + of_nat vecs * 16,
              MSIX_PBA_OFFSET = pba_off,
              MSIX_PBA_END = pba_off + of_nat (msix_pba_size vecs) * 8,
              d_msixcap = \<lparr>msix_mxid = ucast (MSIXCAPCapId p) OR push_bit 8 (ucast (MSIXCAPNextCapability p)),
                           msix_mxc = MSIXMsgCtrl p, msix_mtab = MSIXTableOffset p, msix_mpba = MSIXPbaOffset p\<rparr>,
              d_pxcap = (par_pxcap p)
                \<lparr>px_pxid := ucast (PXCAPCapId p) OR push_bit 8 (ucast (PXCAPNextCapability p))\<rparr>,
              msix_table = (if used then replicate vecs \<lparr>addr_lo = 0, addr_hi = 0, msg_data = 0, vec_ctrl = 0\<rparr> else []),
              msix_pba = (if used then replicate (msix_pba_size vecs) 0 else []),
              BARs = bars, hostInterface = host,
              pioDelay = par_pio_latency p, configDelay = par_config_latency p\<rparr>))))"

section \<open>Operations\<close>

definition interruptLine :: "pci_device \<Rightarrow> u8" where
  "interruptLine d = d_config d ! PCI0_INTERRUPT_LINE"

definition pciToDma :: "pci_device \<Rightarrow> addr \<Rightarrow> addr" where
  "pciToDma d a = dmaAddr (hostInterface d) a"

definition makeAtomicResponse :: "packet \<Rightarrow> packet res" where
  "makeAtomicResponse p = makeResponse p"

definition config_offset :: "addr \<Rightarrow> nat" where
  "config_offset a = unat (a AND 0xFF)"

text \<open>
  An access beyond the 64 bytes of the union is undefined: the first switch of the source only
  prepares a zero, the second one reads the array in any case.
\<close>

definition readConfig_data :: "nat \<Rightarrow> nat \<Rightarrow> pci_device \<Rightarrow> packet \<Rightarrow> packet res" where
  "readConfig_data offset n d pkt =
     (if offset + n \<le> 64 then setLE n (cfg_get offset n (d_config d)) pkt else Inl Undefined_Behaviour)"

definition readConfig :: "packet \<Rightarrow> pci_device \<Rightarrow> (tick \<times> packet) res" where
  "readConfig pkt d =
     sbind (getAddr pkt) (\<lambda>a. sbind (getSize pkt) (\<lambda>sz.
       (let offset = config_offset a; n = unat sz
        in sbind (if PCI_DEVICE_SPECIFIC \<le> offset \<and> offset < PCI_CONFIG_SIZE
                  then if n \<in> {1, 2, 4} then setLE n 0 pkt else Inl Panic
                  else if offset > PCI_CONFIG_SIZE then Inl Panic else Inr pkt) (\<lambda>pkt.
           sbind (if n \<in> {1, 2, 4} then readConfig_data offset n d pkt else Inl Panic) (\<lambda>pkt.
           sbind (makeAtomicResponse pkt) (\<lambda>pkt. Inr (configDelay d, pkt)))))))"

definition command_reg :: "pci_device \<Rightarrow> u16" where
  "command_reg d = ucast (cfg_get PCI_COMMAND 2 (d_config d))"

definition getAddrRanges :: "pci_device \<Rightarrow> addr_range list" where
  "getAddrRanges d =
     concat (map (\<lambda>bar. (if bit (command_reg d) 0 \<and> bar_isIo bar then [bar_range bar] else []) @
                        (if bit (command_reg d) 1 \<and> bar_isMem bar then [bar_range bar] else [])) (BARs d))"

text \<open>The registers a write of one, two and four bytes changes; the flag says that the ranges changed.\<close>

definition writeConfig1 :: "nat \<Rightarrow> packet \<Rightarrow> pci_device \<Rightarrow> (pci_device \<times> bool) res" where
  "writeConfig1 offset pkt d =
     (if offset \<in> {PCI0_INTERRUPT_LINE, PCI_CACHE_LINE_SIZE, PCI_LATENCY_TIMER} then
        sbind (getLE 1 pkt) (\<lambda>v. Inr (d\<lparr>d_config := cfg_put offset 1 v (d_config d)\<rparr>, False))
      else if offset \<in> {PCI0_INTERRUPT_PIN, PCI0_MINIMUM_GRANT, PCI0_MAXIMUM_LATENCY, PCI_CLASS_CODE, PCI_REVISION_ID}
        then Inr (d, False)
      else Inl Panic)"

definition writeConfig2 :: "nat \<Rightarrow> packet \<Rightarrow> pci_device \<Rightarrow> (pci_device \<times> bool) res" where
  "writeConfig2 offset pkt d =
     (if offset \<in> {PCI_COMMAND, PCI_STATUS} then
        sbind (getLE 1 pkt) (\<lambda>v. Inr (d\<lparr>d_config := cfg_put offset 2 v (d_config d)\<rparr>, offset = PCI_COMMAND))
      else if offset = PCI_CACHE_LINE_SIZE then
        sbind (getLE 1 pkt) (\<lambda>v. Inr (d\<lparr>d_config := cfg_put offset 1 v (d_config d)\<rparr>, False))
      else Inl Panic)"

definition writeConfig4 :: "nat \<Rightarrow> packet \<Rightarrow> pci_device \<Rightarrow> (pci_device \<times> bool) res" where
  "writeConfig4 offset pkt d =
     (if offset \<in> {0x10, 0x14, 0x18, 0x1C, 0x20, 0x24} then
        (let num = (offset - PCI0_BASE_ADDR0) div 4 in
         sbind (getLE 4 pkt) (\<lambda>v.
         sbind (bar_write (hostInterface d) num (ucast v) (BARs d)) (\<lambda>(r, bars).
         Inr (d\<lparr>BARs := bars, d_config := cfg_put offset 4 (ucast r) (d_config d)\<rparr>, True))))
      else if offset = PCI0_ROM_BASE_ADDR then
        sbind (getLE 4 pkt) (\<lambda>v.
          Inr (d\<lparr>d_config := cfg_put offset 4 (if v = 0xfffffffe then 0xffffffff else v) (d_config d)\<rparr>, False))
      else if offset = PCI_COMMAND then
        sbind (getLE 4 pkt) (\<lambda>v. Inr (d\<lparr>d_config := cfg_put offset 2 v (d_config d)\<rparr>, True))
      else Inr (d, False))"

definition writeConfig :: "packet \<Rightarrow> pci_device \<Rightarrow> (tick \<times> packet \<times> pci_device \<times> bool) res" where
  "writeConfig pkt d =
     sbind (getAddr pkt) (\<lambda>a. sbind (getSize pkt) (\<lambda>sz.
       (let offset = config_offset a; n = unat sz
        in sbind (if PCI_DEVICE_SPECIFIC \<le> offset \<and> offset < PCI_CONFIG_SIZE
                  then if n \<in> {1, 2, 4} then Inr () else Inl Panic
                  else if offset > PCI_CONFIG_SIZE then Inl Panic else Inr ()) (\<lambda>_.
           sbind (if n = 1 then writeConfig1 offset pkt d
                  else if n = 2 then writeConfig2 offset pkt d
                  else if n = 4 then writeConfig4 offset pkt d
                  else Inl Panic) (\<lambda>(d, changed).
           sbind (makeAtomicResponse pkt) (\<lambda>pkt. Inr (configDelay d, pkt, d, changed)))))))"

section \<open>Lemmas\<close>

definition device_wf :: "pci_device \<Rightarrow> bool" where
  "device_wf d \<longleftrightarrow> length (d_config d) = 64 \<and> length (BARs d) = 6 \<and> bars_wf (BARs d)"

text \<open>The bytes software can change: command, status, cache line size, latency timer, the base
  address registers, the expansion ROM register and the interrupt line.\<close>

definition writable_bytes :: "nat set" where
  "writable_bytes = {4..<8} \<union> {0xC, 0xD} \<union> {0x10..<0x28} \<union> {0x30..<0x34} \<union> {0x3C}"

lemma length_cfg_put [simp]: "off + n \<le> length cfg \<Longrightarrow> length (cfg_put off n v cfg) = length cfg"
  by (simp add: cfg_put_def)

lemma cfg_put_other:
  "off + n \<le> length cfg \<Longrightarrow> i < length cfg \<Longrightarrow> i \<notin> {off..<off + n} \<Longrightarrow> cfg_put off n v cfg ! i = cfg ! i"
  by (auto simp: cfg_put_def nth_put_bytes)

lemma cfg_get_put: "off + n \<le> length cfg \<Longrightarrow> n \<le> 8 \<Longrightarrow> cfg_get off n (cfg_put off n v cfg) = take_bit (8 * n) v"
  using get_put_bytes_same [of off "le_bytes n v" cfg] by (simp add: cfg_get_def cfg_put_def le_val_bytes)

text \<open>What a successful write of the configuration space keeps.\<close>

definition config_step :: "pci_device \<Rightarrow> pci_device \<Rightarrow> bool" where
  "config_step d d' \<longleftrightarrow> length (d_config d') = 64 \<and>
     (\<forall>i < 64. i \<notin> writable_bytes \<longrightarrow> d_config d' ! i = d_config d ! i) \<and>
     bars_wf (BARs d') \<and> map bar_shape (BARs d') = map bar_shape (BARs d) \<and>
     hostInterface d' = hostInterface d \<and> configDelay d' = configDelay d"

lemma config_step_put:
  assumes "device_wf d" "{off..<off + n} \<subseteq> writable_bytes" "off + n \<le> 64"
  shows "config_step d (d\<lparr>d_config := cfg_put off n v (d_config d)\<rparr>)"
proof -
  have "i \<notin> {off..<off + n}" if "i \<notin> writable_bytes" for i using assms(2) that by blast
  then show ?thesis using assms(1,3) by (simp add: config_step_def device_wf_def cfg_put_other)
qed

lemma config_step_refl: "device_wf d \<Longrightarrow> config_step d d"
  by (simp add: config_step_def device_wf_def)

lemma writeConfig1_step: "device_wf d \<Longrightarrow> writeConfig1 off pkt d = Inr (d', c) \<Longrightarrow> config_step d d'"
  by (auto simp: writeConfig1_def res_simps writable_bytes_def intro!: config_step_put config_step_refl split: if_splits)

lemma writeConfig2_step: "device_wf d \<Longrightarrow> writeConfig2 off pkt d = Inr (d', c) \<Longrightarrow> config_step d d'"
  by (auto simp: writeConfig2_def res_simps writable_bytes_def intro!: config_step_put config_step_refl split: if_splits)

lemma writeConfig4_step:
  assumes "device_wf d" "writeConfig4 off pkt d = Inr (d', c)"
  shows "config_step d d'"
proof (cases "off \<in> {0x10, 0x14, 0x18, 0x1C, 0x20, 0x24}")
  case True
  then obtain v r bars where w: "bar_write (hostInterface d) ((off - 0x10) div 4) (ucast (v :: u64)) (BARs d) = Inr (r, bars)"
    and d': "d' = d\<lparr>BARs := bars, d_config := cfg_put off 4 (ucast r) (d_config d)\<rparr>"
    using assms(2) by (auto simp: writeConfig4_def res_simps Let_def)
  have "config_step d (d\<lparr>d_config := cfg_put off 4 (ucast r) (d_config d)\<rparr>)"
    using True by (intro config_step_put assms(1)) (auto simp: writable_bytes_def)
  then show ?thesis using bar_write_wf [OF _ w] assms(1) by (simp add: config_step_def device_wf_def d')
next
  case False
  then show ?thesis using assms
    by (auto simp: writeConfig4_def res_simps writable_bytes_def intro!: config_step_put config_step_refl split: if_splits)
qed

lemma writeConfig_step:
  assumes "device_wf d" "writeConfig pkt d = Inr (t, pkt', d', c)"
  shows "config_step d d'"
proof -
  obtain off where "writeConfig1 off pkt d = Inr (d', c) \<or> writeConfig2 off pkt d = Inr (d', c) \<or> writeConfig4 off pkt d = Inr (d', c)"
    using assms(2) by (auto simp: writeConfig_def res_simps Let_def split: if_splits)
  then show ?thesis using writeConfig1_step writeConfig2_step writeConfig4_step assms(1) by blast
qed

lemma config_step_wf:
  assumes "device_wf d" "config_step d d'"
  shows "device_wf d'"
proof -
  have "length (BARs d') = length (BARs d)"
    using assms(2) map_eq_imp_length_eq [of bar_shape "BARs d'" bar_shape "BARs d"] by (simp add: config_step_def)
  then show ?thesis using assms by (simp add: device_wf_def config_step_def)
qed

section \<open>The construction connects the registers\<close>

fun bar_fresh :: "pci_bar \<Rightarrow> bool" where
  "bar_fresh (PciMemBar a sz w l u) \<longleftrightarrow> size_ok sz \<and> \<not> w \<and> u = 0"
| "bar_fresh (PciMemUpperBar l) \<longleftrightarrow> l = None"
| "bar_fresh _ \<longleftrightarrow> True"

definition bar_linked :: "nat \<Rightarrow> pci_bar list \<Rightarrow> nat \<Rightarrow> bool" where
  "bar_linked n bars i \<longleftrightarrow> (case bars ! i of
        PciMemBar _ sz w _ u \<Rightarrow> size_ok sz \<and> (w \<longleftrightarrow> Suc i < n \<and> bars ! Suc i = PciMemUpperBar (Some i)) \<and> (\<not> w \<longrightarrow> u = 0)
      | PciMemUpperBar l \<Rightarrow> \<exists>j. i = Suc j \<and> l = Some j \<and> bar_isMem (bars ! j)
      | _ \<Rightarrow> True)"

definition connected :: "nat \<Rightarrow> pci_bar list \<Rightarrow> bool" where
  "connected n bars \<longleftrightarrow> (\<forall>i < length bars. n \<le> i \<longrightarrow> bar_fresh (bars ! i)) \<and> (\<forall>i < n. bar_linked n bars i)"

lemma connected_all: "connected (length bars) bars \<longleftrightarrow> bars_wf bars"
  by (simp add: connected_def bars_wf_def bar_linked_def)

lemma bar_linked_cong:
  assumes "bars ! i = bars' ! i" "\<forall>j. i = Suc j \<longrightarrow> bar_isMem (bars ! j) = bar_isMem (bars' ! j)"
    "bar_isMem (bars ! i) \<longrightarrow> (Suc i < n \<and> bars ! Suc i = PciMemUpperBar (Some i) \<longleftrightarrow> Suc i < n' \<and> bars' ! Suc i = PciMemUpperBar (Some i))"
  shows "bar_linked n bars i \<longleftrightarrow> bar_linked n' bars' i"
  using assms by (cases "bars' ! i") (auto simp: bar_linked_def)

lemma connected_skip:
  assumes c: "connected n bars" "n < length bars" and nu: "\<And>l. bars ! n \<noteq> PciMemUpperBar l"
  shows "connected (Suc n) bars"
proof -
  have fresh: "bar_fresh (bars ! n)" using c by (simp add: connected_def)
  have "bar_linked (Suc n) bars i" if "i < Suc n" for i
  proof (cases "i = n")
    case True
    then show ?thesis using fresh nu by (cases "bars ! n") (auto simp: bar_linked_def)
  next
    case False
    then have "bar_linked n bars i" using that c(1) by (simp add: connected_def)
    moreover have "bar_linked n bars i \<longleftrightarrow> bar_linked (Suc n) bars i"
      using nu that False by (intro bar_linked_cong) (auto simp: less_Suc_eq)
    ultimately show ?thesis by blast
  qed
  then show ?thesis using c(1) by (simp add: connected_def)
qed

lemma connected_join:
  assumes c: "connected (Suc n) bars" "Suc n < length bars" and up: "bars ! Suc n = PciMemUpperBar l"
    and lo: "bars ! n = PciMemBar a sz w lo u"
  shows "connected (Suc (Suc n)) (bars[Suc n := PciMemUpperBar (Some n), n := PciMemBar a sz True lo u])"
proof -
  let ?b = "bars[Suc n := PciMemUpperBar (Some n), n := PciMemBar a sz True lo u]"
  have "bar_linked (Suc n) bars n" using c(1) by (simp add: connected_def)
  then have sz: "size_ok sz" using lo by (simp add: bar_linked_def)
  have "bar_linked (Suc (Suc n)) ?b i" if "i < Suc (Suc n)" for i
  proof (cases "i < n")
    case True
    then have "bar_linked (Suc n) bars i" using c(1) by (simp add: connected_def)
    moreover have "bar_linked (Suc n) bars i \<longleftrightarrow> bar_linked (Suc (Suc n)) ?b i"
      using True c(2) lo by (intro bar_linked_cong) (auto simp: nth_list_update)
    ultimately show ?thesis by blast
  next
    case False
    then have "i = n \<or> i = Suc n" using that by auto
    then show ?thesis using sz c(2) by (auto simp: bar_linked_def)
  qed
  moreover have "bar_fresh (?b ! i)" if "i < length ?b" "Suc (Suc n) \<le> i" for i
    using that c(1) by (simp add: connected_def)
  ultimately show ?thesis by (simp add: connected_def)
qed

lemma connect_bars_step:
  assumes "connect_bars (Suc k) bars = Inr bars'" "Suc k \<le> length bars" "connected (length bars - Suc k) bars"
  shows "\<exists>b. connect_bars k b = Inr bars' \<and> length b = length bars \<and> connected (length bars - k) b"
proof -
  let ?i = "length bars - Suc k"
  have i: "?i < length bars" "length bars - k = Suc ?i" using assms(2) by auto
  show ?thesis
  proof (cases "\<exists>l. bars ! ?i = PciMemUpperBar l")
    case True
    then obtain l where l: "bars ! ?i = PciMemUpperBar l" ..
    with assms(1) have nz: "?i \<noteq> 0" by (auto simp: Let_def)
    then obtain j where j: "?i = Suc j" by (cases ?i) auto
    obtain a sz w lo u where lo: "bars ! j = PciMemBar a sz w lo u"
      using assms(1) l j by (cases "bars ! j") (auto simp: Let_def)
    have rec: "connect_bars k (bars[Suc j := PciMemUpperBar (Some j), j := PciMemBar a sz True lo u]) = Inr bars'"
      using assms(1) l j lo by (simp add: Let_def mem_bar_set_wide_def)
    show ?thesis
      using rec connected_join [of j bars l a sz w lo u] assms(3) i l j lo by auto
  next
    case False
    then have "connect_bars k bars = Inr bars'" using assms(1) by (cases "bars ! ?i") (auto simp: Let_def)
    moreover have "connected (Suc ?i) bars" using connected_skip [OF assms(3) i(1)] False by blast
    ultimately show ?thesis using i(2) by auto
  qed
qed

lemma connect_bars_connected:
  assumes "connect_bars k bars = Inr bars'" "k \<le> length bars" "connected (length bars - k) bars"
  shows "connected (length bars) bars' \<and> length bars' = length bars"
  using assms
proof (induction k arbitrary: bars)
  case (Suc k)
  from connect_bars_step [OF Suc.prems] obtain b
    where b: "connect_bars k b = Inr bars'" "length b = length bars" "connected (length bars - k) b" by blast
  show ?case using Suc.IH [OF b(1)] b Suc.prems(2) by simp
qed simp

lemma write_bars_wf:
  assumes "bars_wf bars" "write_bars host n vs bars = Inr (rs, bars')"
  shows "bars_wf bars' \<and> length bars' = length bars \<and> length rs = length vs"
  using assms
proof (induction host n vs bars arbitrary: rs rule: write_bars.induct)
  case (2 host n v vs bars)
  obtain r b rs' where b: "bar_write host n v bars = Inr (r, b)" "write_bars host (Suc n) vs b = Inr (rs', bars')" "rs = r # rs'"
    using 2(3) by (auto simp: res_simps)
  from bar_write_wf [OF 2(2) b(1)] have wf: "bars_wf b" "length b = length bars"
    using map_eq_imp_length_eq by blast+
  have "bars_wf bars' \<and> length bars' = length b \<and> length rs' = length vs"
    using 2(1) [OF wf(1) b(2)] .
  then show ?case using b(3) wf(2) by simp
qed simp

lemma PciDevice_new_wf:
  assumes "PciDevice_new host p = Inr d" "length (par_bars p) = 6" "\<forall>b\<in>set (par_bars p). bar_fresh b"
  shows "device_wf d \<and> hostInterface d = host"
proof -
  obtain bars base bars' where c: "connect_bars (length (par_bars p)) (par_bars p) = Inr bars"
    "write_bars host 0 (replicate (length bars) 0) bars = Inr (base, bars')"
    and d: "d_config d = pci_config_init p base" "BARs d = bars'" "hostInterface d = host"
    using assms(1) by (auto simp: PciDevice_new_def res_simps Let_def split: if_splits)
  have "connected 0 (par_bars p)" using assms(3) by (simp add: connected_def)
  with connect_bars_connected [OF c(1)] have wf: "bars_wf bars" "length bars = 6"
    using assms(2) connected_all [of bars] by auto
  from write_bars_wf [OF wf(1) c(2)] wf(2) have "bars_wf bars'" "length bars' = 6" "length base = 6" by auto
  moreover have "length (concat (map (\<lambda>v. le_bytes 4 (ucast v)) base)) = 24"
    using \<open>length base = 6\<close> by (simp add: length_concat comp_def sum_list_triv)
  ultimately show ?thesis using d by (simp add: device_wf_def pci_config_init_def)
qed

section \<open>Accesses with data packets\<close>

lemma data_packet_access [simp]:
  assumes "length bs < 2 ^ 32"
  shows "getAddr (data_packet c a bs) = Inr a" "getSize (data_packet c a bs) = Inr (of_nat (length bs))"
    "n \<le> length bs \<Longrightarrow> getLE n (data_packet c a bs) = Inr (le_val (take n bs))"
    "n \<le> length bs \<Longrightarrow> setLE n v (data_packet c a bs) = Inr ((data_packet c a bs)\<lparr>p_data := Some (put_bytes bs 0 (le_bytes n v))\<rparr>)"
  using assms by (auto simp: getAddr_def getSize_def getLE_def setLE_def getRaw_def setRaw_def data_packet_def
    isSet_def unat_of_nat take_bit_nat_eq_self get_bytes_def packet_init_def res_simps sassert_def)

lemma makeResponse_data_packet:
  "c = ReadReq \<or> c = WriteReq \<Longrightarrow> p_cmd p = c \<Longrightarrow>
   makeAtomicResponse p = Inr (p\<lparr>p_cmd := responseCommand c, p_flags := clearFlags (p_flags p) P_EXPRESS_SNOOP\<rparr>)"
  using makeResponse_ok [of p] by (auto simp: makeAtomicResponse_def cmd_predicates)

section \<open>Properties\<close>

text \<open>
  C39: A device constructed from six fresh registers is well formed: 64 bytes of configuration
  space, six registers, every memory register of a legal size, both halves of every 64-bit register
  connected to each other.
\<close>

theorem construction_establishes_wf:
  assumes "PciDevice_new host p = Inr d" "length (par_bars p) = 6" "\<forall>b\<in>set (par_bars p). bar_fresh b"
  shows "device_wf d"
  using PciDevice_new_wf [OF assms] by blast

definition sample_params :: pci_params where
  "sample_params = \<lparr>par_busAddr = \<lparr>bus = 0, dev = 6, func = 0\<rparr>,
     par_bars = [PciMemBar 0 0x10000 False 0 0, PciMemUpperBar None, PciBarNone, PciBarNone, PciBarNone, PciBarNone],
     VendorID = 0x8086, DeviceID = 0x7890, Command = 0, Status = 0x280, Revision = 0, ProgIF = 0, SubClassCode = 0,
     ClassCode = 5, CacheLineSize = 0, LatencyTimer = 0, HeaderType = 0, BIST = 0, CardbusCIS = 0,
     SubsystemVendorID = 0, SubsystemID = 0, ExpansionROM = 0, CapabilityPtr = 0, InterruptLine = 31,
     InterruptPin = 1, MinimumGrant = 0, MaximumLatency = 0, PMCAPCapId = 0, PMCAPNextCapability = 0,
     PMCAPCapabilities = 0, PMCAPCtrlStatus = 0, MSICAPCapId = 0, MSICAPNextCapability = 0,
     par_msicap = \<lparr>msi_mid = 0, msi_mc = 0, msi_ma = 0, msi_mua = 0, msi_md = 0, msi_mmask = 0, msi_mpend = 0\<rparr>,
     MSIXCAPBaseOffset = 0, MSIXCAPCapId = 0, MSIXCAPNextCapability = 0, MSIXMsgCtrl = 0, MSIXTableOffset = 0,
     MSIXPbaOffset = 0, PXCAPCapId = 0, PXCAPNextCapability = 0,
     par_pxcap = \<lparr>px_pxid = 0, px_pxcap = 0, px_pxdcap = 0, px_pxdc = 0, px_pxds = 0, px_pxlcap = 0,
                  px_pxlc = 0, px_pxls = 0, px_pxdcap2 = 0, px_pxdc2 = 0\<rparr>,
     par_pio_latency = 30000, par_config_latency = 20000\<rparr>"

definition sample_host :: device_interface where
  "sample_host = \<lparr>pioAddr = \<lambda>a. 0x2f000000 + a, memAddr = \<lambda>a. a, dmaAddr = \<lambda>a. a\<rparr>"

lemma size_ok_sample: "size_ok 0x10000"
  by (auto simp: size_ok_def intro!: exI [of _ 16])

lemma sample_device_new: "\<exists>d. PciDevice_new sample_host sample_params = Inr d \<and>
    BARs d = [PciMemBar 0 0x10000 True 0 0, PciMemUpperBar (Some 0), PciBarNone, PciBarNone, PciBarNone, PciBarNone] \<and>
    device_wf d \<and> hostInterface d = sample_host \<and> configDelay d = 20000"
proof -
  have run: "\<exists>d. PciDevice_new sample_host sample_params = Inr d \<and>
      BARs d = [PciMemBar 0 0x10000 True 0 0, PciMemUpperBar (Some 0), PciBarNone, PciBarNone, PciBarNone, PciBarNone] \<and> configDelay d = 20000"
  proof -
    have "map_sum id (\<lambda>d. (BARs d, configDelay d)) (PciDevice_new sample_host sample_params) =
        Inr ([PciMemBar 0 0x10000 True 0 0, PciMemUpperBar (Some 0), PciBarNone, PciBarNone, PciBarNone, PciBarNone], 20000)"
      by code_simp
    then show ?thesis by (cases "PciDevice_new sample_host sample_params") auto
  qed
  have "length (par_bars sample_params) = 6" "\<forall>b\<in>set (par_bars sample_params). bar_fresh b"
    by (simp_all add: sample_params_def size_ok_sample)
  with run PciDevice_new_wf show ?thesis by blast
qed

theorem construction_establishes_wf_witness:
  "\<exists>d. PciDevice_new sample_host sample_params = Inr d \<and> device_wf d"
proof -
  obtain d where d: "PciDevice_new sample_host sample_params = Inr d" using sample_device_new by blast
  have "device_wf d" by (rule construction_establishes_wf [OF d]) (simp_all add: sample_params_def size_ok_sample)
  with d show ?thesis by blast
qed

text \<open>
  C28: No write to the configuration space, whatever its size, offset and data, changes a read-only
  byte (identifiers, revision, class code, header type, capability pointer, interrupt pin and the
  like), the kind or size of a register or the host the device belongs to; a write that returns
  keeps the device well formed.
\<close>

theorem writeConfig_keeps_readonly:
  assumes "device_wf d" "writeConfig pkt d = Inr (t, pkt', d', changed)"
  shows "device_wf d' \<and> (\<forall>i < 64. i \<notin> writable_bytes \<longrightarrow> d_config d' ! i = d_config d ! i) \<and>
    map bar_shape (BARs d') = map bar_shape (BARs d) \<and> hostInterface d' = hostInterface d"
  using writeConfig_step [OF assms] config_step_wf [OF assms(1)] by (simp add: config_step_def)

theorem writeConfig_keeps_readonly_witness:
  "\<exists>d t pkt' d' c. PciDevice_new sample_host sample_params = Inr d \<and>
     writeConfig (data_packet WriteReq 0x10 [0, 0, 1, 0]) d = Inr (t, pkt', d', c) \<and> device_wf d' \<and>
     d_config d' ! 0 = d_config d ! 0"
proof -
  obtain d where d: "PciDevice_new sample_host sample_params = Inr d" "device_wf d"
    using sample_device_new by blast
  have "is_ok (sbind (PciDevice_new sample_host sample_params) (writeConfig (data_packet WriteReq 0x10 [0, 0, 1, 0])))"
    by code_simp
  then obtain t pkt' d' c where w: "writeConfig (data_packet WriteReq 0x10 [0, 0, 1, 0]) d = Inr (t, pkt', d', c)"
    using d(1) by (cases "writeConfig (data_packet WriteReq 0x10 [0, 0, 1, 0]) d") (auto simp: is_ok_def)
  have "0 \<notin> writable_bytes" by (simp add: writable_bytes_def)
  with writeConfig_keeps_readonly [OF d(2) w] d w show ?thesis by (metis zero_less_numeral)
qed

text \<open>
  C29: What software reads back from a base address register is what the register accepted: after a
  four-byte write of any value to register \<^verbatim>\<open>n\<close> a four-byte read of it returns the value the register
  answered, with the latency of a configuration access.
\<close>

theorem bar_config_roundtrip:
  assumes "device_wf d" "n < 6" "config_offset a = 0x10 + 4 * n" "v = ucast (v32 :: u32)"
  shows "\<exists>r bars d' p p'. bar_write (hostInterface d) n v32 (BARs d) = Inr (r, bars) \<and>
    writeConfig (data_packet WriteReq a (le_bytes 4 v)) d = Inr (configDelay d, p, d', True) \<and> BARs d' = bars \<and>
    readConfig (data_packet ReadReq a [0, 0, 0, 0]) d' = Inr (configDelay d, p') \<and> getLE 4 p' = Inr (ucast r)"
proof -
  obtain r bars where w: "bar_write (hostInterface d) n v32 (BARs d) = Inr (r, bars)"
    using bar_write_shape [of "BARs d" n "hostInterface d" v32] assms(1,2) by (auto simp: device_wf_def)
  have v: "ucast (le_val (le_bytes 4 v)) = v32"
    by (rule bit_word_eqI) (simp add: le_val_bytes assms(4) bit_ucast_iff bit_take_bit_iff)
  have off: "config_offset a \<in> {0x10, 0x14, 0x18, 0x1C, 0x20, 0x24}" "(config_offset a - 0x10) div 4 = n"
    "config_offset a + 4 \<le> 64" "config_offset a < 0x40"
  proof -
    have "n = 0 \<or> n = 1 \<or> n = 2 \<or> n = 3 \<or> n = 4 \<or> n = 5" using assms(2) by linarith
    then show "config_offset a \<in> {0x10, 0x14, 0x18, 0x1C, 0x20, 0x24}" unfolding assms(3) by auto
  qed (use assms(2,3) in simp_all)
  define d' where "d' = d\<lparr>BARs := bars, d_config := cfg_put (config_offset a) 4 (ucast r) (d_config d)\<rparr>"
  have "writeConfig4 (config_offset a) (data_packet WriteReq a (le_bytes 4 v)) d = Inr (d', True)"
    using off(1) w v by (simp add: writeConfig4_def off(2) d'_def)
  then have wr: "writeConfig (data_packet WriteReq a (le_bytes 4 v)) d =
      Inr (configDelay d, (data_packet WriteReq a (le_bytes 4 v))\<lparr>p_cmd := responseCommand WriteReq,
        p_flags := clearFlags (p_flags (data_packet WriteReq a (le_bytes 4 v))) P_EXPRESS_SNOOP\<rparr>, d', True)"
    using off(4) makeResponse_data_packet [of WriteReq "data_packet WriteReq a (le_bytes 4 v)"]
    by (simp add: writeConfig_def d'_def)
  have "cfg_get (config_offset a) 4 (d_config d') = take_bit 32 (ucast r)"
    using off(3) assms(1) by (simp add: d'_def cfg_get_put device_wf_def)
  also have "\<dots> = ucast r" by (rule bit_word_eqI) (auto simp: bit_take_bit_iff bit_ucast_iff dest: bit_imp_le_length)
  finally have cfg: "cfg_get (config_offset a) 4 (d_config d') = ucast r" .
  define p where "p = (data_packet ReadReq a [0, 0, 0, 0])\<lparr>p_data := Some (put_bytes [0, 0, 0, 0] 0 (le_bytes 4 (ucast r)))\<rparr>"
  have set: "setLE 4 (ucast r) (data_packet ReadReq a [0, 0, 0, 0]) = Inr p" by (simp add: p_def)
  have cmd: "p_cmd p = ReadReq" by (simp add: p_def)
  define p' where "p' = p\<lparr>p_cmd := responseCommand ReadReq, p_flags := clearFlags (p_flags p) P_EXPRESS_SNOOP\<rparr>"
  have rd: "readConfig (data_packet ReadReq a [0, 0, 0, 0]) d' = Inr (configDelay d, p')"
    using off(3,4) set cfg makeResponse_data_packet [of ReadReq p] cmd
    by (simp add: readConfig_def readConfig_data_def p'_def d'_def)
  have "getLE 4 p' = getLE 4 p" by (simp add: getLE_def getRaw_def p'_def p_def data_packet_def isSet_def clearFlags_def)
  also have "\<dots> = Inr (take_bit 32 (ucast r))" using setLE_getLE [OF set] by simp
  also have "take_bit 32 (ucast r) = (ucast r :: u64)"
    by (rule bit_word_eqI) (auto simp: bit_take_bit_iff bit_ucast_iff dest: bit_imp_le_length)
  finally show ?thesis using w wr rd by (auto simp: d'_def)
qed

theorem bar_config_roundtrip_witness:
  "\<exists>d r bars d' p p'. bar_write (hostInterface d) 0 0x40000123 (BARs d) = Inr (r, bars) \<and>
    writeConfig (data_packet WriteReq 0x10 (le_bytes 4 0x40000123)) d = Inr (configDelay d, p, d', True) \<and> BARs d' = bars \<and>
    readConfig (data_packet ReadReq 0x10 [0, 0, 0, 0]) d' = Inr (configDelay d, p') \<and> getLE 4 p' = Inr (ucast r)"
proof -
  obtain d where "device_wf d" using sample_device_new by blast
  from bar_config_roundtrip [OF this, of 0 "0x10" "0x40000123" "0x40000123"]
  have "\<exists>r bars d' p p'. bar_write (hostInterface d) 0 0x40000123 (BARs d) = Inr (r, bars) \<and>
    writeConfig (data_packet WriteReq 0x10 (le_bytes 4 0x40000123)) d = Inr (configDelay d, p, d', True) \<and> BARs d' = bars \<and>
    readConfig (data_packet ReadReq 0x10 [0, 0, 0, 0]) d' = Inr (configDelay d, p') \<and> getLE 4 p' = Inr (ucast r)"
    by (simp add: config_offset_def)
  then show ?thesis by blast
qed

text \<open>
  Reading the device-specific part of the configuration space is undefined: after the announced
  zero has been stored, the read of the 64-byte array at the same offset is executed as well.
\<close>

lemma device_specific_read_undefined:
  assumes "0x40 \<le> config_offset a" "config_offset a < 0xFF" "length bs \<in> {1, 2, 4}"
  shows "readConfig (data_packet ReadReq a bs) d = Inl Undefined_Behaviour"
  using assms by (auto simp: readConfig_def readConfig_data_def)

lemma device_specific_read_undefined_witness:
  "\<exists>d. PciDevice_new sample_host sample_params = Inr d \<and>
     readConfig (data_packet ReadReq 0x40 [0, 0, 0, 0]) d = Inl Undefined_Behaviour"
proof -
  have "readConfig (data_packet ReadReq 0x40 [0, 0, 0, 0]) d = Inl Undefined_Behaviour" for d
    by (rule device_specific_read_undefined) (simp_all add: config_offset_def)
  then show ?thesis using sample_device_new by blast
qed

text \<open>
  A two-byte write of the command register keeps only the low byte of the data and clears the
  high byte, so the bits that enable fast back-to-back and system errors cannot be set this way,
  while a four-byte write sets them.
\<close>

lemma command_high_byte_lost:
  assumes "device_wf d" "config_offset a = 4"
  shows "\<exists>p d'. writeConfig (data_packet WriteReq a [lo, hi]) d = Inr (configDelay d, p, d', True) \<and>
      d_config d' ! 4 = lo \<and> d_config d' ! 5 = 0"
proof -
  let ?c = "put_bytes (d_config d) 4 (le_bytes 2 (ucast lo))"
  have "le_bytes 2 (ucast lo :: u64) = [lo, 0]"
  proof -
    have "ucast (drop_bit 8 (ucast lo :: u64)) = (0 :: u8)"
      by (rule bit_word_eqI) (auto simp: bit_ucast_iff bit_drop_bit_eq dest: bit_imp_le_length)
    moreover have "ucast (ucast lo :: u64) = lo" by (rule bit_word_eqI) (simp add: bit_ucast_iff)
    ultimately show ?thesis by (simp add: numeral_2_eq_2)
  qed
  then have "?c ! 4 = lo" "?c ! 5 = 0" using assms(1) by (simp_all add: nth_put_bytes device_wf_def)
  then show ?thesis using assms makeResponse_data_packet [of WriteReq "data_packet WriteReq a [lo, hi]"]
    by (simp add: writeConfig_def writeConfig2_def cfg_put_def)
qed

lemma command_high_byte_lost_witness:
  "\<exists>d p d'. device_wf d \<and> writeConfig (data_packet WriteReq 4 [6, 1]) d = Inr (configDelay d, p, d', True) \<and>
      d_config d' ! 4 = 6 \<and> d_config d' ! 5 = 0"
proof -
  obtain d where d: "device_wf d" using sample_device_new by blast
  from command_high_byte_lost [OF this, of 4 6 1] d show ?thesis by (auto simp: config_offset_def)
qed

end
