(* ===== verification/Pci_Host.thy ===== *)
theory Pci_Host
  imports Pci_Device
begin

text \<open>
  Model of the PCI host (\<^verbatim>\<open>src/gem5/src/dev/pci/host.hh\<close>, \<^verbatim>\<open>dev/pci/host.cc\<close>, \<^verbatim>\<open>dev/pci/types.hh\<close>): the
  registry of devices by bus address, the decoding of configuration addresses and the dispatch of
  configuration accesses.  The maps are keyed by the value the bus addresses are compared by.
\<close>

section \<open>State\<close>

definition sortValue :: "pci_bus_addr \<Rightarrow> u32" where
  "sortValue b = push_bit 16 (ucast (bus b)) OR push_bit 8 (ucast (dev b)) OR ucast (func b)"

record pci_host =
  confBase :: addr
  confSize :: addr
  confDeviceBits :: u8
  pciPioBase :: addr
  pciMemBase :: addr
  pciDmaBase :: addr
  devices :: "u32 \<Rightarrow> pci_device option"
  bridges :: "u32 \<Rightarrow> nat option"

definition host_interface :: "pci_host \<Rightarrow> device_interface" where
  "host_interface h = \<lparr>pioAddr = \<lambda>a. pciPioBase h + a, memAddr = \<lambda>a. pciMemBase h + a, dmaAddr = \<lambda>a. pciDmaBase h + a\<rparr>"

section \<open>Registration\<close>

definition registerDevice :: "pci_device \<Rightarrow> pci_bus_addr \<Rightarrow> pci_host \<Rightarrow> (device_interface \<times> pci_host) res" where
  "registerDevice d b h =
     (if devices h (sortValue b) \<noteq> None then Inl Fatal
      else Inr (host_interface h, h\<lparr>devices := (devices h)(sortValue b \<mapsto> d)\<rparr>))"

text \<open>A bridge is known by the index of its configuration object.\<close>

definition registerBridge :: "nat \<Rightarrow> pci_bus_addr \<Rightarrow> pci_host \<Rightarrow> pci_host res" where
  "registerBridge br b h =
     (if bridges h (sortValue b) \<noteq> None then Inl Fatal
      else Inr (h\<lparr>bridges := (bridges h)(sortValue b \<mapsto> br)\<rparr>))"

definition getDevice :: "pci_host \<Rightarrow> pci_bus_addr \<Rightarrow> pci_device option" where
  "getDevice h b = devices h (sortValue b)"

section \<open>Configuration accesses\<close>

definition decodeAddress :: "pci_host \<Rightarrow> addr \<Rightarrow> pci_bus_addr \<times> addr" where
  "decodeAddress h a =
     (let offset = a AND bf_mask (ucast (confDeviceBits h));
          bus_addr = drop_bit (unat (confDeviceBits h)) a
      in (\<lparr>bus = ucast (bits_raw bus_addr 15 8), dev = ucast (bits_raw bus_addr 7 3), func = ucast (bits_raw bus_addr 2 0)\<rparr>, offset))"

definition host_read :: "packet \<Rightarrow> pci_host \<Rightarrow> (tick \<times> packet) res" where
  "host_read pkt h =
     sbind (getAddr pkt) (\<lambda>a. sbind (getSize pkt) (\<lambda>sz.
       case getDevice h (fst (decodeAddress h (a - confBase h))) of
         Some d \<Rightarrow> readConfig (pkt\<lparr>headerDelay := 0, payloadDelay := 0\<rparr>) d
       | None \<Rightarrow>
           sbind (getPtr pkt) (\<lambda>bs.
           sbind (memcpy_in bs 0 (replicate (unat sz) 0xFF)) (\<lambda>bs.
           sbind (makeAtomicResponse (pkt\<lparr>p_data := Some bs\<rparr>)) (\<lambda>pkt. Inr (0, pkt))))))"

definition host_write :: "packet \<Rightarrow> pci_host \<Rightarrow> (tick \<times> packet \<times> pci_host \<times> bool) res" where
  "host_write pkt h =
     sbind (getAddr pkt) (\<lambda>a.
       (let b = fst (decodeAddress h (a - confBase h)) in
        case getDevice h b of
          None \<Rightarrow> Inl Panic
        | Some d \<Rightarrow>
            sbind (writeConfig (pkt\<lparr>headerDelay := 0, payloadDelay := 0\<rparr>) d) (\<lambda>(t, pkt, d, changed).
            Inr (t, pkt, h\<lparr>devices := (devices h)(sortValue b \<mapsto> d)\<rparr>, changed))))"

definition host_getAddrRanges :: "pci_host \<Rightarrow> addr_range list" where
  "host_getAddrRanges h = [RangeSize (confBase h) (confSize h)]"

section \<open>Interrupts\<close>

definition mapPciInterrupt :: "pci_host \<Rightarrow> pci_bus_addr \<Rightarrow> u32 res" where
  "mapPciInterrupt h b = (case getDevice h b of None \<Rightarrow> Inl Assert_Failed | Some d \<Rightarrow> Inr (ucast (interruptLine d)))"

text \<open>The platform is known by the lines that are raised.\<close>

definition host_postInt :: "pci_host \<Rightarrow> pci_bus_addr \<Rightarrow> u32 set \<Rightarrow> u32 set res" where
  "host_postInt h b lines = sbind (mapPciInterrupt h b) (\<lambda>l. Inr (insert l lines))"

definition host_clearInt :: "pci_host \<Rightarrow> pci_bus_addr \<Rightarrow> u32 set \<Rightarrow> u32 set res" where
  "host_clearInt h b lines = sbind (mapPciInterrupt h b) (\<lambda>l. Inr (lines - {l}))"

section \<open>Lemmas\<close>

lemma bit_sortValue:
  "bit (sortValue b) i \<longleftrightarrow> (16 \<le> i \<and> i < 32 \<and> bit (bus b) (i - 16)) \<or> (8 \<le> i \<and> i < 32 \<and> bit (dev b) (i - 8)) \<or> (i < 32 \<and> bit (func b) i)"
  by (auto simp: sortValue_def bit_or_iff bit_push_bit_iff bit_ucast_iff)

lemma sortValue_inj: "sortValue a = sortValue b \<Longrightarrow> a = (b :: pci_bus_addr)"
proof -
  assume eq: "sortValue a = sortValue b"
  have all: "bit (sortValue a) i = bit (sortValue b) i" for i using eq by simp
  have "bus a = bus b"
  proof (rule bit_word_eqI)
    fix i assume "i < LENGTH(8)"
    then show "bit (bus a) i = bit (bus b) i" using all [of "i + 16"]
      by (auto simp: bit_sortValue dest: bit_imp_le_length)
  qed
  moreover have "dev a = dev b"
  proof (rule bit_word_eqI)
    fix i assume "i < LENGTH(8)"
    then show "bit (dev a) i = bit (dev b) i" using all [of "i + 8"]
      by (auto simp: bit_sortValue dest: bit_imp_le_length)
  qed
  moreover have "func a = func b"
  proof (rule bit_word_eqI)
    fix i assume "i < LENGTH(8)"
    then show "bit (func a) i = bit (func b) i" using all [of i]
      by (auto simp: bit_sortValue dest: bit_imp_le_length)
  qed
  ultimately show ?thesis by simp
qed

text \<open>The address of a register of a function in the configuration window.\<close>

definition config_addr :: "pci_host \<Rightarrow> pci_bus_addr \<Rightarrow> addr \<Rightarrow> addr" where
  "config_addr h b off = push_bit (unat (confDeviceBits h))
     (push_bit 8 (ucast (bus b)) OR push_bit 3 (ucast (dev b)) OR ucast (func b)) OR off"

definition bus_addr_ok :: "pci_bus_addr \<Rightarrow> bool" where
  "bus_addr_ok b \<longleftrightarrow> unat (dev b) < 32 \<and> unat (func b) < 8"

lemma small_word_bit: "unat (w :: u8) < 2 ^ n \<Longrightarrow> bit w i \<Longrightarrow> i < n"
proof (rule ccontr)
  assume a: "unat w < 2 ^ n" "bit w i" "\<not> i < n"
  then have "(2 :: nat) ^ n \<le> 2 ^ i" by (intro power_increasing) auto
  then have "unat w < 2 ^ i" using a(1) by linarith
  then have "unat w div 2 ^ i = 0" by simp
  then have "drop_bit i w = 0" by (metis drop_bit_unat unat_eq_zero)
  then show False using a(2) by (simp add: bit_iff_odd_drop_bit)
qed

lemma decode_config_addr:
  assumes "bus_addr_ok b" "unat (confDeviceBits h) \<le> 48" "unat off < 2 ^ unat (confDeviceBits h)"
  shows "decodeAddress h (config_addr h b off) = (b, off)"
proof -
  define n where "n = unat (confDeviceBits h)"
  define X :: u64 where "X = push_bit 8 (ucast (bus b)) OR push_bit 3 (ucast (dev b)) OR ucast (func b)"
  have n: "n \<le> 48" using assms(2) by (simp add: n_def)
  have "drop_bit n off = 0" using assms(3) drop_bit_unat [of n off] by (simp add: n_def unat_eq_zero [symmetric] del: unat_eq_zero)
  then have off: "\<not> bit off (n + i)" for i
    using bit_drop_bit_eq [of n off] by (simp add: comp_def fun_eq_iff)
  have d: "bit (dev b) i \<Longrightarrow> i < 5" and f: "bit (func b) i \<Longrightarrow> i < 3" and u: "bit (bus b) i \<Longrightarrow> i < 8" for i
    using assms(1) small_word_bit [of "dev b" 5 i] small_word_bit [of "func b" 3 i] bit_imp_le_length [of "bus b" i]
    by (auto simp: bus_addr_ok_def)
  have X: "bit X j \<longleftrightarrow> j < 64 \<and> ((8 \<le> j \<and> bit (bus b) (j - 8)) \<or> (3 \<le> j \<and> bit (dev b) (j - 3)) \<or> bit (func b) j)" for j
    by (auto simp: X_def bit_or_iff bit_push_bit_iff bit_ucast_iff)
  have hi: "bit (drop_bit n (config_addr h b off)) j \<longleftrightarrow> bit X j" for j
    using n off [of j] u [of "j - 8"] d [of "j - 3"] f [of j]
    by (auto simp: config_addr_def n_def [symmetric] X_def [symmetric] bit_drop_bit_eq bit_or_iff bit_push_bit_iff X)
  have eq: "drop_bit n (config_addr h b off) = X" by (rule bit_word_eqI) (simp add: hi)
  have "ucast (bits_raw X 15 8) = bus b"
    by (rule bit_word_eqI) (use d f in \<open>fastforce simp: bit_ucast_iff bit_bits_raw X\<close>)
  moreover have "ucast (bits_raw X 7 3) = dev b"
  proof (rule bit_word_eqI)
    fix i assume "i < LENGTH(8)"
    then show "bit (ucast (bits_raw X 7 3) :: u8) i \<longleftrightarrow> bit (dev b) i"
      using d [of i] f [of "3 + i"] by (auto simp: bit_ucast_iff bit_bits_raw X)
  qed
  moreover have "ucast (bits_raw X 2 0) = func b"
  proof (rule bit_word_eqI)
    fix i assume "i < LENGTH(8)"
    then show "bit (ucast (bits_raw X 2 0) :: u8) i \<longleftrightarrow> bit (func b) i"
      using f [of i] by (auto simp: bit_ucast_iff bit_bits_raw X)
  qed
  moreover have "config_addr h b off AND bf_mask (ucast (confDeviceBits h)) = off"
  proof (rule bit_word_eqI)
    fix i assume i: "i < LENGTH(64)"
    have m: "bit (bf_mask (ucast (confDeviceBits h))) i \<longleftrightarrow> i < n"
    proof -
      have un: "unat (ucast (confDeviceBits h) :: u32) = n" unfolding n_def by (rule unat_ucast_up) simp
      then have "\<not> (64 \<le> (ucast (confDeviceBits h) :: u32))" using n by (simp add: word_le_nat_alt)
      then have "bf_mask (ucast (confDeviceBits h)) = mask n" using un by (simp add: bf_mask_def mask_eq_exp_minus_1)
      then show ?thesis using i by (simp add: bit_mask_iff)
    qed
    show "bit (config_addr h b off AND bf_mask (ucast (confDeviceBits h))) i \<longleftrightarrow> bit off i"
      using off [of "i - n"] by (cases "i < n") (auto simp: bit_and_iff m config_addr_def n_def [symmetric] bit_or_iff bit_push_bit_iff not_less)
  qed
  ultimately show ?thesis by (simp add: decodeAddress_def Let_def n_def [symmetric] eq)
qed

lemma unmapped_read:
  assumes "getDevice h (fst (decodeAddress h (a - confBase h))) = None" "length bs < 2 ^ 32"
  shows "\<exists>p'. host_read (data_packet ReadReq a bs) h = Inr (0, p') \<and> p_data p' = Some (replicate (length bs) 0xFF) \<and> p_cmd p' = ReadResp"
proof -
  let ?p = "(data_packet ReadReq a bs)\<lparr>p_data := Some (replicate (length bs) 0xFF)\<rparr>"
  have ptr: "getPtr (data_packet ReadReq a bs) = Inr bs"
    by (simp add: getPtr_def data_packet_def packet_init_def isSet_def isMaskedWrite_def)
  have n: "unat (of_nat (length bs) :: u32) = length bs" using assms(2) by (simp add: unat_of_nat take_bit_nat_eq_self)
  have "put_bytes bs 0 (replicate (length bs) 0xFF) = replicate (length bs) (0xFF :: u8)" by (simp add: put_bytes_def)
  then show ?thesis using assms ptr n makeResponse_data_packet [of ReadReq ?p]
    by (simp add: host_read_def responseCommand_def commandInfo_at)
qed

section \<open>Properties\<close>

text \<open>
  The decoder inverts the layout of the configuration window: the address of any register of any
  legal function decodes to that function and that offset.
\<close>

lemma config_address_roundtrip:
  assumes "bus_addr_ok b" "unat (confDeviceBits h) \<le> 48" "unat off < 2 ^ unat (confDeviceBits h)"
  shows "decodeAddress h (config_addr h b off) = (b, off)"
  using assms by (rule decode_config_addr)

definition sample_pci_host :: pci_host where
  "sample_pci_host = \<lparr>confBase = 0x30000000, confSize = 0x10000000, confDeviceBits = 12, pciPioBase = 0x2f000000,
     pciMemBase = 0, pciDmaBase = 0, devices = \<lambda>_. None, bridges = \<lambda>_. None\<rparr>"

lemma config_address_roundtrip_witness:
  "decodeAddress sample_pci_host (config_addr sample_pci_host \<lparr>bus = 1, dev = 6, func = 2\<rparr> 0x10) = (\<lparr>bus = 1, dev = 6, func = 2\<rparr>, 0x10)"
  by (rule config_address_roundtrip) (simp_all add: bus_addr_ok_def sample_pci_host_def)

text \<open>
  Registration keeps the registry a function of the bus address: a second device at the same
  address is refused, every other device keeps its entry, and the new one is found at its address.
\<close>

lemma registerDevice_registry:
  "case registerDevice d b h of
     Inl e \<Rightarrow> e = Fatal \<and> getDevice h b \<noteq> None
   | Inr (itf, h') \<Rightarrow> getDevice h b = None \<and> itf = host_interface h \<and>
       (\<forall>b'. getDevice h' b' = (if b' = b then Some d else getDevice h b'))"
  using sortValue_inj by (auto simp: registerDevice_def getDevice_def)

text \<open>
  A bridge that is registered with the host is not reachable through the configuration window: a
  read at its address returns all ones and a write panics, because both consult only the devices.
\<close>

lemma bridge_config_unreachable:
  assumes "registerBridge br b h = Inr h'" "getDevice h b = None" "bus_addr_ok b" "unat (confDeviceBits h) \<le> 48"
    "unat off < 2 ^ unat (confDeviceBits h)" "length bs < 2 ^ 32"
  shows "(\<exists>p'. host_read (data_packet ReadReq (confBase h + config_addr h b off) bs) h' = Inr (0, p') \<and>
      p_data p' = Some (replicate (length bs) 0xFF)) \<and>
    host_write (data_packet WriteReq (confBase h + config_addr h b off) bs) h' = Inl Panic"
proof -
  have h': "h' = h\<lparr>bridges := (bridges h)(sortValue b \<mapsto> br)\<rparr>" using assms(1) by (auto simp: registerBridge_def split: if_splits)
  then have same: "config_addr h' b off = config_addr h b off" "confBase h' = confBase h" "getDevice h' b = None"
    using assms(2) by (simp_all add: config_addr_def getDevice_def)
  have "decodeAddress h' (config_addr h' b off) = (b, off)"
    using assms(3-5) h' by (intro decode_config_addr) simp_all
  then have dec: "getDevice h' (fst (decodeAddress h' (confBase h + config_addr h b off - confBase h'))) = None"
    using same by simp
  from unmapped_read [OF dec assms(6)] dec assms(6) show ?thesis by (auto simp: host_write_def Let_def)
qed

lemma bridge_config_unreachable_witness:
  "\<exists>h' p'. registerBridge 0 \<lparr>bus = 0, dev = 1, func = 0\<rparr> sample_pci_host = Inr h' \<and>
     host_read (data_packet ReadReq (confBase sample_pci_host + config_addr sample_pci_host \<lparr>bus = 0, dev = 1, func = 0\<rparr> 0) [0, 0]) h' = Inr (0, p') \<and>
     p_data p' = Some [0xFF, 0xFF]"
proof -
  let ?b = "\<lparr>bus = 0, dev = 1, func = 0\<rparr>"
  obtain h' where h': "registerBridge 0 ?b sample_pci_host = Inr h'"
    by (simp add: registerBridge_def sample_pci_host_def)
  have "(\<exists>p'. host_read (data_packet ReadReq (confBase sample_pci_host + config_addr sample_pci_host ?b 0) [0, 0]) h' = Inr (0, p') \<and>
      p_data p' = Some (replicate (length [0, 0 :: u8]) 0xFF)) \<and>
    host_write (data_packet WriteReq (confBase sample_pci_host + config_addr sample_pci_host ?b 0) [0, 0]) h' = Inl Panic"
    by (rule bridge_config_unreachable [OF h']) (simp_all add: bus_addr_ok_def sample_pci_host_def getDevice_def)
  then show ?thesis using h' by (auto simp: numeral_2_eq_2)
qed

end
