(* ===== verification/Pci_Bridge2.thy ===== *)
theory Pci_Bridge2
  imports Pci_Host
begin

text \<open>
  Model of the configuration and routing of the root complex and switch
  (\<^verbatim>\<open>src/gem5/src/dev/PciBridge2.hh\<close>, \<^verbatim>\<open>dev/PciBridge2.cc\<close>): the configuration structure of each
  virtual PCI-to-PCI bridge, its windows, the choice of a port by address and by bus number, and the
  address ranges the ports announce.  The unions are their bytes, as for a PCI function.
\<close>

section \<open>State\<close>

abbreviation (input) PCIE_HEADER_SIZE :: nat where "PCIE_HEADER_SIZE \<equiv> 64"
abbreviation (input) PXCAPSIZE :: nat where "PXCAPSIZE \<equiv> 36"
abbreviation (input) SLOT_REG_BASE :: nat where "SLOT_REG_BASE \<equiv> 20"
abbreviation (input) SLOT_REG_LIMIT :: nat where "SLOT_REG_LIMIT \<equiv> 27"
abbreviation (input) IO_MASK :: u32 where "IO_MASK \<equiv> 1"
abbreviation (input) MEM_MASK :: u32 where "MEM_MASK \<equiv> 0xF"
abbreviation (input) IO_BASE_MASK :: u8 where "IO_BASE_MASK \<equiv> 0x0F"
abbreviation (input) IO_LIMIT_MASK :: u8 where "IO_LIMIT_MASK \<equiv> 0x0F"
abbreviation (input) PREFETCH_MEM_BASE_MASK :: u16 where "PREFETCH_MEM_BASE_MASK \<equiv> 0"
abbreviation (input) PREFETCH_MEM_LIMIT_MASK :: u16 where "PREFETCH_MEM_LIMIT_MASK \<equiv> 0xF"
abbreviation (input) MMIO_BASE_MASK :: u16 where "MMIO_BASE_MASK \<equiv> 0xF"
abbreviation (input) MMIO_LIMIT_MASK :: u16 where "MMIO_LIMIT_MASK \<equiv> 0xF"
abbreviation (input) ADDR_MAX :: addr where "ADDR_MAX \<equiv> - 1"

record config_class =
  storage1 :: "u8 list"
  storage2 :: "u8 list"
  barsize0 :: u32
  barsize1 :: u32
  barflags0 :: u32
  barflags1 :: u32
  cc_configDelay :: tick
  PXCAPBaseOffset :: u8
  cc_is_switch :: int
  cc_id :: u8
  is_valid :: u8
  valid_io_base :: bool
  valid_io_limit :: bool
  valid_prefetchable_memory_base :: bool
  valid_prefetchable_memory_limit :: bool
  valid_memory_base :: bool
  valid_memory_limit :: bool

definition reg8 :: "nat \<Rightarrow> config_class \<Rightarrow> u8" where
  "reg8 off c = ucast (cfg_get off 1 (storage1 c))"

definition reg16 :: "nat \<Rightarrow> config_class \<Rightarrow> u16" where
  "reg16 off c = ucast (cfg_get off 2 (storage1 c))"

definition reg32 :: "nat \<Rightarrow> config_class \<Rightarrow> u32" where
  "reg32 off c = ucast (cfg_get off 4 (storage1 c))"

definition put_reg :: "nat \<Rightarrow> nat \<Rightarrow> u64 \<Rightarrow> config_class \<Rightarrow> config_class" where
  "put_reg off n v c = c\<lparr>storage1 := cfg_put off n v (storage1 c)\<rparr>"

section \<open>Construction\<close>

text \<open>The parameters of \<^verbatim>\<open>PciBridge2.py\<close> the constructor reads.\<close>

record bridge_params =
  bp_is_switch :: int
  bp_pci_bus :: int
  bp_upstream_dev :: int
  bp_upstream_func :: int
  bp_dev_func :: "(int \<times> int) list"
  bp_DeviceIds :: "u16 list"
  bp_DeviceId_upstream :: u16
  bp_VendorId :: u16
  bp_Command :: u16
  bp_Status :: u16
  bp_ClassCode :: u8
  bp_SubClassCode :: u8
  bp_ProgIF :: u8
  bp_Revision :: u8
  bp_BIST :: u8
  bp_HeaderType :: u8
  bp_LatencyTimer :: u8
  bp_CacheLineSize :: u8
  bp_Bar0 :: u32
  bp_Bar1 :: u32
  bp_BAR0Size :: u32
  bp_BAR1Size :: u32
  bp_PrimaryBusNumber :: u8
  bp_SecondaryBusNumber :: u8
  bp_SubordinateBusNumber :: u8
  bp_SecondaryLatencyTimer :: u8
  bp_IOBase :: u8
  bp_IOLimit :: u8
  bp_SecondaryStatus :: u16
  bp_MemoryBase :: u16
  bp_MemoryLimit :: u16
  bp_PrefetchableMemoryBase :: u16
  bp_PrefetchableMemoryLimit :: u16
  bp_PrefetchableMemoryBaseUpper :: u32
  bp_PrefetchableMemoryLimitUpper :: u32
  bp_IOBaseUpper :: u16
  bp_IOLimitUpper :: u16
  bp_CapabilityPointer :: u8
  bp_ExpansionROMBaseAddress :: u32
  bp_InterruptLine :: u8
  bp_InterruptPin :: u8
  bp_BridgeControl :: u16
  bp_PXCAPBaseOffset :: u8
  bp_PXCAPCapId :: u8
  bp_PXCAPNextCapability :: u8
  bp_PXCAPCapabilities :: u16
  bp_PXCAPCapabilities_downstream :: u16
  bp_PXCAPCapabilities_upstream :: u16
  bp_PXCAPDevCapabilities :: u32
  bp_PXCAPDevCtrl :: u16
  bp_PXCAPDevStatus :: u16
  bp_PXCAPLinkCap :: u32
  bp_PXCAPLinkCtrl :: u16
  bp_PXCAPLinkStatus :: u16
  bp_PXCAPRootStatus :: u32
  bp_PXCAPRootControl :: u16
  bp_config_latency :: tick

text \<open>The header in the order of the structure; the device identifier is already in place.\<close>

definition bridge_header :: "bridge_params \<Rightarrow> u16 \<Rightarrow> u8 list" where
  "bridge_header p DeviceId =
     le_bytes 2 (ucast (bp_VendorId p)) @ le_bytes 2 (ucast DeviceId) @
     le_bytes 2 (ucast (bp_Command p)) @ le_bytes 2 (ucast (bp_Status p)) @
     [bp_Revision p, bp_ProgIF p, bp_SubClassCode p, bp_ClassCode p,
      bp_CacheLineSize p, bp_LatencyTimer p, bp_HeaderType p, bp_BIST p] @
     le_bytes 4 (ucast (bp_Bar0 p)) @ le_bytes 4 (ucast (bp_Bar1 p)) @
     [bp_PrimaryBusNumber p, bp_SecondaryBusNumber p, bp_SubordinateBusNumber p, bp_SecondaryLatencyTimer p,
      bp_IOBase p, bp_IOLimit p] @
     le_bytes 2 (ucast (bp_SecondaryStatus p)) @
     le_bytes 2 (ucast (bp_MemoryBase p)) @ le_bytes 2 (ucast (bp_MemoryLimit p)) @
     le_bytes 2 (ucast (bp_PrefetchableMemoryBase p)) @ le_bytes 2 (ucast (bp_PrefetchableMemoryLimit p)) @
     le_bytes 4 (ucast (bp_PrefetchableMemoryBaseUpper p)) @ le_bytes 4 (ucast (bp_PrefetchableMemoryLimitUpper p)) @
     le_bytes 2 (ucast (bp_IOBaseUpper p)) @ le_bytes 2 (ucast (bp_IOLimitUpper p)) @
     [bp_CapabilityPointer p, 0, 0, 0] @ le_bytes 4 (ucast (bp_ExpansionROMBaseAddress p)) @
     [bp_InterruptLine p, bp_InterruptPin p] @ le_bytes 2 (ucast (bp_BridgeControl p))"

text \<open>The capability structure; the capabilities register keeps what it held.\<close>

definition bridge_capability :: "bridge_params \<Rightarrow> u16 \<Rightarrow> u8 list" where
  "bridge_capability p capabilities =
     [bp_PXCAPCapId p, bp_PXCAPNextCapability p] @ le_bytes 2 (ucast capabilities) @
     le_bytes 4 (ucast (bp_PXCAPDevCapabilities p)) @
     le_bytes 2 (ucast (bp_PXCAPDevStatus p)) @ le_bytes 2 (ucast (bp_PXCAPDevCtrl p)) @
     le_bytes 4 (ucast (bp_PXCAPLinkCap p)) @
     le_bytes 2 (ucast (bp_PXCAPLinkCtrl p)) @ le_bytes 2 (ucast (bp_PXCAPLinkStatus p)) @
     replicate 8 0 @
     le_bytes 4 (ucast (bp_PXCAPRootControl p)) @ le_bytes 4 (ucast (bp_PXCAPRootStatus p))"

definition initialize_ports :: "config_class \<Rightarrow> bridge_params \<Rightarrow> config_class" where
  "initialize_ports c p =
     c\<lparr>valid_io_limit := False, valid_io_base := False, valid_memory_base := False, valid_memory_limit := False,
       valid_prefetchable_memory_base := False, valid_prefetchable_memory_limit := False,
       cc_is_switch := bp_is_switch p,
       storage1 := bridge_header p (reg16 0x02 c),
       storage2 := bridge_capability p (ucast (cfg_get 2 2 (storage2 c))),
       cc_configDelay := bp_config_latency p, barsize0 := bp_BAR0Size p, barsize1 := bp_BAR1Size p,
       barflags0 := 0, barflags1 := 0, PXCAPBaseOffset := bp_PXCAPBaseOffset p, is_valid := 0\<rparr>"

record pci_bridge =
  storage_ptr1 :: config_class
  storage_ptr2 :: config_class
  storage_ptr3 :: config_class
  storage_ptr4 :: config_class
  br_is_switch :: int

definition set_capabilities :: "u16 \<Rightarrow> config_class \<Rightarrow> config_class" where
  "set_capabilities v c = c\<lparr>storage2 := cfg_put 2 2 (ucast v) (storage2 c)\<rparr>"

definition bridge_addr :: "int \<Rightarrow> int \<Rightarrow> int \<Rightarrow> pci_bus_addr" where
  "bridge_addr b d f = \<lparr>bus = word_of_int b, dev = word_of_int d, func = word_of_int f\<rparr>"

text \<open>
  The constructor.  What the allocations leave in the four configuration objects, and in the member
  \<^verbatim>\<open>is_switch\<close> that is read before it is assigned, are arguments.
\<close>

definition PciBridge2_new :: "(nat \<Rightarrow> config_class) \<Rightarrow> int \<Rightarrow> bridge_params \<Rightarrow> pci_host \<Rightarrow> (pci_bridge \<times> pci_host) res" where
  "PciBridge2_new raw raw_is_switch p h =
     (let pci_bus = (if bp_is_switch p \<noteq> 0 then bp_pci_bus p + 1 else bp_pci_bus p);
          fresh = (\<lambda>i devid. initialize_ports (put_reg 0x02 2 (ucast devid) (raw i)) p);
          capabilities = (if raw_is_switch \<noteq> 0 then bp_PXCAPCapabilities_downstream p else bp_PXCAPCapabilities p);
          port = (\<lambda>i. (set_capabilities capabilities (fresh i (bp_DeviceIds p ! (i - 1))))\<lparr>cc_id := of_nat i\<rparr>);
          up = (set_capabilities (bp_PXCAPCapabilities_upstream p) (fresh 4 (bp_DeviceId_upstream p)))\<lparr>cc_id := 0\<rparr>;
          address = (\<lambda>i. bridge_addr pci_bus (fst (bp_dev_func p ! (i - 1))) (snd (bp_dev_func p ! (i - 1))))
      in sbind (registerBridge 1 (address 1) h) (\<lambda>h.
         sbind (registerBridge 2 (address 2) h) (\<lambda>h.
         sbind (registerBridge 3 (address 3) h) (\<lambda>h.
         sbind (if bp_is_switch p \<noteq> 0
                then registerBridge 4 (bridge_addr (bp_pci_bus p) (bp_upstream_dev p) (bp_upstream_func p)) h
                else Inr h) (\<lambda>h.
         Inr (\<lparr>storage_ptr1 = port 1, storage_ptr2 = port 2, storage_ptr3 = port 3, storage_ptr4 = up,
                br_is_switch = bp_is_switch p\<rparr>, h))))))"

section \<open>Windows\<close>

definition getBar0 :: "config_class \<Rightarrow> addr" where
  "getBar0 c = ucast (reg32 0x10 c AND NOT (barsize0 c - 1))"

definition getBar1 :: "config_class \<Rightarrow> addr" where
  "getBar1 c = ucast (reg32 0x14 c AND NOT (barsize1 c - 1))"

definition getIOBase :: "config_class \<Rightarrow> addr" where
  "getIOBase c =
     (let base_val = push_bit 16 (ucast (reg16 0x30 c)) :: u32;
          stored_base = drop_bit 4 (reg8 0x1C c)
      in ucast (base_val + ucast stored_base * 4096))"

definition getIOLimit :: "config_class \<Rightarrow> addr" where
  "getIOLimit c =
     (let limit_val = push_bit 16 (ucast (reg16 0x32 c)) :: u32;
          stored_limit = drop_bit 4 (reg8 0x1D c);
          limit_val = limit_val + ucast stored_limit * 4096
      in ucast (limit_val OR 0x00000FFF))"

definition getMemoryBase :: "config_class \<Rightarrow> addr" where
  "getMemoryBase c = (let stored_base = drop_bit 4 (reg16 0x20 c) in ucast (push_bit 20 (ucast stored_base) :: u32))"

definition getMemoryLimit :: "config_class \<Rightarrow> addr" where
  "getMemoryLimit c =
     (let stored_limit = drop_bit 4 (reg16 0x22 c) in ucast ((push_bit 20 (ucast stored_limit) OR 0x000FFFFF) :: u32))"

text \<open>
  The product of the stored 12 bits and \<^verbatim>\<open>PREFETCH_BASE_SHIFT\<close> is an \<^verbatim>\<open>int\<close>, which is then extended with
  its sign; with the wrap-around of the usual compilers it becomes negative from 0x800 on.  The
  upper limit register is read into 16 bits.
\<close>

definition prefetch_shift :: "u16 \<Rightarrow> u64" where
  "prefetch_shift stored = scast (ucast stored * 1048576 :: u32)"

definition getPrefetchableMemoryBase :: "config_class \<Rightarrow> addr" where
  "getPrefetchableMemoryBase c =
     (let base_val = push_bit 32 (ucast (reg32 0x28 c));
          stored_base = drop_bit 4 (reg16 0x24 c)
      in base_val + prefetch_shift stored_base)"

definition getPrefetchableMemoryLimit :: "config_class \<Rightarrow> addr" where
  "getPrefetchableMemoryLimit c =
     (let stored_limit_upper = ucast (reg32 0x2C c) :: u16;
          limit_val = push_bit 32 (ucast stored_limit_upper);
          stored_limit = drop_bit 4 (reg16 0x26 c);
          limit_val = limit_val + prefetch_shift stored_limit
      in limit_val OR 0x000FFFFF)"

section \<open>Configuration accesses\<close>

definition isWritable :: "nat \<Rightarrow> bool" where
  "isWritable offset \<longleftrightarrow> offset \<notin> {0x00, 0x02, 0x08, 0x09, 0x0A, 0x0B, 0x0C, 0x0D, 0x0E, 0x1B, 0x34, 0x3D}"

definition bridge_offset :: "addr \<Rightarrow> nat" where
  "bridge_offset a = unat (a AND 0xFFF)"

text \<open>An access that reaches beyond the array is undefined.\<close>

definition storage_get :: "nat \<Rightarrow> nat \<Rightarrow> u8 list \<Rightarrow> u64 res" where
  "storage_get off n st = (if off + n \<le> length st then Inr (cfg_get off n st) else Inl Undefined_Behaviour)"

definition bridge_readConfig :: "packet \<Rightarrow> config_class \<Rightarrow> (tick \<times> packet) res" where
  "bridge_readConfig pkt c =
     sbind (getAddr pkt) (\<lambda>a. sbind (getSize pkt) (\<lambda>sz.
       (let offset = bridge_offset a; n = unat sz; px = unat (PXCAPBaseOffset c)
        in if n \<notin> {1, 2, 4} then Inl Panic
           else
             sbind (if offset < PCIE_HEADER_SIZE then storage_get offset n (storage1 c)
                    else if px \<le> offset \<and> offset < px + PXCAPSIZE then storage_get (offset - px) n (storage2 c)
                    else Inr 0) (\<lambda>v.
             sbind (pkt_set n v LittleEndian pkt) (\<lambda>pkt.
             sbind (makeAtomicResponse pkt) (\<lambda>pkt. Inr (cc_configDelay c, pkt)))))))"

definition masked8 :: "u8 \<Rightarrow> u8 \<Rightarrow> u8 \<Rightarrow> u8" where
  "masked8 m val old = (val AND NOT m) OR (old AND m)"

definition masked16 :: "u16 \<Rightarrow> u16 \<Rightarrow> u16 \<Rightarrow> u16" where
  "masked16 m val old = (val AND NOT m) OR (old AND m)"

text \<open>The registers a write of one, two and four bytes changes; the flag asks for a range change.\<close>

definition bridge_write1 :: "nat \<Rightarrow> packet \<Rightarrow> config_class \<Rightarrow> (config_class \<times> bool) res" where
  "bridge_write1 offset pkt c =
     (if offset = 0x18 then sbind (pkt_get 1 LittleEndian pkt) (\<lambda>v. Inr (put_reg 0x18 1 v c, False))
      else if offset = 0x19 then sbind (pkt_get 1 LittleEndian pkt) (\<lambda>v. Inr ((put_reg 0x19 1 v c)\<lparr>is_valid := 1\<rparr>, False))
      else if offset = 0x1A then sbind (pkt_get 1 LittleEndian pkt) (\<lambda>v. Inr (put_reg 0x1A 1 v c, False))
      else if offset = 0x1C then sbind (pkt_get 1 LittleEndian pkt) (\<lambda>v.
        Inr ((put_reg 0x1C 1 (ucast (masked8 IO_BASE_MASK (ucast v) (reg8 0x1C c))) c)\<lparr>valid_io_base := True\<rparr>, True))
      else if offset = 0x1D then sbind (pkt_get 1 LittleEndian pkt) (\<lambda>v.
        Inr ((put_reg 0x1D 1 (ucast (masked8 IO_LIMIT_MASK (ucast v) (reg8 0x1D c))) c)\<lparr>valid_io_limit := True\<rparr>, True))
      else if offset = 0x3C then sbind (pkt_get 1 LittleEndian pkt) (\<lambda>v. Inr (put_reg 0x3C 1 v c, False))
      else if offset = 0x0F then sbind (pkt_get 1 LittleEndian pkt) (\<lambda>v. Inr (put_reg 0x0F 1 v c, False))
      else Inr (c, False))"

definition bridge_write2 :: "nat \<Rightarrow> packet \<Rightarrow> config_class \<Rightarrow> (config_class \<times> bool) res" where
  "bridge_write2 offset pkt c =
     (if offset = 0x04 then sbind (pkt_get 1 LittleEndian pkt) (\<lambda>v. Inr (put_reg 0x04 2 (v OR 0x0400) c, False))
      else if offset = 0x06 then sbind (pkt_get 1 LittleEndian pkt) (\<lambda>v. Inr (put_reg 0x06 2 v c, False))
      else if offset = 0x1E then sbind (pkt_get 1 LittleEndian pkt) (\<lambda>v. Inr (put_reg 0x1E 2 v c, False))
      else if offset = 0x20 then sbind (pkt_get 2 LittleEndian pkt) (\<lambda>v.
        Inr ((put_reg 0x20 2 (ucast (masked16 MMIO_BASE_MASK (ucast v) (reg16 0x20 c))) c)\<lparr>valid_memory_base := True\<rparr>, True))
      else if offset = 0x22 then sbind (pkt_get 2 LittleEndian pkt) (\<lambda>v.
        Inr ((put_reg 0x22 2 (ucast (masked16 MMIO_LIMIT_MASK (ucast v) (reg16 0x22 c))) c)\<lparr>valid_memory_limit := True\<rparr>, True))
      else if offset = 0x24 then sbind (pkt_get 2 LittleEndian pkt) (\<lambda>v.
        Inr ((put_reg 0x24 2 (ucast (masked16 PREFETCH_MEM_BASE_MASK (ucast v) (reg16 0x24 c))) c)
               \<lparr>valid_prefetchable_memory_base := True\<rparr>, True))
      else if offset = 0x26 then sbind (pkt_get 2 LittleEndian pkt) (\<lambda>v.
        Inr ((put_reg 0x26 2 (ucast ((ucast v AND NOT PREFETCH_MEM_LIMIT_MASK) OR (reg16 0x26 c AND PREFETCH_MEM_BASE_MASK))) c)
               \<lparr>valid_prefetchable_memory_limit := True\<rparr>, True))
      else if offset = 0x30 then Inr (c\<lparr>valid_io_base := True\<rparr>, True)
      else if offset = 0x32 then Inr (c\<lparr>valid_io_limit := True\<rparr>, True)
      else if offset = 0x3E then sbind (pkt_get 2 LittleEndian pkt) (\<lambda>v. Inr (put_reg 0x3E 2 v c, False))
      else if offset = 0x1C then sbind (pkt_get 2 LittleEndian pkt) (\<lambda>v.
        (let c' = put_reg 0x1C 1 (ucast (masked8 IO_BASE_MASK (ucast v) (reg8 0x1C c))) c
         in Inr ((put_reg 0x1D 1 (ucast (masked8 IO_LIMIT_MASK (ucast (drop_bit 8 v)) (reg8 0x1D c))) c')
                   \<lparr>valid_io_base := True, valid_io_limit := True\<rparr>, True)))
      else Inr (c, False))"

text \<open>Sizing and programming of the two base address registers; the first one inverts before it
  subtracts when it is an I/O register.\<close>

definition bridge_bar0 :: "u32 \<Rightarrow> config_class \<Rightarrow> config_class \<times> bool" where
  "bridge_bar0 val c =
     (let Bar0 = reg32 0x10 c; sz = barsize0 c in
      if val = 0xFFFFFFFF then
        (put_reg 0x10 4 (ucast (if bit Bar0 0 then (NOT sz - 1) OR (Bar0 AND IO_MASK)
                                else NOT (sz - 1) OR (Bar0 AND MEM_MASK))) c, False)
      else
        ((put_reg 0x10 4 (ucast (if bit Bar0 0 then (val AND NOT (sz - 1)) OR (Bar0 AND IO_MASK)
                                 else (val AND NOT (sz - 1)) OR (Bar0 AND MEM_MASK))) c)\<lparr>barflags0 := 1\<rparr>, True))"

definition bridge_bar1 :: "u32 \<Rightarrow> config_class \<Rightarrow> config_class \<times> bool" where
  "bridge_bar1 val c =
     (let Bar1 = reg32 0x14 c; sz = barsize1 c in
      if val = 0xFFFFFFFF then
        (put_reg 0x14 4 (ucast (if bit Bar1 0 then NOT (sz - 1) OR (Bar1 AND IO_MASK)
                                else NOT (sz - 1) OR (Bar1 AND MEM_MASK))) c, False)
      else
        ((put_reg 0x14 4 (ucast (if bit Bar1 0 then (val AND NOT (sz - 1)) OR (Bar1 AND IO_MASK)
                                 else (val AND NOT (sz - 1)) OR (Bar1 AND MEM_MASK))) c)\<lparr>barflags1 := 1\<rparr>, True))"

definition bridge_write4 :: "nat \<Rightarrow> packet \<Rightarrow> config_class \<Rightarrow> (config_class \<times> bool) res" where
  "bridge_write4 offset pkt c =
     (if offset = 0x38 then Inr (put_reg 0x38 4 0 c, False)
      else if offset = 0x28 then sbind (pkt_get 4 LittleEndian pkt) (\<lambda>v.
        Inr ((put_reg 0x28 4 v c)\<lparr>valid_prefetchable_memory_base := True\<rparr>, True))
      else if offset = 0x2C then sbind (pkt_get 4 LittleEndian pkt) (\<lambda>v.
        Inr ((put_reg 0x2C 4 v c)\<lparr>valid_prefetchable_memory_limit := True\<rparr>, True))
      else if offset = 0x10 then sbind (pkt_get 4 LittleEndian pkt) (\<lambda>v. Inr (bridge_bar0 (ucast v) c))
      else if offset = 0x14 then sbind (pkt_get 4 LittleEndian pkt) (\<lambda>v. Inr (bridge_bar1 (ucast v) c))
      else if offset = 0x20 then sbind (pkt_get 4 LittleEndian pkt) (\<lambda>v.
        (let base = (ucast v AND NOT MMIO_BASE_MASK) OR (reg16 0x20 c AND MMIO_LIMIT_MASK);
             limit = masked16 MMIO_LIMIT_MASK (ucast (drop_bit 16 v)) (reg16 0x22 c)
         in Inr ((put_reg 0x22 2 (ucast limit) (put_reg 0x20 2 (ucast base) c))
                   \<lparr>valid_memory_base := True, valid_memory_limit := True\<rparr>, True)))
      else if offset = 0x30 then Inr (c\<lparr>valid_io_base := True, valid_io_limit := True\<rparr>, True)
      else if offset = 0x24 then sbind (pkt_get 4 LittleEndian pkt) (\<lambda>v.
        (let base = masked16 PREFETCH_MEM_BASE_MASK (ucast v) (reg16 0x24 c);
             limit = (ucast (drop_bit 16 v) AND NOT PREFETCH_MEM_LIMIT_MASK) OR (reg16 0x26 c AND PREFETCH_MEM_BASE_MASK)
         in Inr ((put_reg 0x26 2 (ucast limit) (put_reg 0x24 2 (ucast base) c))
                   \<lparr>valid_prefetchable_memory_base := True, valid_prefetchable_memory_limit := True\<rparr>, True)))
      else if offset = 0x04 then sbind (pkt_get 4 LittleEndian pkt) (\<lambda>v.
        Inr (put_reg 0x06 2 (drop_bit 16 v) (put_reg 0x04 2 v c), False))
      else if offset = 0x18 then sbind (pkt_get 4 LittleEndian pkt) (\<lambda>v. Inr ((put_reg 0x18 4 v c)\<lparr>is_valid := 1\<rparr>, False))
      else Inr (c, False))"

text \<open>Writes to the capability structure; the guard asks for an offset below 20 and above 27.\<close>

definition bridge_write_cap :: "nat \<Rightarrow> nat \<Rightarrow> packet \<Rightarrow> config_class \<Rightarrow> config_class res" where
  "bridge_write_cap offset n pkt c =
     (if offset < SLOT_REG_BASE \<and> offset > SLOT_REG_LIMIT then
        if n \<in> {1, 2, 4} then
          if offset + n \<le> length (storage2 c) then
            sbind (pkt_get n LittleEndian pkt) (\<lambda>v. Inr (c\<lparr>storage2 := cfg_put offset n v (storage2 c)\<rparr>))
          else Inl Undefined_Behaviour
        else Inl Panic
      else Inr c)"

text \<open>The response ports that announce a range change, by their number.\<close>

definition range_change_ports :: "config_class \<Rightarrow> nat list" where
  "range_change_ports c =
     (if cc_id c = 0 \<or> cc_is_switch c = 0 then [0] else []) @ (if cc_id c = 1 then [1] else []) @
     (if cc_id c = 2 then [2] else []) @ (if cc_id c = 3 then [3] else [])"

definition bridge_writeConfig :: "packet \<Rightarrow> config_class \<Rightarrow> (tick \<times> packet \<times> config_class \<times> nat list) res" where
  "bridge_writeConfig pkt c =
     sbind (getAddr pkt) (\<lambda>a. sbind (getSize pkt) (\<lambda>sz.
       (let offset = bridge_offset a; n = unat sz; px = unat (PXCAPBaseOffset c)
        in if offset < PCIE_HEADER_SIZE \<and> \<not> isWritable offset
           then sbind (makeAtomicResponse pkt) (\<lambda>pkt. Inr (cc_configDelay c, pkt, c, []))
           else
             sbind (if offset < PCIE_HEADER_SIZE then
                      if n = 1 then bridge_write1 offset pkt c
                      else if n = 2 then bridge_write2 offset pkt c
                      else if n = 4 then bridge_write4 offset pkt c
                      else Inl Panic
                    else if px \<le> offset \<and> offset < px + PXCAPSIZE then
                      sbind (bridge_write_cap (offset - px) n pkt c) (\<lambda>c. Inr (c, False))
                    else Inl Panic) (\<lambda>(c, flag).
             sbind (makeAtomicResponse pkt) (\<lambda>pkt.
             Inr (cc_configDelay c, pkt, c, if flag then range_change_ports c else []))))))"

section \<open>Routing\<close>

datatype request_port = requestPort1 | requestPort2 | requestPort3 | requestPort_DMA

datatype response_port = responsePort | responsePort_DMA1 | responsePort_DMA2 | responsePort_DMA3

definition in_window :: "addr \<Rightarrow> addr \<Rightarrow> addr \<Rightarrow> bool" where
  "in_window address base limit \<longleftrightarrow> address \<ge> base \<and> address \<le> limit \<and> base \<noteq> 0 \<and> limit \<noteq> 0"

definition in_windows :: "addr \<Rightarrow> config_class \<Rightarrow> bool" where
  "in_windows address c \<longleftrightarrow> in_window address (getMemoryBase c) (getMemoryLimit c) \<or>
     in_window address (getPrefetchableMemoryBase c) (getPrefetchableMemoryLimit c) \<or>
     in_window address (getIOBase c) (getIOLimit c)"

definition getRequestPort :: "pci_bridge \<Rightarrow> addr \<Rightarrow> request_port" where
  "getRequestPort b address =
     (if in_windows address (storage_ptr1 b) then requestPort1
      else if in_windows address (storage_ptr2 b) then requestPort2
      else if in_windows address (storage_ptr3 b) then requestPort3
      else requestPort_DMA)"

definition serves_bus :: "int \<Rightarrow> config_class \<Rightarrow> bool" where
  "serves_bus bus_num c \<longleftrightarrow> bus_num \<ge> uint (reg8 0x19 c) \<and> bus_num \<le> uint (reg8 0x1A c) \<and> is_valid c = 1"

definition getResponsePort :: "pci_bridge \<Rightarrow> int \<Rightarrow> response_port" where
  "getResponsePort b bus_num =
     (if serves_bus bus_num (storage_ptr1 b) then responsePort_DMA1
      else if serves_bus bus_num (storage_ptr2 b) then responsePort_DMA2
      else if serves_bus bus_num (storage_ptr3 b) then responsePort_DMA3
      else responsePort)"

section \<open>Announced address ranges\<close>

definition fill_ranges :: "config_class \<Rightarrow> addr_range list" where
  "fill_ranges c =
     (if barsize0 c \<noteq> 0 \<and> getBar0 c \<noteq> 0 then [RangeSize (getBar0 c) (ucast (barsize0 c))] else []) @
     (if barsize1 c \<noteq> 0 \<and> getBar1 c \<noteq> 0 then [RangeSize (getBar1 c) (ucast (barsize1 c))] else []) @
     (if valid_memory_base c \<and> valid_memory_limit c \<and> getMemoryBase c < getMemoryLimit c \<and> getMemoryBase c \<noteq> 0
      then [RangeIn (getMemoryBase c) (getMemoryLimit c)] else []) @
     (if valid_prefetchable_memory_base c \<and> valid_prefetchable_memory_limit c \<and>
         getPrefetchableMemoryBase c < getPrefetchableMemoryLimit c \<and> getPrefetchableMemoryBase c \<noteq> 0
      then [RangeIn (getPrefetchableMemoryBase c) (getPrefetchableMemoryLimit c)] else []) @
     (if valid_io_base c \<and> valid_io_limit c \<and> getIOBase c < getIOLimit c \<and> getIOBase c \<noteq> 0
      then [RangeIn (getIOBase c) (getIOLimit c)] else [])"

fun downstream_loop :: "addr_range list \<Rightarrow> addr \<Rightarrow> addr_range list \<times> addr" where
  "downstream_loop [] last_val = ([], last_val)"
| "downstream_loop (r # rs) last_val =
     (let (out, v) = downstream_loop rs (r_end r + 1)
      in ((if last_val < r_start r then [RangeIn last_val (r_start r - 1)] else []) @ out, v))"

definition downstream_ranges :: "addr_range list \<Rightarrow> addr_range list" where
  "downstream_ranges ranges =
     (let (out, last_val) = downstream_loop ranges 0
      in if last_val = 0 then out else out @ [RangeIn last_val ADDR_MAX])"

definition bridge_getAddrRanges :: "pci_bridge \<Rightarrow> nat \<Rightarrow> bool \<Rightarrow> addr_range list" where
  "bridge_getAddrRanges b respID is_upstream =
     (let ranges =
        (if respID = 0 \<and> br_is_switch b = 0
         then fill_ranges (storage_ptr1 b) @ fill_ranges (storage_ptr2 b) @ fill_ranges (storage_ptr3 b)
         else if respID = 0 \<and> br_is_switch b = 1 then fill_ranges (storage_ptr4 b)
         else if respID = 1 then fill_ranges (storage_ptr1 b)
         else if respID = 2 then fill_ranges (storage_ptr2 b)
         else if respID = 3 then fill_ranges (storage_ptr3 b)
         else []);
          ranges = range_list_sort ranges
      in if is_upstream then ranges else downstream_ranges ranges)"

section \<open>Windows and their bounds\<close>

text \<open>A configuration structure whose three windows have been programmed, without base address
  registers, and whose prefetchable window stops below the last address.\<close>

definition programmed :: "config_class \<Rightarrow> bool" where
  "programmed c \<longleftrightarrow> barsize0 c = 0 \<and> barsize1 c = 0 \<and> valid_memory_base c \<and> valid_memory_limit c \<and>
     valid_prefetchable_memory_base c \<and> valid_prefetchable_memory_limit c \<and> valid_io_base c \<and> valid_io_limit c \<and>
     getPrefetchableMemoryLimit c \<noteq> ADDR_MAX"

text \<open>Bases are even and limits odd, so that a window is never empty by equality.\<close>

lemma even_ucast: "even (ucast (x :: u32) :: u64) \<longleftrightarrow> even x"
proof -
  have "bit (ucast x :: u64) 0 \<longleftrightarrow> bit x 0" by (subst bit_ucast_iff) simp
  then show ?thesis by (simp add: bit_0)
qed

lemma even_scast: "even (scast (x :: u32) :: u64) \<longleftrightarrow> even x"
proof -
  have "bit (scast x :: u64) 0 \<longleftrightarrow> bit x 0" by (subst bit_signed_iff) simp
  then show ?thesis by (simp add: bit_0)
qed

lemma bases_even: "even (getMemoryBase c)" "even (getPrefetchableMemoryBase c)" "even (getIOBase c)"
  by (simp_all add: getMemoryBase_def getPrefetchableMemoryBase_def getIOBase_def prefetch_shift_def Let_def
      even_ucast even_scast even_push_bit_iff)

lemma limits_odd: "odd (getMemoryLimit c)" "odd (getPrefetchableMemoryLimit c)" "odd (getIOLimit c)"
  by (simp_all add: getMemoryLimit_def getPrefetchableMemoryLimit_def getIOLimit_def Let_def even_ucast even_or_iff)

lemma base_neq_limit:
  "getMemoryBase c \<noteq> getMemoryLimit c" "getPrefetchableMemoryBase c \<noteq> getPrefetchableMemoryLimit c"
  "getIOBase c \<noteq> getIOLimit c"
  using bases_even [of c] limits_odd [of c] by auto

lemma limit_neq_max: "getMemoryLimit c \<noteq> ADDR_MAX" "getIOLimit c \<noteq> ADDR_MAX"
proof -
  have "ucast (x :: u32) \<noteq> (- 1 :: u64)" for x
  proof
    assume eq: "ucast x = (- 1 :: u64)"
    have "bit (ucast x :: u64) 40" unfolding eq by simp
    then show False by (auto simp: bit_simps dest: bit_imp_le_length)
  qed
  then show "getMemoryLimit c \<noteq> ADDR_MAX" "getIOLimit c \<noteq> ADDR_MAX"
    by (simp_all add: getMemoryLimit_def getIOLimit_def Let_def)
qed

lemma contains_RangeIn: "lim \<noteq> ADDR_MAX \<Longrightarrow> contains (RangeIn base lim) a \<longleftrightarrow> base \<le> a \<and> a \<le> lim"
  by (auto simp: contains_plain RangeIn_def word_less_nat_alt word_le_nat_alt unat_plus_one)

lemma window_announced:
  "base \<noteq> lim \<Longrightarrow> lim \<noteq> ADDR_MAX \<Longrightarrow>
   (\<exists>r\<in>set (if base < lim \<and> base \<noteq> 0 then [RangeIn base lim] else []). contains r a) \<longleftrightarrow> in_window a base lim"
  by (auto simp: contains_RangeIn in_window_def)

lemma fill_ranges_windows: "programmed c \<Longrightarrow> (\<exists>r\<in>set (fill_ranges c). contains r a) \<longleftrightarrow> in_windows a c"
  using window_announced [OF base_neq_limit(1) limit_neq_max(1), of c a]
    window_announced [OF base_neq_limit(2), of c a] window_announced [OF base_neq_limit(3) limit_neq_max(2), of c a]
  by (simp add: fill_ranges_def programmed_def in_windows_def bex_Un)

section \<open>The complement of the windows\<close>

text \<open>Windows in ascending order that do not overlap.\<close>

definition windows_ok :: "addr_range list \<Rightarrow> bool" where
  "windows_ok ws \<longleftrightarrow> sorted_wrt (\<lambda>v w. r_end v \<le> r_start w) ws \<and> (\<forall>w\<in>set ws. plain w \<and> r_start w < r_end w)"

lemma downstream_loop_contains:
  "windows_ok ws \<Longrightarrow> \<forall>w\<in>set ws. lv \<le> r_end w \<Longrightarrow> (\<exists>r\<in>set (fst (downstream_loop ws lv)). contains r a) \<longleftrightarrow>
   lv \<le> a \<and> (\<exists>w\<in>set ws. a < r_start w) \<and> (\<forall>w\<in>set ws. \<not> (r_start w \<le> a \<and> a \<le> r_end w))"
proof (induction ws arbitrary: lv)
  case (Cons w ws)
  have ok: "windows_ok ws" and w: "plain w" "r_start w < r_end w" and after: "\<forall>v\<in>set ws. r_end w \<le> r_start v \<and> r_start v < r_end v"
    using Cons.prems by (auto simp: windows_ok_def)
  have "contains (RangeIn lv (r_start w - 1)) a \<longleftrightarrow> lv \<le> a \<and> a < r_start w" if "lv < r_start w"
    using that by (simp add: contains_plain RangeIn_def)
  then have head: "(\<exists>r\<in>set (if lv < r_start w then [RangeIn lv (r_start w - 1)] else []). contains r a) \<longleftrightarrow> lv \<le> a \<and> a < r_start w"
    by auto
  have split: "(\<exists>r\<in>set (fst (downstream_loop (w # ws) lv)). contains r a) \<longleftrightarrow>
      (lv \<le> a \<and> a < r_start w) \<or> (\<exists>r\<in>set (fst (downstream_loop ws (r_end w + 1))). contains r a)"
    using head by (simp add: case_prod_unfold Let_def bex_Un)
  have below: "r_end w < r_end v" "r_end w + 1 \<le> r_end v" "r_end w + 1 \<le> a \<longleftrightarrow> r_end w < a" if "v \<in> set ws" for v
  proof -
    show less: "r_end w < r_end v" using after that by fastforce
    have "r_end w \<noteq> - 1"
    proof
      assume "r_end w = - 1"
      with less have "- 1 < r_end v" by simp
      then show False using word_order.extremum_strict by blast
    qed
    then have "unat (r_end w + 1) = Suc (unat (r_end w))" using unat_plus_one [of "r_end w"] by simp
    then show "r_end w + 1 \<le> r_end v" "r_end w + 1 \<le> a \<longleftrightarrow> r_end w < a"
      using less by (simp_all add: word_less_nat_alt word_le_nat_alt Suc_le_eq)
  qed
  then have IH: "(\<exists>r\<in>set (fst (downstream_loop ws (r_end w + 1))). contains r a) \<longleftrightarrow>
      r_end w < a \<and> (\<exists>v\<in>set ws. a < r_start v) \<and> (\<forall>v\<in>set ws. \<not> (r_start v \<le> a \<and> a \<le> r_end v))"
    using Cons.IH [OF ok, of "r_end w + 1"] by blast
  have lv: "lv \<le> r_end w" using Cons.prems(2) by simp
  show ?case
  proof (cases "a < r_start w")
    case True
    then have "\<forall>v\<in>set ws. a < r_start v" using w(2) after by fastforce
    then show ?thesis using True w(2) unfolding split IH by (auto simp: not_le)
  next
    case False
    then show ?thesis using lv unfolding split IH by (auto simp: not_le not_less)
  qed
qed simp

lemma downstream_ranges_contains:
  assumes "windows_ok ws"
  shows "(\<exists>r\<in>set (downstream_ranges ws). contains r a) \<longleftrightarrow>
    (\<exists>w\<in>set ws. a < r_start w) \<and> (\<forall>w\<in>set ws. \<not> contains w a \<and> a \<noteq> r_end w)"
proof -
  have "contains (RangeIn lv ADDR_MAX) a = False" for lv by (simp add: contains_plain RangeIn_def)
  then have "(\<exists>r\<in>set (downstream_ranges ws). contains r a) \<longleftrightarrow> (\<exists>r\<in>set (fst (downstream_loop ws 0)). contains r a)"
    by (auto simp: downstream_ranges_def case_prod_unfold Let_def)
  also have "\<dots> \<longleftrightarrow> (\<exists>w\<in>set ws. a < r_start w) \<and> (\<forall>w\<in>set ws. \<not> contains w a \<and> a \<noteq> r_end w)"
    using assms downstream_loop_contains [OF assms, of 0 a]
    by (auto simp: windows_ok_def contains_plain order_le_less word_gt_0)
  finally show ?thesis .
qed

section \<open>Read-only registers\<close>

text \<open>The bytes of the header that some write changes.\<close>

definition bridge_writable :: "nat set" where
  "bridge_writable = {4..<8} \<union> {0x0F..<0x30} \<union> {0x38..<0x3D} \<union> {0x3E, 0x3F}"

definition bridge_step :: "config_class \<Rightarrow> config_class \<Rightarrow> bool" where
  "bridge_step c c' \<longleftrightarrow> length (storage1 c') = 64 \<and> storage2 c' = storage2 c \<and>
     (\<forall>i < 64. i \<notin> bridge_writable \<longrightarrow> storage1 c' ! i = storage1 c ! i)"

lemma bridge_step_refl: "length (storage1 c) = 64 \<Longrightarrow> bridge_step c c"
  by (simp add: bridge_step_def)

lemma bridge_step_put:
  assumes "bridge_step c c'" "{off..<off + n} \<subseteq> bridge_writable" "off + n \<le> 64"
  shows "bridge_step c (put_reg off n v c')"
proof -
  have "i \<notin> {off..<off + n}" if "i \<notin> bridge_writable" for i using assms(2) that by blast
  then show ?thesis using assms(1,3) by (simp add: bridge_step_def put_reg_def cfg_put_other)
qed

lemma bridge_step_flags [simp]:
  "bridge_step c (c'\<lparr>is_valid := v\<rparr>) = bridge_step c c'"
  "bridge_step c (c'\<lparr>valid_io_base := b\<rparr>) = bridge_step c c'"
  "bridge_step c (c'\<lparr>valid_io_limit := b\<rparr>) = bridge_step c c'"
  "bridge_step c (c'\<lparr>valid_memory_base := b\<rparr>) = bridge_step c c'"
  "bridge_step c (c'\<lparr>valid_memory_limit := b\<rparr>) = bridge_step c c'"
  "bridge_step c (c'\<lparr>valid_prefetchable_memory_base := b\<rparr>) = bridge_step c c'"
  "bridge_step c (c'\<lparr>valid_prefetchable_memory_limit := b\<rparr>) = bridge_step c c'"
  "bridge_step c (c'\<lparr>barflags0 := x\<rparr>) = bridge_step c c'"
  "bridge_step c (c'\<lparr>barflags1 := x\<rparr>) = bridge_step c c'"
  by (simp_all add: bridge_step_def)

lemma writable_registers:
  "n \<le> 33 \<Longrightarrow> off \<in> {0x0F..<0x30} \<Longrightarrow> off + n \<le> 0x30 \<Longrightarrow> {off..<off + n} \<subseteq> bridge_writable"
  by (auto simp: bridge_writable_def)

lemma bridge_write1_step:
  "length (storage1 c) = 64 \<Longrightarrow> bridge_write1 off pkt c = Inr (c', f) \<Longrightarrow> bridge_step c c'"
  by (auto simp: bridge_write1_def res_simps bridge_writable_def intro!: bridge_step_put bridge_step_refl split: if_splits)

lemma bridge_write2_step:
  "length (storage1 c) = 64 \<Longrightarrow> bridge_write2 off pkt c = Inr (c', f) \<Longrightarrow> bridge_step c c'"
  by (auto simp: bridge_write2_def res_simps Let_def bridge_writable_def intro!: bridge_step_put bridge_step_refl split: if_splits)

lemma bridge_bars_step:
  assumes "length (storage1 c) = 64"
  shows "bridge_step c (fst (bridge_bar0 v c))" "bridge_step c (fst (bridge_bar1 v c))"
  using assms
  by (auto simp: bridge_bar0_def bridge_bar1_def Let_def bridge_writable_def intro!: bridge_step_put bridge_step_refl)

lemma bridge_write4_step:
  assumes "length (storage1 c) = 64" "bridge_write4 off pkt c = Inr (c', f)"
  shows "bridge_step c c'"
  using assms bridge_bars_step [of c]
  by (auto simp: bridge_write4_def res_simps Let_def bridge_writable_def intro!: bridge_step_put bridge_step_refl split: if_splits)
    (metis fst_conv)+

lemma bridge_write_cap_same: "bridge_write_cap off n pkt c = Inr c' \<Longrightarrow> c' = c"
  by (auto simp: bridge_write_cap_def split: if_splits)

lemma bridge_writeConfig_step:
  assumes "length (storage1 c) = 64" "bridge_writeConfig pkt c = Inr (t, pkt', c', ns)"
  shows "bridge_step c c'"
  using assms
  by (auto simp: bridge_writeConfig_def res_simps Let_def split: if_splits
      dest: bridge_write_cap_same intro: bridge_write1_step bridge_write2_step bridge_write4_step bridge_step_refl)

section \<open>A root complex\<close>

text \<open>A root complex with the parameters of \<^verbatim>\<open>RootComplex\<close>; the windows of its first two ports are open
  and those of the third are closed, with the base above the limit.\<close>

definition sample_bridge_params :: bridge_params where
  "sample_bridge_params =
     \<lparr>bp_is_switch = 0, bp_pci_bus = 0, bp_upstream_dev = 0, bp_upstream_func = 0,
      bp_dev_func = [(4, 0), (5, 0), (6, 0)], bp_DeviceIds = [0x9c90, 0x9c92, 0x9c94], bp_DeviceId_upstream = 0x8232,
      bp_VendorId = 0x8086, bp_Command = 0x0407, bp_Status = 0x10, bp_ClassCode = 6, bp_SubClassCode = 4, bp_ProgIF = 0,
      bp_Revision = 0, bp_BIST = 0, bp_HeaderType = 1, bp_LatencyTimer = 0, bp_CacheLineSize = 0,
      bp_Bar0 = 0, bp_Bar1 = 0, bp_BAR0Size = 0, bp_BAR1Size = 0,
      bp_PrimaryBusNumber = 0, bp_SecondaryBusNumber = 0, bp_SubordinateBusNumber = 0, bp_SecondaryLatencyTimer = 0,
      bp_IOBase = 1, bp_IOLimit = 1, bp_SecondaryStatus = 0, bp_MemoryBase = 0, bp_MemoryLimit = 0,
      bp_PrefetchableMemoryBase = 0, bp_PrefetchableMemoryLimit = 0, bp_PrefetchableMemoryBaseUpper = 0,
      bp_PrefetchableMemoryLimitUpper = 0, bp_IOBaseUpper = 0x2f00, bp_IOLimitUpper = 0x2f00,
      bp_CapabilityPointer = 0xD0, bp_ExpansionROMBaseAddress = 0, bp_InterruptLine = 0x20, bp_InterruptPin = 1,
      bp_BridgeControl = 0, bp_PXCAPBaseOffset = 0xD0, bp_PXCAPCapId = 0x10, bp_PXCAPNextCapability = 0,
      bp_PXCAPCapabilities = 0x41, bp_PXCAPCapabilities_downstream = 0x61, bp_PXCAPCapabilities_upstream = 0x51,
      bp_PXCAPDevCapabilities = 0x241, bp_PXCAPDevCtrl = 0x1020, bp_PXCAPDevStatus = 0, bp_PXCAPLinkCap = 0x01009011,
      bp_PXCAPLinkCtrl = 8, bp_PXCAPLinkStatus = 0x11, bp_PXCAPRootStatus = 0, bp_PXCAPRootControl = 0,
      bp_config_latency = 20000\<rparr>"

definition raw_config :: config_class where
  "raw_config =
     \<lparr>storage1 = replicate 64 0, storage2 = replicate 36 0, barsize0 = 0, barsize1 = 0, barflags0 = 0, barflags1 = 0,
      cc_configDelay = 0, PXCAPBaseOffset = 0, cc_is_switch = 0, cc_id = 0, is_valid = 0,
      valid_io_base = False, valid_io_limit = False, valid_prefetchable_memory_base = False,
      valid_prefetchable_memory_limit = False, valid_memory_base = False, valid_memory_limit = False\<rparr>"

definition window_config :: "u16 \<Rightarrow> u16 \<Rightarrow> u16 \<Rightarrow> u16 \<Rightarrow> u8 \<Rightarrow> u8 \<Rightarrow> config_class" where
  "window_config mb ml pb pl ib il =
     (initialize_ports raw_config (sample_bridge_params
        \<lparr>bp_MemoryBase := mb, bp_MemoryLimit := ml, bp_PrefetchableMemoryBase := pb,
         bp_PrefetchableMemoryLimit := pl, bp_IOBase := ib, bp_IOLimit := il\<rparr>))
       \<lparr>valid_memory_base := True, valid_memory_limit := True, valid_prefetchable_memory_base := True,
        valid_prefetchable_memory_limit := True, valid_io_base := True, valid_io_limit := True\<rparr>"

definition sample_bridge :: pci_bridge where
  "sample_bridge =
     \<lparr>storage_ptr1 = window_config 0x4000 0x4010 0x5000 0x5010 0x11 0x21,
      storage_ptr2 = window_config 0x6020 0x6020 0x7000 0x7010 0x31 0x41,
      storage_ptr3 = window_config 0xFFF0 0 0xFFF0 0 0xF1 0x01,
      storage_ptr4 = raw_config, br_is_switch = 0\<rparr>"

lemma sample_bridge_programmed:
  "programmed (storage_ptr1 sample_bridge) \<and> programmed (storage_ptr2 sample_bridge) \<and>
   programmed (storage_ptr3 sample_bridge) \<and> br_is_switch sample_bridge = 0"
  by code_simp

section \<open>Properties\<close>

text \<open>
  C34: Once the windows of the three root ports are programmed, the ranges the root complex announces
  upstream and its routing agree: a request is sent to a downstream port exactly when its address is
  in an announced range, and to the first port whose windows contain it.
\<close>

theorem announced_ranges_routed:
  assumes "programmed (storage_ptr1 b)" "programmed (storage_ptr2 b)" "programmed (storage_ptr3 b)" "br_is_switch b = 0"
  shows "((\<exists>r\<in>set (bridge_getAddrRanges b 0 True). contains r a) \<longleftrightarrow> getRequestPort b a \<noteq> requestPort_DMA) \<and>
    (getRequestPort b a = requestPort1 \<longleftrightarrow> (\<exists>r\<in>set (bridge_getAddrRanges b 1 True). contains r a)) \<and>
    (getRequestPort b a = requestPort2 \<longleftrightarrow> (\<exists>r\<in>set (bridge_getAddrRanges b 2 True). contains r a) \<and>
       \<not> (\<exists>r\<in>set (bridge_getAddrRanges b 1 True). contains r a))"
  using assms
  by (simp add: bridge_getAddrRanges_def getRequestPort_def set_range_list_sort bex_Un fill_ranges_windows)

theorem announced_ranges_routed_witness:
  "getRequestPort sample_bridge 0x401FFFFF = requestPort1 \<and> getRequestPort sample_bridge 0x60200000 = requestPort2 \<and>
   \<not> (\<exists>r\<in>set (bridge_getAddrRanges sample_bridge 0 True). contains r 0x40200000)"
proof -
  have "getRequestPort sample_bridge 0x401FFFFF = requestPort1" "getRequestPort sample_bridge 0x60200000 = requestPort2"
    "getRequestPort sample_bridge 0x40200000 = requestPort_DMA"
    by code_simp+
  then show ?thesis
    using announced_ranges_routed [of sample_bridge "0x40200000"] sample_bridge_programmed by simp
qed

text \<open>
  C35: The ranges a downstream port announces towards its device, meant to be the complement of the
  port's windows, are determined exactly for windows that do not overlap: an address belongs to one
  of them if and only if it is below the start of some window, in no window, and not the first
  address after a window.  No address above the last window is announced, because the inclusive end
  of the last range wraps around to 0.
\<close>

theorem downstream_ranges_exact:
  assumes "windows_ok (bridge_getAddrRanges b i True)"
  shows "(\<exists>r\<in>set (bridge_getAddrRanges b i False). contains r a) \<longleftrightarrow>
    (\<exists>w\<in>set (bridge_getAddrRanges b i True). a < r_start w) \<and>
    (\<forall>w\<in>set (bridge_getAddrRanges b i True). \<not> contains w a \<and> a \<noteq> r_end w)"
  using downstream_ranges_contains [of "bridge_getAddrRanges b i True" a] assms
  by (simp add: bridge_getAddrRanges_def Let_def)

theorem downstream_ranges_exact_witness:
  "(\<exists>r\<in>set (bridge_getAddrRanges sample_bridge 1 False). contains r 0x3FFFFFFF) \<and>
   \<not> (\<exists>r\<in>set (bridge_getAddrRanges sample_bridge 1 False). contains r 0x40200000) \<and>
   \<not> (\<exists>r\<in>set (bridge_getAddrRanges sample_bridge 1 False). contains r 0x80000000)"
proof -
  have ws: "bridge_getAddrRanges sample_bridge 1 True =
      [AddrRange 0x2f001000 0x2f003000, AddrRange 0x40000000 0x40200000, AddrRange 0x50000000 0x50200000]"
    by code_simp
  have "windows_ok (bridge_getAddrRanges sample_bridge 1 True)" unfolding ws windows_ok_def by simp
  note exact = downstream_ranges_exact [OF this]
  show ?thesis unfolding exact ws by (simp add: contains_plain)
qed

text \<open>
  A configuration write to a bridge never changes its capability structure and changes no byte
  of the header outside the registers that software may program: identification, class, cache line
  size, latency timer, header type, the upper I/O registers, the capability pointer and the interrupt
  pin keep their values.
\<close>

lemma bridge_readonly_kept:
  assumes "length (storage1 c) = 64" "bridge_writeConfig pkt c = Inr (t, pkt', c', ns)"
  shows "length (storage1 c') = 64 \<and> storage2 c' = storage2 c \<and>
    (\<forall>i\<in>{0..<4} \<union> {8..<0xF} \<union> {0x30..<0x38} \<union> {0x3D}. storage1 c' ! i = storage1 c ! i)"
  using bridge_writeConfig_step [OF assms] by (auto simp: bridge_step_def bridge_writable_def)

lemma bridge_readonly_kept_witness:
  "\<exists>t q c' ns. bridge_writeConfig (data_packet WriteReq 0x20 [0x25, 0x40, 0x35, 0x40]) raw_config = Inr (t, q, c', ns) \<and>
     getMemoryBase c' = 0x40200000 \<and> storage1 c' ! 0 = storage1 raw_config ! 0"
proof -
  have run: "map_sum id (\<lambda>(t, q, c', ns). getMemoryBase c')
      (bridge_writeConfig (data_packet WriteReq 0x20 [0x25, 0x40, 0x35, 0x40]) raw_config) = Inr 0x40200000"
    by code_simp
  then obtain t q c' ns where w: "bridge_writeConfig (data_packet WriteReq 0x20 [0x25, 0x40, 0x35, 0x40]) raw_config = Inr (t, q, c', ns)"
    by (cases "bridge_writeConfig (data_packet WriteReq 0x20 [0x25, 0x40, 0x35, 0x40]) raw_config") auto
  have "length (storage1 raw_config) = 64" by (simp add: raw_config_def)
  from bridge_readonly_kept [OF this w] run w show ?thesis by auto
qed

end
