(* ===== verification/Deferred_Queue.thy ===== *)
theory Deferred_Queue
  imports Packet
begin

text \<open>
  What the queues of timed packets share: the comparison of the addresses of two packets, events that
  send the packets, functional accesses to waiting packets, and the contract of an insertion that never
  puts a packet in front of an earlier one to the same address.
\<close>

section \<open>Operations\<close>

abbreviation (input) MaxTick :: tick where "MaxTick \<equiv> - 1"

type_synonym deferred = "(tick \<times> packet) list"

definition matchAddr_pkt :: "packet \<Rightarrow> packet \<Rightarrow> bool res" where
  "matchAddr_pkt other p = sbind (getAddr other) (\<lambda>a. sbind (pkt_isSecure other) (\<lambda>sec. matchAddr a sec p))"

definition matchBlockAddr_pkt :: "packet \<Rightarrow> u32 \<Rightarrow> packet \<Rightarrow> bool res" where
  "matchBlockAddr_pkt other blk_size p =
     sbind (getBlockAddr blk_size other) (\<lambda>a. sbind (pkt_isSecure other) (\<lambda>sec. matchBlockAddr a sec blk_size p))"

text \<open>The delay a packet has collected on its way; the sum is taken in 32 bits.\<close>

definition receive_delay :: "packet \<Rightarrow> tick" where
  "receive_delay p = ucast (headerDelay p + payloadDelay p)"

definition no_delay :: "packet \<Rightarrow> packet" where
  "no_delay p = p\<lparr>headerDelay := 0, payloadDelay := 0\<rparr>"

text \<open>
  Scheduling an event that is already scheduled, or in the past, stops at an assertion.  Rescheduling
  moves the event, and with \<^verbatim>\<open>always\<close> set also schedules an event that is not scheduled.
\<close>

definition schedule_at :: "tick option \<Rightarrow> tick \<Rightarrow> tick \<Rightarrow> tick option res" where
  "schedule_at ev now t = (if ev = None \<and> now \<le> t then Inr (Some t) else Inl Assert_Failed)"

definition reschedule_at :: "tick option \<Rightarrow> tick \<Rightarrow> tick \<Rightarrow> bool \<Rightarrow> tick option res" where
  "reschedule_at ev now t always = (if now \<le> t \<and> (always \<or> ev \<noteq> None) then Inr (Some t) else Inl Assert_Failed)"

text \<open>Whether an object is being drained before a checkpoint.\<close>

datatype drain_state = Running | Draining | Drained | Resuming

definition signalDrainDone :: "drain_state \<Rightarrow> drain_state" where
  "signalDrainDone s = (if s = Draining then Drained else s)"

text \<open>A functional packet is matched against the waiting packets, the first one first, until it is done.\<close>

fun satisfy_from :: "packet \<Rightarrow> deferred \<Rightarrow> (bool \<times> packet \<times> deferred) res" where
  "satisfy_from p [] = Inr (False, p, [])"
| "satisfy_from p ((t, x) # q) =
     sbind (trySatisfyFunctional_pkt x p) (\<lambda>(found, p, x).
       if found then Inr (True, p, (t, x) # q)
       else sbind (satisfy_from p q) (\<lambda>(found, p, q). Inr (found, p, (t, x) # q)))"

section \<open>Addresses\<close>

definition match_key :: "packet \<Rightarrow> addr \<times> bool" where
  "match_key p = (p_addr p, p_isSecure p)"

definition addr_ok :: "packet \<Rightarrow> bool" where
  "addr_ok p \<longleftrightarrow> isSet (p_flags p) P_VALID_ADDR"

lemma matchAddr_pkt_key: "matchAddr_pkt y x = Inr b \<Longrightarrow> b \<longleftrightarrow> match_key x = match_key y"
  by (auto simp: matchAddr_pkt_def matchAddr_def getAddr_def pkt_isSecure_def match_key_def res_simps)

lemma matchAddr_pkt_ok: "addr_ok x \<Longrightarrow> addr_ok y \<Longrightarrow> matchAddr_pkt y x = Inr (match_key x = match_key y)"
  by (simp add: matchAddr_pkt_def matchAddr_def getAddr_def pkt_isSecure_def match_key_def addr_ok_def)

lemma no_delay_simps [simp]:
  "p_cmd (no_delay p) = p_cmd p" "match_key (no_delay p) = match_key p" "addr_ok (no_delay p) = addr_ok p"
  by (simp_all add: no_delay_def match_key_def addr_ok_def)

lemma schedule_at_Inr_iff [res_simps]: "schedule_at ev now t = Inr ev' \<longleftrightarrow> ev = None \<and> now \<le> t \<and> ev' = Some t"
  by (auto simp: schedule_at_def)

lemma reschedule_at_Inr_iff [res_simps]:
  "reschedule_at ev now t al = Inr ev' \<longleftrightarrow> now \<le> t \<and> (al \<or> ev \<noteq> None) \<and> ev' = Some t"
  by (auto simp: reschedule_at_def)

section \<open>Insertions that keep the order of an address\<close>

text \<open>The packets of a queue that go to one address, in their order.\<close>

definition at_key :: "addr \<times> bool \<Rightarrow> packet list \<Rightarrow> packet list" where
  "at_key k ps = filter (\<lambda>p. match_key p = k) ps"

lemma at_key_simps [simp]:
  "at_key k [] = []" "at_key k (ps @ qs) = at_key k ps @ at_key k qs"
  "at_key k (p # ps) = (if match_key p = k then p # at_key k ps else at_key k ps)"
  by (simp_all add: at_key_def)

definition accepted_in_order :: "packet list \<Rightarrow> packet list \<Rightarrow> deferred \<Rightarrow> bool" where
  "accepted_in_order acc sent q \<longleftrightarrow> (\<forall>k. at_key k acc = at_key k (sent @ map snd q))"

lemma accepted_in_order_send [simp]:
  "accepted_in_order acc (sent @ [p]) q \<longleftrightarrow> accepted_in_order acc sent ((t, p) # q)"
  by (simp add: accepted_in_order_def)

text \<open>All packets that were accepted were sent or are waiting, each as often as it was accepted.\<close>

lemma accepted_in_order_count:
  assumes "accepted_in_order acc sent q"
  shows "count_list acc p = count_list sent p + count_list (map snd q) p"
proof -
  have c: "count_list ps p = count_list (at_key (match_key p) ps) p" for ps by (induction ps) auto
  have "at_key (match_key p) acc = at_key (match_key p) (sent @ map snd q)"
    using assms unfolding accepted_in_order_def by (rule spec)
  then have "count_list acc p = count_list (at_key (match_key p) (sent @ map snd q)) p"
    using c [of acc] by (simp only:)
  also have "\<dots> = count_list (sent @ map snd q) p" by (rule c [symmetric])
  finally show ?thesis by simp
qed

locale keyed_insertion =
  fixes ins :: "tick \<Rightarrow> packet \<Rightarrow> deferred \<Rightarrow> deferred res"
  assumes ins_law: "ins t p q = Inr q' \<Longrightarrow>
      \<exists>pre post. q = pre @ post \<and> q' = pre @ (t, p) # post \<and> (\<forall>y\<in>set post. match_key (snd y) \<noteq> match_key p)"
begin

lemma ins_keeps_order:
  assumes "ins t p q = Inr q'" "accepted_in_order acc sent q"
  shows "accepted_in_order (acc @ [p]) sent q'"
proof -
  obtain pre post where q: "q = pre @ post" "q' = pre @ (t, p) # post"
    and d: "\<forall>y\<in>set post. match_key (snd y) \<noteq> match_key p" using ins_law [OF assms(1)] by blast
  have "at_key (match_key p) (map snd post) = []" using d by (auto simp: at_key_def filter_empty_conv)
  then show ?thesis using assms(2) by (auto simp: accepted_in_order_def q)
qed

lemma ins_members: "ins t p q = Inr q' \<Longrightarrow> set q' = insert (t, p) (set q)"
  using ins_law [of t p q q'] by auto

lemma ins_length: "ins t p q = Inr q' \<Longrightarrow> length q' = Suc (length q)"
  using ins_law [of t p q q'] by auto

end

end
