(* ===== verification/Pci_Bridge_Queue.thy ===== *)
theory Pci_Bridge_Queue
  imports Pci_Bridge2 Byte_Memory Deferred_Queue
begin

text \<open>
  Model of the timing side of the root complex and switch (\<^verbatim>\<open>src/gem5/src/dev/PciBridge2.cc\<close>): the
  request and response queues of the ports, the reservation of response slots, retries, and atomic
  and functional accesses.  Sending a packet calls the neighbour, which may call back before it answers, so the
  operation is split at the call: one part runs up to it, one part runs with the answer.  The ports that are told to
  retry are part of the result.
\<close>

section \<open>State\<close>

record request_queue =
  rq_list :: "(tick \<times> packet) list"
  reqQueueLimit :: nat
  rq_delay :: tick
  rq_sendEvent :: "tick option"
  totalCount :: u64

record response_queue =
  sq_list :: "(tick \<times> packet) list"
  outstandingResponses :: u32
  respQueueLimit :: u32
  retryReq :: bool
  sq_delay :: tick
  sq_sendEvent :: "tick option"

record bridge_state =
  brg :: pci_bridge
  rqs :: "request_port \<Rightarrow> request_queue"
  sqs :: "response_port \<Rightarrow> response_queue"
  upstream_bus :: int
  rcid :: nat
  is_transmit :: int
  br_tick :: tick

definition set_rq :: "request_port \<Rightarrow> request_queue \<Rightarrow> bridge_state \<Rightarrow> bridge_state" where
  "set_rq i q s = s\<lparr>rqs := (rqs s)(i := q)\<rparr>"

definition set_sq :: "response_port \<Rightarrow> response_queue \<Rightarrow> bridge_state \<Rightarrow> bridge_state" where
  "set_sq i q s = s\<lparr>sqs := (sqs s)(i := q)\<rparr>"


definition respQueueFull :: "response_queue \<Rightarrow> bool" where
  "respQueueFull q \<longleftrightarrow> outstandingResponses q = respQueueLimit q"

definition reqQueueFull :: "request_queue \<Rightarrow> bool" where
  "reqQueueFull q \<longleftrightarrow> length (rq_list q) = reqQueueLimit q"

section \<open>Operations\<close>

definition schedTimingReq :: "request_port \<Rightarrow> packet \<Rightarrow> tick \<Rightarrow> bridge_state \<Rightarrow> bridge_state res" where
  "schedTimingReq i p t s =
     (let q = rqs s i in
      sbind (if rq_list q = [] then schedule_at (rq_sendEvent q) (br_tick s) t else Inr (rq_sendEvent q)) (\<lambda>ev.
      sbind (sassert (length (rq_list q) \<noteq> reqQueueLimit q)) (\<lambda>_.
      Inr (set_rq i (q\<lparr>rq_sendEvent := ev, rq_list := rq_list q @ [(t, p)]\<rparr>) s))))"


text \<open>The first bridge of a root complex a request meets stamps it with the bus it came from.\<close>

definition requester_bus :: "response_port \<Rightarrow> bridge_state \<Rightarrow> int" where
  "requester_bus i s =
     (case i of
        responsePort \<Rightarrow> upstream_bus s
      | responsePort_DMA1 \<Rightarrow> uint (reg8 0x19 (storage_ptr1 (brg s)))
      | responsePort_DMA2 \<Rightarrow> uint (reg8 0x19 (storage_ptr2 (brg s)))
      | responsePort_DMA3 \<Rightarrow> uint (reg8 0x19 (storage_ptr3 (brg s))))"

definition assign_requester :: "response_port \<Rightarrow> bridge_state \<Rightarrow> packet \<Rightarrow> packet" where
  "assign_requester i s p =
     (if req_bus p ! rcid s = - 1
      then p\<lparr>req_bus := (req_bus p)[rcid s := requester_bus i s], req_dev := (req_dev p)[rcid s := 0],
             req_func := (req_func p)[rcid s := 0]\<rparr>
      else p)"

definition recvTimingReq :: "response_port \<Rightarrow> packet \<Rightarrow> bridge_state \<Rightarrow> (bool \<times> packet \<times> bridge_state) res" where
  "recvTimingReq i p s =
     sbind (getAddr p) (\<lambda>a.
       (let rp = getRequestPort (brg s) a; p = assign_requester i s p; q = sqs s i in
        if cacheResponding p then Inl Panic
        else if retryReq q then Inr (False, p, s)
        else if reqQueueFull (rqs s rp) \<or> needsResponse (p_cmd p) \<and> respQueueFull q
          then Inr (False, p, set_sq i (q\<lparr>retryReq := True\<rparr>) s)
        else
          (let q' = (if needsResponse (p_cmd p) then q\<lparr>outstandingResponses := outstandingResponses q + 1\<rparr> else q) in
           sbind (schedTimingReq rp (no_delay p) (sq_delay q + receive_delay p) (set_sq i q' s)) (\<lambda>s.
           Inr (True, no_delay p, s)))))"



definition retryStalledReq :: "response_port \<Rightarrow> bridge_state \<Rightarrow> response_port list \<times> bridge_state" where
  "retryStalledReq i s =
     (if retryReq (sqs s i) then ([i], set_sq i ((sqs s i)\<lparr>retryReq := False\<rparr>) s) else ([], s))"






text \<open>Atomic accesses go to the routed port at once; the neighbour answers with a latency.\<close>

definition recvAtomic :: "response_port \<Rightarrow> packet \<Rightarrow> bridge_state \<Rightarrow> (request_port \<times> packet) res" where
  "recvAtomic i p s =
     (let p = assign_requester i s p in
      sbind (getAddr p) (\<lambda>a.
      if cacheResponding p then Inl Panic else Inr (getRequestPort (brg s) a, p)))"




section \<open>Steps of the bridge\<close>





section \<open>Invariant\<close>

definition rq_ok :: "request_queue \<Rightarrow> bool" where
  "rq_ok q \<longleftrightarrow> length (rq_list q) \<le> reqQueueLimit q \<and> 0 < reqQueueLimit q"

definition sq_ok :: "response_queue \<Rightarrow> bool" where
  "sq_ok q \<longleftrightarrow> outstandingResponses q \<le> respQueueLimit q \<and> 0 < respQueueLimit q"

text \<open>A port that owes its neighbour a retry waits for a queued request to leave or for one of its own
  responses to be sent.\<close>

definition has_cause :: "response_port \<Rightarrow> bridge_state \<Rightarrow> bool" where
  "has_cause i s \<longleftrightarrow> (\<exists>j. rq_list (rqs s j) \<noteq> []) \<or> outstandingResponses (sqs s i) \<noteq> 0"

definition queue_inv :: "bridge_state \<Rightarrow> bool" where
  "queue_inv s \<longleftrightarrow> (\<forall>j. rq_ok (rqs s j)) \<and> (\<forall>i. sq_ok (sqs s i)) \<and> (\<forall>i. retryReq (sqs s i) \<longrightarrow> has_cause i s)"

lemma set_queue_sel [simp]:
  "rqs (set_rq i q s) = (rqs s)(i := q)" "sqs (set_rq i q s) = sqs s"
  "sqs (set_sq k r s) = (sqs s)(k := r)" "rqs (set_sq k r s) = rqs s"
  "br_tick (set_rq i q s) = br_tick s" "br_tick (set_sq k r s) = br_tick s"
  "brg (set_rq i q s) = brg s" "brg (set_sq k r s) = brg s"
  by (simp_all add: set_rq_def set_sq_def)



lemma ok_frame [simp]:
  "sq_ok (q\<lparr>retryReq := b\<rparr>) = sq_ok q" "sq_ok (q\<lparr>sq_list := l\<rparr>) = sq_ok q" "sq_ok (q\<lparr>sq_sendEvent := e\<rparr>) = sq_ok q"
  "rq_ok (r\<lparr>rq_sendEvent := e\<rparr>) = rq_ok r" "rq_ok (r\<lparr>totalCount := n\<rparr>) = rq_ok r"
  by (simp_all add: sq_ok_def rq_ok_def)


lemma inv_set_sq:
  assumes "queue_inv s" "sq_ok q" "retryReq q \<longrightarrow> (\<exists>j. rq_list (rqs s j) \<noteq> []) \<or> outstandingResponses q \<noteq> 0"
  shows "queue_inv (set_sq i q s)"
  using assms by (auto simp: queue_inv_def has_cause_def)



lemma inv_retry: "queue_inv s \<Longrightarrow> queue_inv (snd (retryStalledReq i s))"
  by (auto simp: retryStalledReq_def intro!: inv_set_sq) (simp add: queue_inv_def)









lemma assign_requester_sel [simp]:
  "cacheResponding (assign_requester i s p) = cacheResponding p" "p_cmd (assign_requester i s p) = p_cmd p"
  "receive_delay (assign_requester i s p) = receive_delay p"
  by (simp_all add: assign_requester_def cacheResponding_def receive_delay_def)

lemma data_packet_delay: "receive_delay (data_packet c a bs) = 0"
  by (simp add: receive_delay_def data_packet_def packet_init_def)

text \<open>A root complex whose queues hold one packet each.\<close>

definition sample_queues :: "tick \<Rightarrow> bridge_state" where
  "sample_queues t =
     \<lparr>brg = sample_bridge,
      rqs = (\<lambda>_. \<lparr>rq_list = [], reqQueueLimit = 1, rq_delay = 50, rq_sendEvent = None, totalCount = 0\<rparr>),
      sqs = (\<lambda>_. \<lparr>sq_list = [], outstandingResponses = 0, respQueueLimit = 1, retryReq = False, sq_delay = 50, sq_sendEvent = None\<rparr>),
      upstream_bus = 0, rcid = 0, is_transmit = 0, br_tick = t\<rparr>"


section \<open>Properties\<close>



text \<open>
  C37: The bridge schedules its transmissions at the sum of its delay and the delays of the packet,
  without the current time.  As soon as the simulation has passed that sum, a request that finds the
  queue of its port empty and is not refused makes the simulator stop at the assertion that events lie
  in the future.
\<close>

theorem bridge_schedules_in_past:
  assumes "getAddr p = Inr a" "\<not> cacheResponding p" "\<not> retryReq (sqs s i)" "\<not> respQueueFull (sqs s i)"
    "rq_list (rqs s (getRequestPort (brg s) a)) = []" "0 < reqQueueLimit (rqs s (getRequestPort (brg s) a))"
    "sq_delay (sqs s i) + receive_delay p < br_tick s"
  shows "recvTimingReq i p s = Inl Assert_Failed"
  using assms by (simp add: recvTimingReq_def Let_def reqQueueFull_def schedTimingReq_def schedule_at_def not_le)

theorem bridge_schedules_in_past_witness:
  "recvTimingReq responsePort (data_packet ReadReq 0x40000000 [0]) (sample_queues 1000) = Inl Assert_Failed"
  by (rule bridge_schedules_in_past [where a = "0x40000000"])
    (simp_all add: sample_queues_def respQueueFull_def data_packet_delay)

end
