(* ===== verification/Cxl_Memory.thy ===== *)
theory Cxl_Memory
  imports Pci_Device Byte_Memory
begin

text \<open>
  Model of the CXL memory expander (\<^verbatim>\<open>src/gem5/src/dev/cxl_memory.hh\<close>, \<^verbatim>\<open>dev/cxl_memory.cc\<close>): a PCI
  function whose first base address register decodes a byte array.  The array is allocated once, with
  the size of the register, and is addressed relative to the current address of the register.
\<close>

section \<open>State and construction\<close>

record cxl_memory =
  cxl_dev :: pci_device
  mem_range :: addr_range
  pmemAddr :: "u8 list"
  latency :: tick
  cxl_mem_latency :: tick

text \<open>The array is uninitialised after its allocation; its contents are an argument.\<close>

definition CxlMemory_new :: "device_interface \<Rightarrow> pci_params \<Rightarrow> tick \<Rightarrow> tick \<Rightarrow> (nat \<Rightarrow> u8) \<Rightarrow> cxl_memory res" where
  "CxlMemory_new host p lat cxl_lat junk =
     sbind (PciDevice_new host p) (\<lambda>d.
       (let r = RangeSize (bar_addr (BARs d ! 0)) (bar_size (BARs d ! 0))
        in Inr \<lparr>cxl_dev = d, mem_range = r, pmemAddr = map junk [0..<unat (range_size r)],
                latency = lat, cxl_mem_latency = cxl_lat\<rparr>))"

definition cxl_getAddrRanges :: "cxl_memory \<Rightarrow> addr_range list" where
  "cxl_getAddrRanges c = getAddrRanges (cxl_dev c)"

definition resolve_cxl_mem :: "packet \<Rightarrow> cxl_memory \<Rightarrow> tick res" where
  "resolve_cxl_mem pkt c =
     (if p_cmd pkt = ReadReq then
        sbind (sassert (isRead (p_cmd pkt))) (\<lambda>_. sbind (sassert (needsResponse (p_cmd pkt))) (\<lambda>_. Inr (cxl_mem_latency c)))
      else if p_cmd pkt = WriteReq then
        sbind (sassert (isWrite (p_cmd pkt))) (\<lambda>_. sbind (sassert (needsResponse (p_cmd pkt))) (\<lambda>_. Inr (cxl_mem_latency c)))
      else Inr (cxl_mem_latency c))"

section \<open>Accesses\<close>

definition toHostAddr :: "cxl_memory \<Rightarrow> addr \<Rightarrow> nat" where
  "toHostAddr c a = unat (a - r_start (mem_range c))"

text \<open>
  A swap: an atomic operation is applied to the stored bytes, otherwise the payload replaces them,
  for a conditional swap only if they equal the extra data of the request.  The old bytes go into
  the packet.
\<close>

definition swap_condition :: "packet \<Rightarrow> u32 \<Rightarrow> u8 list \<Rightarrow> nat \<Rightarrow> bool res" where
  "swap_condition pkt sz m off =
     (if req_isCondSwap (p_req pkt) then
        if unat sz \<in> {4, 8} then
          sbind (sassert (isSet (r_privateFlags (p_req pkt)) RV_VALID_EXTRA_DATA)) (\<lambda>_.
          sbind (memcpy_out m off (unat sz)) (\<lambda>old.
          Inr (le_bytes (unat sz) (r_extraData (p_req pkt)) = old)))
        else Inl Panic
      else Inr True)"

definition swap_access :: "packet \<Rightarrow> nat \<Rightarrow> u8 list \<Rightarrow> (packet \<times> u8 list) res" where
  "swap_access pkt off m =
     (if req_isAtomic (p_req pkt) then
        sbind (setData m off pkt) (\<lambda>pkt'.
        case r_atomicOp (p_req pkt) of
          None \<Rightarrow> Inl Assert_Failed
        | Some f \<Rightarrow> Inr (pkt', take off m @ f (drop off m)))
      else
        sbind (getSize pkt) (\<lambda>sz.
        sbind (writeData pkt (replicate (unat sz) 0) 0) (\<lambda>overwrite_val.
        sbind (setData m off pkt) (\<lambda>pkt'.
        sbind (swap_condition pkt sz m off) (\<lambda>overwrite_mem.
        sbind (if overwrite_mem then memcpy_in m off overwrite_val else Inr m) (\<lambda>m.
        sbind (sassert (\<not> isSet (r_flags (p_req pkt)) R_INST_FETCH)) (\<lambda>_.
        Inr (pkt', m))))))))"

definition mem_dispatch :: "packet \<Rightarrow> nat \<Rightarrow> u8 list \<Rightarrow> (packet \<times> u8 list) res" where
  "mem_dispatch pkt off m =
     (if p_cmd pkt = SwapReq then swap_access pkt off m
      else if isRead (p_cmd pkt) then
        sbind (sassert (\<not> isWrite (p_cmd pkt))) (\<lambda>_.
        sbind (setData m off pkt) (\<lambda>pkt. Inr (pkt, m)))
      else if isInvalidate (p_cmd pkt) \<or> isClean (p_cmd pkt) then
        sbind (sassert (\<not> isWrite (p_cmd pkt))) (\<lambda>_. Inr (pkt, m))
      else if isWrite (p_cmd pkt) then
        sbind (writeData pkt m off) (\<lambda>m.
        sbind (sassert (\<not> isSet (r_flags (p_req pkt)) R_INST_FETCH)) (\<lambda>_. Inr (pkt, m)))
      else Inl Panic)"

definition mem_access :: "packet \<Rightarrow> cxl_memory \<Rightarrow> (packet \<times> cxl_memory) res" where
  "mem_access pkt c =
     (let bar = BARs (cxl_dev c) ! 0;
          c = c\<lparr>mem_range := RangeSize (bar_addr bar) (bar_size bar)\<rparr>
      in if cacheResponding pkt then Inr (pkt, c)
         else if p_cmd pkt = CleanEvict \<or> p_cmd pkt = WritebackClean then Inr (pkt, c)
         else
           sbind (getAddrRange pkt) (\<lambda>r.
           sbind (isSubset r (mem_range c)) (\<lambda>sub.
           sbind (sassert sub) (\<lambda>_.
           sbind (getAddr pkt) (\<lambda>a.
           sbind (mem_dispatch pkt (toHostAddr c a) (pmemAddr c)) (\<lambda>(pkt, m).
           sbind (if needsResponse (p_cmd pkt) then makeResponse pkt else Inr pkt) (\<lambda>pkt.
           Inr (pkt, c\<lparr>pmemAddr := m\<rparr>))))))))"

definition cxl_read :: "packet \<Rightarrow> cxl_memory \<Rightarrow> (tick \<times> packet \<times> cxl_memory) res" where
  "cxl_read pkt c =
     sbind (resolve_cxl_mem pkt c) (\<lambda>cxl_latency.
     sbind (mem_access pkt c) (\<lambda>(pkt, c). Inr (latency c + cxl_latency, pkt, c)))"

definition cxl_write :: "packet \<Rightarrow> cxl_memory \<Rightarrow> (tick \<times> packet \<times> cxl_memory) res" where
  "cxl_write pkt c =
     sbind (resolve_cxl_mem pkt c) (\<lambda>cxl_latency.
     sbind (mem_access pkt c) (\<lambda>(pkt, c). Inr (latency c + cxl_latency, pkt, c)))"

text \<open>Writing the configuration space, inherited from the PCI function.\<close>

definition cxl_writeConfig :: "packet \<Rightarrow> cxl_memory \<Rightarrow> (tick \<times> packet \<times> cxl_memory \<times> bool) res" where
  "cxl_writeConfig pkt c =
     sbind (writeConfig pkt (cxl_dev c)) (\<lambda>(t, pkt, d, changed). Inr (t, pkt, c\<lparr>cxl_dev := d\<rparr>, changed))"

section \<open>Abstract memory\<close>

text \<open>
  What the memory stores at an address: the byte at its distance from the start of the region, if
  the region contains it.
\<close>

definition cxl_region :: "cxl_memory \<Rightarrow> addr_range" where
  "cxl_region c = RangeSize (bar_addr (BARs (cxl_dev c) ! 0)) (bar_size (BARs (cxl_dev c) ! 0))"

definition byte_at :: "cxl_memory \<Rightarrow> addr \<Rightarrow> u8 option" where
  "byte_at c a = (if contains (cxl_region c) a then Some (pmemAddr c ! unat (a - r_start (cxl_region c))) else None)"

text \<open>The first register is a memory register whose region does not wrap, and the array has its size.\<close>

definition cxl_wf :: "cxl_memory \<Rightarrow> bool" where
  "cxl_wf c \<longleftrightarrow> device_wf (cxl_dev c) \<and> bar_isMem (BARs (cxl_dev c) ! 0) \<and>
     length (pmemAddr c) = unat (bar_size (BARs (cxl_dev c) ! 0))"

definition region_fits :: "cxl_memory \<Rightarrow> bool" where
  "region_fits c \<longleftrightarrow> unat (bar_addr (BARs (cxl_dev c) ! 0)) + unat (bar_size (BARs (cxl_dev c) ! 0)) < 2 ^ 64"

section \<open>Lemmas on addresses\<close>

abbreviation (input) cxl_base :: "cxl_memory \<Rightarrow> nat" where
  "cxl_base c \<equiv> unat (bar_addr (BARs (cxl_dev c) ! 0))"

abbreviation (input) cxl_size :: "cxl_memory \<Rightarrow> nat" where
  "cxl_size c \<equiv> unat (bar_size (BARs (cxl_dev c) ! 0))"

text \<open>The packet lies inside the region and does not wrap around.\<close>

definition in_region :: "packet \<Rightarrow> cxl_memory \<Rightarrow> bool" where
  "in_region p c \<longleftrightarrow> cxl_base c \<le> unat (p_addr p) \<and> unat (p_addr p) + unat (p_size p) \<le> cxl_base c + cxl_size c"

lemma contains_RangeSize:
  assumes "unat b + unat s < 2 ^ 64"
  shows "contains (RangeSize b s) a \<longleftrightarrow> unat b \<le> unat a \<and> unat a < unat b + unat s"
  using unat_add_no_wrap [of b s] assms
  by (simp add: RangeSize_def addrs_plain [unfolded addrs_def, THEN eqset_imp_iff, unfolded mem_Collect_eq] word_le_nat_alt word_less_nat_alt)

lemma byte_at_eq:
  assumes "region_fits c"
  shows "byte_at c x = (if cxl_base c \<le> unat x \<and> unat x < cxl_base c + cxl_size c
    then Some (pmemAddr c ! (unat x - cxl_base c)) else None)"
  using assms contains_RangeSize [of "bar_addr (BARs (cxl_dev c) ! 0)" "bar_size (BARs (cxl_dev c) ! 0)" x]
  by (auto simp: byte_at_def cxl_region_def region_fits_def RangeSize_def unat_sub word_le_nat_alt)

lemma byte_at_range [simp]: "byte_at (c\<lparr>mem_range := r\<rparr>) = byte_at c"
  by (rule ext) (simp add: byte_at_def cxl_region_def)

lemma subset_in_region:
  assumes "region_fits c" "in_region p c" "0 < unat (p_size p)"
  shows "isSubset (RangeSize (p_addr p) (ucast (p_size p))) (cxl_region c) = Inr True"
proof -
  have n: "unat (ucast (p_size p) :: addr) = unat (p_size p)" by (rule unat_ucast_up) simp
  have e: "unat (p_addr p + ucast (p_size p)) = unat (p_addr p) + unat (p_size p)"
    using assms n by (subst unat_add_no_wrap) (auto simp: region_fits_def in_region_def)
  have "unat (bar_addr (BARs (cxl_dev c) ! 0) + bar_size (BARs (cxl_dev c) ! 0)) = cxl_base c + cxl_size c"
    using assms(1) by (subst unat_add_no_wrap) (auto simp: region_fits_def)
  then show ?thesis using assms(2) e
    by (simp add: isSubset_def RangeSize_def cxl_region_def in_region_def word_le_nat_alt)
qed

lemma toHostAddr_in_region:
  "in_region p c \<Longrightarrow> toHostAddr (c\<lparr>mem_range := cxl_region c\<rparr>) (p_addr p) = unat (p_addr p) - cxl_base c"
  by (simp add: toHostAddr_def cxl_region_def RangeSize_def in_region_def unat_sub word_le_nat_alt)

text \<open>An access that is neither answered by a cache nor a clean eviction is dispatched at its offset.\<close>

definition answers :: "packet \<Rightarrow> bool" where
  "answers p \<longleftrightarrow> \<not> cacheResponding p \<and> p_cmd p \<noteq> CleanEvict \<and> p_cmd p \<noteq> WritebackClean"

lemma mem_access_dispatch:
  assumes "pkt_ok p" "answers p" "region_fits c" "in_region p c" "0 < unat (p_size p)"
    "mem_dispatch p (unat (p_addr p) - cxl_base c) (pmemAddr c) = Inr (p', m)"
  shows "mem_access p c =
    sbind (if needsResponse (p_cmd p') then makeResponse p' else Inr p') (\<lambda>q. Inr (q, c\<lparr>mem_range := cxl_region c, pmemAddr := m\<rparr>))"
  using assms subset_in_region [OF assms(3,4,5)] toHostAddr_in_region [OF assms(4)]
  by (simp add: mem_access_def Let_def answers_def getAddrRange_def cxl_region_def [symmetric])

section \<open>Reads and writes\<close>

lemma in_region_bounds:
  assumes "cxl_wf c" "in_region p c"
  shows "unat (p_addr p) - cxl_base c + unat (p_size p) \<le> length (pmemAddr c)"
  using assms by (auto simp: cxl_wf_def in_region_def)

lemma mem_access_read:
  assumes "cxl_wf c" "region_fits c" "pkt_ok p" "answers p" "in_region p c" "0 < unat (p_size p)"
    and r: "plain_read (p_cmd p)" and "\<not> isMaskedWrite p"
  shows "mem_access p c = Inr (respond (p\<lparr>p_data := Some (get_bytes (pmemAddr c) (unat (p_addr p) - cxl_base c) (unat (p_size p)))\<rparr>),
    c\<lparr>mem_range := cxl_region c\<rparr>)"
proof -
  let ?v = "get_bytes (pmemAddr c) (unat (p_addr p) - cxl_base c) (unat (p_size p))"
  have l: "length ?v = unat (p_size p)" "length (the (p_data p)) = unat (p_size p)"
    using in_region_bounds [OF assms(1,5)] assms(3) by auto
  then have "put_bytes (the (p_data p)) 0 ?v = ?v" by (simp add: put_bytes_def)
  then have "mem_dispatch p (unat (p_addr p) - cxl_base c) (pmemAddr c) = Inr (p\<lparr>p_data := Some ?v\<rparr>, pmemAddr c)"
    using r in_region_bounds [OF assms(1,5)] assms(3,8) l
    by (simp add: mem_dispatch_def plain_read_def setData_def)
  from mem_access_dispatch [OF assms(3,4,2,5,6) this] show ?thesis
    using respond_eq [of "p\<lparr>p_data := Some ?v\<rparr>"] by simp
qed

lemma mem_access_write:
  assumes "cxl_wf c" "region_fits c" "pkt_ok p" "answers p" "in_region p c" "0 < unat (p_size p)"
    and w: "plain_write (p_cmd p)" and m: "isMaskedWrite p \<longrightarrow> length (r_byteEnable (p_req p)) = unat (p_size p)"
    and nf: "\<not> isSet (r_flags (p_req p)) R_INST_FETCH"
  shows "\<exists>m'. mem_access p c = Inr (respond p, c\<lparr>mem_range := cxl_region c, pmemAddr := m'\<rparr>) \<and>
    length m' = length (pmemAddr c) \<and>
    (\<forall>i < length m'. m' ! i = (let off = unat (p_addr p) - cxl_base c in
       if off \<le> i \<and> i < off + unat (p_size p) \<and> byte_enabled p (i - off)
       then the (p_data p) ! (i - off) else pmemAddr c ! i))"
proof -
  from writeData_spec [OF assms(3) m in_region_bounds [OF assms(1,5)]] obtain m'
    where m': "writeData p (pmemAddr c) (unat (p_addr p) - cxl_base c) = Inr m'" "length m' = length (pmemAddr c)"
      "\<forall>i < length (pmemAddr c). m' ! i = (if unat (p_addr p) - cxl_base c \<le> i \<and>
         i < unat (p_addr p) - cxl_base c + unat (p_size p) \<and> byte_enabled p (i - (unat (p_addr p) - cxl_base c))
         then the (p_data p) ! (i - (unat (p_addr p) - cxl_base c)) else pmemAddr c ! i)"
    by blast
  have "mem_dispatch p (unat (p_addr p) - cxl_base c) (pmemAddr c) = Inr (p, m')"
    using w nf m'(1) by (simp add: mem_dispatch_def plain_write_def)
  from mem_access_dispatch [OF assms(3,4,2,5,6) this] m' show ?thesis
    by (intro exI [of _ m']) (simp add: respond_eq Let_def)
qed

lemma byte_at_write:
  assumes "cxl_wf c" "region_fits c" "in_region p c" "length m' = length (pmemAddr c)"
    "\<forall>i < length m'. m' ! i = (let off = unat (p_addr p) - cxl_base c in
       if off \<le> i \<and> i < off + unat (p_size p) \<and> byte_enabled p (i - off)
       then the (p_data p) ! (i - off) else pmemAddr c ! i)"
  shows "byte_at (c\<lparr>mem_range := r, pmemAddr := m'\<rparr>) x =
    (let k = unat x - unat (p_addr p) in
     if unat (p_addr p) \<le> unat x \<and> k < unat (p_size p) \<and> byte_enabled p k
     then Some (the (p_data p) ! k) else byte_at c x)"
proof -
  have fits: "region_fits (c\<lparr>mem_range := r, pmemAddr := m'\<rparr>)" using assms(2) by (simp add: region_fits_def)
  have reg: "cxl_base c \<le> unat (p_addr p)" "unat (p_addr p) + unat (p_size p) \<le> cxl_base c + cxl_size c"
    using assms(3) by (auto simp: in_region_def)
  have len: "length m' = cxl_size c" using assms(1,4) by (simp add: cxl_wf_def)
  show ?thesis
  proof (cases "cxl_base c \<le> unat x \<and> unat x < cxl_base c + cxl_size c")
    case True
    then have "unat x - cxl_base c < length m'" using len by auto
    moreover have "unat x - cxl_base c - (unat (p_addr p) - cxl_base c) = unat x - unat (p_addr p)"
      "unat (p_addr p) - cxl_base c \<le> unat x - cxl_base c \<longleftrightarrow> unat (p_addr p) \<le> unat x"
      "unat (p_addr p) \<le> unat x \<Longrightarrow> unat x - cxl_base c < unat (p_addr p) - cxl_base c + unat (p_size p) \<longleftrightarrow> unat x - unat (p_addr p) < unat (p_size p)"
      using reg True by auto
    ultimately show ?thesis using assms(5) True
      by (simp add: byte_at_eq [OF fits] byte_at_eq [OF assms(2)] Let_def cong: conj_cong)
  next
    case False
    then have "\<not> (unat (p_addr p) \<le> unat x \<and> unat x - unat (p_addr p) < unat (p_size p))" using reg by auto
    then show ?thesis using False by (auto simp: byte_at_eq [OF fits] byte_at_eq [OF assms(2)] Let_def)
  qed
qed

section \<open>The memory keeps the contract of a byte memory\<close>

definition cxl_inv :: "cxl_memory \<Rightarrow> bool" where
  "cxl_inv c \<longleftrightarrow> cxl_wf c \<and> region_fits c"

lemma cxl_inv_update: "cxl_inv c \<Longrightarrow> length m = length (pmemAddr c) \<Longrightarrow> cxl_inv (c\<lparr>mem_range := r, pmemAddr := m\<rparr>)"
  by (simp add: cxl_inv_def cxl_wf_def region_fits_def)

lemma in_region_update [simp]: "in_region p (c\<lparr>mem_range := r\<rparr>) = in_region p c" "in_region p (c\<lparr>mem_range := r, pmemAddr := m\<rparr>) = in_region p c"
  by (simp_all add: in_region_def)

lemma cxl_read_law:
  assumes "cxl_inv c" "in_region p c" "simple_read p"
  shows "\<exists>q c'. mem_access p c = Inr (q, c') \<and> cxl_inv c' \<and> (\<forall>r. in_region r c' = in_region r c) \<and>
    byte_at c' = byte_at c \<and> p_cmd q = ReadResp \<and> load_ok p q (byte_at c)"
proof -
  let ?off = "unat (p_addr p) - cxl_base c"
  let ?q = "respond (p\<lparr>p_data := Some (get_bytes (pmemAddr c) ?off (unat (p_size p)))\<rparr>)"
  have inv: "cxl_wf c" "region_fits c" using assms(1) by (auto simp: cxl_inv_def)
  have p: "pkt_ok p" "p_cmd p = ReadReq" "answers p" "0 < unat (p_size p)"
    using assms(3) by (auto simp: simple_read_def answers_def)
  have run: "mem_access p c = Inr (?q, c\<lparr>mem_range := cxl_region c\<rparr>)"
    by (rule mem_access_read) (use inv p assms(2) in \<open>simp_all add: plain_read_def isMaskedWrite_def cmd_predicates\<close>)
  have q: "p_cmd ?q = ReadResp" "p_data ?q = Some (get_bytes (pmemAddr c) ?off (unat (p_size p)))"
    using p(2) by (simp_all add: respond_def cmd_predicates responseCommand_def)
  have reg: "cxl_base c \<le> unat (p_addr p)" "unat (p_addr p) + unat (p_size p) \<le> cxl_base c + cxl_size c"
    using assms(2) by (auto simp: in_region_def)
  have len: "?off + unat (p_size p) \<le> length (pmemAddr c)" by (rule in_region_bounds [OF inv(1) assms(2)])
  have "byte_at c x = Some (get_bytes (pmemAddr c) ?off (unat (p_size p)) ! (unat x - unat (p_addr p)))" if "pkt_covers p x" for x
  proof -
    have "unat x - unat (p_addr p) < unat (p_size p)" "?off + (unat x - unat (p_addr p)) = unat x - cxl_base c"
      "cxl_base c \<le> unat x" "unat x < cxl_base c + cxl_size c"
      using that reg by (auto simp: pkt_covers_def)
    then show ?thesis using nth_get_bytes [OF len] by (simp add: byte_at_eq [OF inv(2)])
  qed
  then have "load_ok p ?q (byte_at c)" using len by (simp add: load_ok_def q)
  moreover have "cxl_inv (c\<lparr>mem_range := cxl_region c\<rparr>)" using assms(1) by (simp add: cxl_inv_def cxl_wf_def region_fits_def)
  ultimately show ?thesis using run q(1) by auto
qed

lemma cxl_write_law:
  assumes "cxl_inv c" "in_region p c" "simple_write p"
  shows "\<exists>q c'. mem_access p c = Inr (q, c') \<and> cxl_inv c' \<and> (\<forall>r. in_region r c' = in_region r c) \<and>
    byte_at c' = store_view p (byte_at c) \<and> p_cmd q = WriteResp"
proof -
  have inv: "cxl_wf c" "region_fits c" using assms(1) by (auto simp: cxl_inv_def)
  have p: "pkt_ok p" "p_cmd p = WriteReq" "answers p" "0 < unat (p_size p)" "\<not> isMaskedWrite p" "\<not> isSet (r_flags (p_req p)) R_INST_FETCH"
    using assms(3) by (auto simp: simple_write_def answers_def)
  have "plain_write (p_cmd p)" by (simp add: p(2) plain_write_def cmd_predicates)
  with mem_access_write [OF inv p(1,3) assms(2) p(4)] p(5,6) obtain m'
    where m': "mem_access p c = Inr (respond p, c\<lparr>mem_range := cxl_region c, pmemAddr := m'\<rparr>)" "length m' = length (pmemAddr c)"
      "\<forall>i < length m'. m' ! i = (let off = unat (p_addr p) - cxl_base c in
         if off \<le> i \<and> i < off + unat (p_size p) \<and> byte_enabled p (i - off)
         then the (p_data p) ! (i - off) else pmemAddr c ! i)" by blast
  have "byte_at (c\<lparr>mem_range := cxl_region c, pmemAddr := m'\<rparr>) = store_view p (byte_at c)"
    by (rule ext) (use p(5) in \<open>auto simp: byte_at_write [OF inv assms(2) m'(2,3)] store_view_def pkt_covers_def byte_enabled_def Let_def\<close>)
  moreover have "p_cmd (respond p) = WriteResp" by (simp add: respond_def p(2) cmd_predicates responseCommand_def)
  ultimately show ?thesis using m'(1) cxl_inv_update [OF assms(1) m'(2)] by auto
qed

lemma mem_access_frame:
  "mem_access p c = Inr (q, c') \<Longrightarrow> cxl_dev c' = cxl_dev c \<and> latency c' = latency c \<and> cxl_mem_latency c' = cxl_mem_latency c"
  by (auto simp: mem_access_def Let_def res_simps split: if_splits)

text \<open>Every access that returns costs the device latency plus the latency of the CXL protocol layer.\<close>

lemma cxl_access_latency:
  assumes "cxl_read pkt c = Inr (t, pkt', c') \<or> cxl_write pkt c = Inr (t, pkt', c')"
  shows "t = latency c + cxl_mem_latency c \<and> mem_access pkt c = Inr (pkt', c')"
proof -
  obtain l where r: "resolve_cxl_mem pkt c = Inr l" "mem_access pkt c = Inr (pkt', c')" and t: "t = latency c' + l"
    using assms by (auto simp: cxl_read_def cxl_write_def res_simps)
  moreover have "l = cxl_mem_latency c"
    using r(1) by (auto simp: resolve_cxl_mem_def res_simps split: if_splits)
  ultimately show ?thesis using mem_access_frame [OF r(2)] by simp
qed

lemma cxl_read_returns:
  "simple_read p \<Longrightarrow> mem_access p c = Inr (q, c') \<Longrightarrow> cxl_read p c = Inr (latency c + cxl_mem_latency c, q, c')"
  using mem_access_frame [of p c q c'] by (simp add: cxl_read_def resolve_cxl_mem_def simple_read_def cmd_predicates)

lemma cxl_write_returns:
  "simple_write p \<Longrightarrow> mem_access p c = Inr (q, c') \<Longrightarrow> cxl_write p c = Inr (latency c + cxl_mem_latency c, q, c')"
  using mem_access_frame [of p c q c'] by (simp add: cxl_write_def resolve_cxl_mem_def simple_write_def cmd_predicates)

section \<open>Moving the region\<close>

lemma offset_address:
  assumes "region_fits c" "k + i \<le> cxl_size c" "a = bar_addr (BARs (cxl_dev c) ! 0) + of_nat k"
  shows "unat a = cxl_base c + k" "unat (a + of_nat i) = unat a + i"
proof -
  have small: "unat (of_nat j :: addr) = j" if "j \<le> cxl_size c" for j
    using that unat_lt_exp [of "bar_size (BARs (cxl_dev c) ! 0)"] by (simp add: unat_of_nat take_bit_nat_eq_self)
  show a: "unat a = cxl_base c + k"
    using assms small [of k] unat_add_no_wrap [of "bar_addr (BARs (cxl_dev c) ! 0)" "of_nat k"] by (simp add: region_fits_def)
  show "unat (a + of_nat i) = unat a + i"
    using assms a small [of i] unat_add_no_wrap [of a "of_nat i"] by (simp add: region_fits_def)
qed

lemma cxl_move:
  assumes "cxl_inv c" "cxl_writeConfig pkt c = Inr (t, pkt', c', changed)" "region_fits c'" "k < cxl_size c"
  shows "cxl_inv c' \<and> cxl_size c' = cxl_size c \<and>
    byte_at c' (bar_addr (BARs (cxl_dev c') ! 0) + of_nat k) = byte_at c (bar_addr (BARs (cxl_dev c) ! 0) + of_nat k)"
proof -
  obtain d where w: "writeConfig pkt (cxl_dev c) = Inr (t, pkt', d, changed)" and c': "c' = c\<lparr>cxl_dev := d\<rparr>"
    using assms(2) by (auto simp: cxl_writeConfig_def res_simps)
  have wf: "device_wf (cxl_dev c)" and fits: "region_fits c" and mem: "bar_isMem (BARs (cxl_dev c) ! 0)"
    and len: "length (pmemAddr c) = cxl_size c"
    using assms(1) by (auto simp: cxl_inv_def cxl_wf_def)
  note step = writeConfig_step [OF wf w]
  have wf': "device_wf d" by (rule config_step_wf [OF wf step])
  have sh: "bar_shape (BARs d ! 0) = bar_shape (BARs (cxl_dev c) ! 0)"
  proof -
    have "map bar_shape (BARs d) ! 0 = map bar_shape (BARs (cxl_dev c)) ! 0" using step by (simp add: config_step_def)
    then show ?thesis using wf wf' by (simp add: device_wf_def)
  qed
  from bar_shape_size [OF sh] have sz: "cxl_size c' = cxl_size c" and mem': "bar_isMem (BARs d ! 0)"
    using mem by (simp_all add: c')
  have k: "unat (of_nat k :: addr) = k"
    using assms(4) unat_lt_exp [of "bar_size (BARs (cxl_dev c) ! 0)"] by (simp add: unat_of_nat take_bit_nat_eq_self)
  have at: "byte_at x (bar_addr (BARs (cxl_dev x) ! 0) + of_nat k) = Some (pmemAddr x ! k)"
    if "region_fits x" "k < cxl_size x" for x
  proof -
    have "unat (bar_addr (BARs (cxl_dev x) ! 0) + of_nat k) = cxl_base x + k"
      using that k by (subst unat_add_no_wrap) (auto simp: region_fits_def)
    then show ?thesis using that by (simp add: byte_at_eq)
  qed
  have "cxl_inv c'" using wf' mem' len sz assms(3) by (simp add: cxl_inv_def cxl_wf_def c')
  then show ?thesis using at [OF assms(3)] at [OF fits] assms(4) sz by (simp add: c')
qed

interpretation cxl: byte_memory mem_access byte_at cxl_inv in_region
  using cxl_read_law cxl_write_law by unfold_locales blast+

section \<open>Properties\<close>

text \<open>
  C1: The CXL memory refines an ideal byte memory: any sequence of reads and writes inside its
  region is answered without an error, every read response carries the bytes last written, and the
  contents after the sequence are those of the ideal memory.
\<close>

theorem cxl_refines_ideal_memory:
  assumes "cxl_inv c" "\<forall>p\<in>set ps. in_region p c \<and> (simple_read p \<or> simple_write p)"
  shows "\<exists>qs c'. run_access mem_access ps c = Inr (qs, c') \<and> cxl_inv c' \<and> ideal_run ps qs (byte_at c) (byte_at c')"
  using assms by (rule cxl.run_refines_ideal)

text \<open>A device with a region of 64 KiB.\<close>

definition sample_cxl :: "cxl_memory res" where
  "sample_cxl = CxlMemory_new sample_host sample_params 100 50 (\<lambda>_. 0)"

lemma sample_cxl_inv:
  "\<exists>c. sample_cxl = Inr c \<and> cxl_inv c \<and> BARs (cxl_dev c) ! 0 = PciMemBar 0 0x10000 True 0 0 \<and>
    latency c = 100 \<and> cxl_mem_latency c = 50 \<and> PciDevice_new sample_host sample_params = Inr (cxl_dev c)"
proof -
  obtain d where d: "PciDevice_new sample_host sample_params = Inr d" "device_wf d"
    "BARs d = [PciMemBar 0 0x10000 True 0 0, PciMemUpperBar (Some 0), PciBarNone, PciBarNone, PciBarNone, PciBarNone]"
    using sample_device_new by blast
  then show ?thesis
    by (simp add: sample_cxl_def CxlMemory_new_def cxl_inv_def cxl_wf_def region_fits_def Let_def RangeSize_def range_size_def interleaved_def)
qed

theorem cxl_refines_ideal_memory_witness:
  "\<exists>c qs c'. sample_cxl = Inr c \<and>
     run_access mem_access [data_packet WriteReq 0x10 [1, 2], data_packet ReadReq 0x11 [0, 0]] c = Inr (qs, c') \<and>
     ideal_run [data_packet WriteReq 0x10 [1, 2], data_packet ReadReq 0x11 [0, 0]] qs (byte_at c) (byte_at c')"
proof -
  obtain c where c: "sample_cxl = Inr c" "cxl_inv c" "BARs (cxl_dev c) ! 0 = PciMemBar 0 0x10000 True 0 0"
    using sample_cxl_inv by blast
  have "\<exists>qs c'. run_access mem_access [data_packet WriteReq 0x10 [1, 2], data_packet ReadReq 0x11 [0, 0]] c = Inr (qs, c') \<and>
      cxl_inv c' \<and> ideal_run [data_packet WriteReq 0x10 [1, 2], data_packet ReadReq 0x11 [0, 0]] qs (byte_at c) (byte_at c')"
    using c by (intro cxl_refines_ideal_memory) (simp_all add: simple_data_packets in_region_def)
  with c(1) show ?thesis by blast
qed

text \<open>
  Masked writes: a write of any plain kind changes exactly the bytes its byte enables select,
  answers when the command wants an answer and keeps every other byte of the region.
\<close>

lemma cxl_masked_write:
  assumes "cxl_inv c" "pkt_ok p" "answers p" "in_region p c" "0 < unat (p_size p)" "plain_write (p_cmd p)"
    "isMaskedWrite p \<longrightarrow> length (r_byteEnable (p_req p)) = unat (p_size p)" "\<not> isSet (r_flags (p_req p)) R_INST_FETCH"
  shows "\<exists>c'. mem_access p c = Inr (respond p, c') \<and> cxl_inv c' \<and>
    (\<forall>x. byte_at c' x = (let k = unat x - unat (p_addr p) in
       if unat (p_addr p) \<le> unat x \<and> k < unat (p_size p) \<and> byte_enabled p k
       then Some (the (p_data p) ! k) else byte_at c x))"
proof -
  have inv: "cxl_wf c" "region_fits c" using assms(1) by (auto simp: cxl_inv_def)
  from mem_access_write [OF inv assms(2-8)] obtain m'
    where m': "mem_access p c = Inr (respond p, c\<lparr>mem_range := cxl_region c, pmemAddr := m'\<rparr>)" "length m' = length (pmemAddr c)"
      "\<forall>i < length m'. m' ! i = (let off = unat (p_addr p) - cxl_base c in
         if off \<le> i \<and> i < off + unat (p_size p) \<and> byte_enabled p (i - off)
         then the (p_data p) ! (i - off) else pmemAddr c ! i)" by blast
  then show ?thesis using byte_at_write [OF inv assms(4) m'(2,3)] cxl_inv_update [OF assms(1) m'(2)] by blast
qed

lemma cxl_masked_write_witness:
  "\<exists>c c'. sample_cxl = Inr c \<and> mem_access (data_packet WritebackDirty 0x20 [7, 8]) c = Inr (data_packet WritebackDirty 0x20 [7, 8], c') \<and>
     byte_at c' 0x21 = Some 8"
proof -
  obtain c where c: "sample_cxl = Inr c" "cxl_inv c" "BARs (cxl_dev c) ! 0 = PciMemBar 0 0x10000 True 0 0"
    using sample_cxl_inv by blast
  let ?p = "data_packet WritebackDirty 0x20 [7, 8]"
  have nm: "\<not> isMaskedWrite ?p" by simp
  have "\<exists>c'. mem_access ?p c = Inr (respond ?p, c') \<and> cxl_inv c' \<and>
    (\<forall>x. byte_at c' x = (let k = unat x - unat (p_addr ?p) in
       if unat (p_addr ?p) \<le> unat x \<and> k < unat (p_size ?p) \<and> byte_enabled ?p k
       then Some (the (p_data ?p) ! k) else byte_at c x))"
    using c nm by (intro cxl_masked_write)
      (simp_all add: data_packet_ok in_region_def answers_def plain_write_def cmd_predicates isSet_def)
  moreover have "respond ?p = ?p" by (simp add: respond_def cmd_predicates)
  ultimately show ?thesis using c(1) nm by (auto simp: byte_enabled_def)
qed

text \<open>
  An access outside the region stops at the assertion, before any byte of the memory or of the
  packet changes.
\<close>

lemma cxl_outside_region:
  assumes "cxl_inv c" "pkt_ok p" "answers p"
    "unat (p_addr p) < cxl_base c \<or> cxl_base c + cxl_size c < unat (p_addr p) + unat (p_size p)"
    "unat (p_addr p) + unat (p_size p) < 2 ^ 64"
  shows "mem_access p c = Inl Assert_Failed"
proof -
  have n: "unat (ucast (p_size p) :: addr) = unat (p_size p)" by (rule unat_ucast_up) simp
  have e: "unat (p_addr p + ucast (p_size p)) = unat (p_addr p) + unat (p_size p)"
    using assms(5) n by (subst unat_add_no_wrap) auto
  have "unat (bar_addr (BARs (cxl_dev c) ! 0) + bar_size (BARs (cxl_dev c) ! 0)) = cxl_base c + cxl_size c"
    using assms(1) by (subst unat_add_no_wrap) (auto simp: cxl_inv_def region_fits_def)
  then have "isSubset (RangeSize (p_addr p) (ucast (p_size p))) (cxl_region c) = Inr False"
    using assms(4) e by (auto simp: isSubset_def RangeSize_def cxl_region_def word_le_nat_alt)
  then show ?thesis using assms(2,3)
    by (simp add: mem_access_def Let_def answers_def getAddrRange_def cxl_region_def [symmetric] sassert_def)
qed

lemma cxl_outside_region_witness:
  "\<exists>c. sample_cxl = Inr c \<and> mem_access (data_packet ReadReq 0xffff [0, 0]) c = Inl Assert_Failed"
proof -
  obtain c where c: "sample_cxl = Inr c" "cxl_inv c" "BARs (cxl_dev c) ! 0 = PciMemBar 0 0x10000 True 0 0"
    using sample_cxl_inv by blast
  have "mem_access (data_packet ReadReq 0xffff [0, 0]) c = Inl Assert_Failed"
    using c by (intro cxl_outside_region)
      (simp_all add: data_packet_ok answers_def)
  with c(1) show ?thesis by blast
qed

lemma sample_device_move:
  assumes "PciDevice_new sample_host sample_params = Inr d"
  shows "\<exists>t q d' b. writeConfig (data_packet WriteReq 0x10 (le_bytes 4 0x40000000)) d = Inr (t, q, d', b) \<and>
    BARs d' ! 0 = PciMemBar 0x40000000 0x10000 True 0x40000000 0"
proof -
  let ?p = "data_packet WriteReq 0x10 (le_bytes 4 0x40000000)"
  have "map_sum id (\<lambda>(t, q, d, b). BARs d ! 0) (sbind (PciDevice_new sample_host sample_params) (writeConfig ?p)) =
      Inr (PciMemBar 0x40000000 0x10000 True 0x40000000 0)"
    by code_simp
  then show ?thesis using assms by (cases "writeConfig ?p d") auto
qed

end
