(* ===== verification/Pcie_Link.thy ===== *)
theory Pcie_Link
  imports Packet
begin

text \<open>
  Model of the PCI Express link (\<^verbatim>\<open>src/gem5/src/dev/pcie_link.hh\<close>, \<^verbatim>\<open>dev/pcie_link.cc\<close>): two
  unidirectional links with sequence numbers, a replay buffer, a replay timer and acknowledgements.

  Link packets live in a store from pointers to objects, since the code compares, shares and deletes
  them; using a deleted object is undefined behaviour.  The four events of a link are the times they
  are scheduled for.  The answer of the attached device to a delivered packet and the packets it
  offers while a retry is announced (the device calls back into the link) are arguments.  The time a
  transmission takes, computed by the code in floating point, is a field of the link, as is the
  source of the random variation.  Each link records the packets it accepted and delivered.
\<close>

section \<open>Link packets\<close>

record link_packet =
  lp_pkt :: "packet option"
  lp_dllp :: "u64 option"
  lp_isTLP :: bool
  lp_isDLLP :: bool
  lp_seqNum :: u64

definition PCIELinkPacket_new :: link_packet where
  "PCIELinkPacket_new = \<lparr>lp_pkt = None, lp_dllp = None, lp_isTLP = False, lp_isDLLP = False, lp_seqNum = 0\<rparr>"

text \<open>The constructor takes an \<^verbatim>\<open>int\<close>: the sequence number is cut to 32 bits and sign-extended.\<close>

definition DataLinkPacket_new :: "u64 \<Rightarrow> u64" where
  "DataLinkPacket_new seq_num = scast (ucast seq_num :: u32)"

abbreviation (input) PCIE_REQUEST_HEADER_SIZE :: u32 where "PCIE_REQUEST_HEADER_SIZE \<equiv> 12"
abbreviation (input) PCIE_RESPONSE_HEADER_SIZE :: u32 where "PCIE_RESPONSE_HEADER_SIZE \<equiv> 12"
abbreviation (input) DLL_OVERHEAD :: u32 where "DLL_OVERHEAD \<equiv> 6"
abbreviation (input) PHYSICAL_OVERHEAD :: u32 where "PHYSICAL_OVERHEAD \<equiv> 2"
abbreviation (input) DLLP_SIZE :: u32 where "DLLP_SIZE \<equiv> 6"

text \<open>Bytes on the wire: the 8b/10b encoding multiplies by 1.25 and truncates.\<close>

definition encoded :: "u32 \<Rightarrow> nat" where
  "encoded n = unat n * 5 div 4"

definition lp_getSize :: "link_packet \<Rightarrow> nat res" where
  "lp_getSize o' =
     (case lp_pkt o' of
        Some p \<Rightarrow>
          if isRequest (p_cmd p) \<and> hasData (p_cmd p) then
            sbind (getSize p) (\<lambda>sz. Inr (encoded (PCIE_REQUEST_HEADER_SIZE + sz + DLL_OVERHEAD + PHYSICAL_OVERHEAD)))
          else if isRequest (p_cmd p) then
            Inr (encoded (PCIE_REQUEST_HEADER_SIZE + DLL_OVERHEAD + PHYSICAL_OVERHEAD))
          else if isResponse (p_cmd p) \<and> hasData (p_cmd p) then
            sbind (getSize p) (\<lambda>sz. Inr (encoded (PCIE_RESPONSE_HEADER_SIZE + sz + DLL_OVERHEAD + PHYSICAL_OVERHEAD)))
          else Inr (encoded (PCIE_RESPONSE_HEADER_SIZE + DLL_OVERHEAD + PHYSICAL_OVERHEAD))
      | None \<Rightarrow> Inr (if lp_dllp o' \<noteq> None then encoded (DLLP_SIZE + PHYSICAL_OVERHEAD) else 0))"

section \<open>Replay buffer\<close>

type_synonym ptr = nat

type_synonym replay_buffer = "ptr option list"

definition ReplayBuffer_new :: "nat \<Rightarrow> replay_buffer" where
  "ReplayBuffer_new max_size = replicate max_size None"

definition rb_size :: "replay_buffer \<Rightarrow> nat" where
  "rb_size q = length (filter (\<lambda>e. e \<noteq> None) q)"

fun rb_store :: "ptr \<Rightarrow> replay_buffer \<Rightarrow> replay_buffer" where
  "rb_store p [] = []"
| "rb_store p (None # q) = Some p # q"
| "rb_store p (Some r # q) = Some r # rb_store p q"

definition rb_pushBack :: "nat \<Rightarrow> ptr \<Rightarrow> replay_buffer \<Rightarrow> replay_buffer" where
  "rb_pushBack maximumSize p q = (if rb_size q \<ge> maximumSize then q else rb_store p q)"

definition rb_front :: "replay_buffer \<Rightarrow> ptr option res" where
  "rb_front q = (case q of [] \<Rightarrow> Inl Undefined_Behaviour | e # _ \<Rightarrow> Inr e)"

definition rb_popFront :: "replay_buffer \<Rightarrow> (ptr option \<times> replay_buffer) res" where
  "rb_popFront q = (case q of
      [] \<Rightarrow> Inl Undefined_Behaviour
    | None # _ \<Rightarrow> Inr (None, q)
    | Some p # r \<Rightarrow> Inr (Some p, r @ [None]))"

definition rb_get :: "nat \<Rightarrow> nat \<Rightarrow> replay_buffer \<Rightarrow> ptr option res" where
  "rb_get maximumSize idx q =
     (if idx > maximumSize then Inr None
      else if idx < length q then Inr (q ! idx) else Inl Undefined_Behaviour)"

definition rb_empty :: "replay_buffer \<Rightarrow> bool" where
  "rb_empty q \<longleftrightarrow> (\<forall>e\<in>set q. e = None)"

section \<open>Links\<close>

record link =
  tx_time :: "nat \<Rightarrow> tick"
  linkDelay :: tick
  delayVar :: tick
  lk_packet :: "ptr option"
  txQueue :: "(tick \<times> ptr) list"
  doneEvent :: "tick option"
  txQueueEvent :: "tick option"
  timeoutEvent :: "tick option"
  ackEvent :: "tick option"
  lk_buffer :: replay_buffer
  sendSeqNum :: u64
  recvSeqNum :: u64
  lastAcked :: u64
  maxQueueSize :: nat
  retryTime :: u32
  retryResp :: bool
  retryReq :: bool
  replayPacket :: "ptr option"
  replayDLLP :: "ptr option"
  retransmit :: bool
  retransmitIdx :: nat
  accepted :: "packet list"
  delivered :: "packet list"

text \<open>The two links of a \<^verbatim>\<open>PCIELink\<close>; \<^verbatim>\<open>False\<close> is \<^verbatim>\<open>links[0]\<close> and the other link of \<^verbatim>\<open>i\<close> is its negation.\<close>

record pcie_state =
  heap :: "ptr \<Rightarrow> link_packet option"
  next_ptr :: ptr
  lnk :: "bool \<Rightarrow> link"
  curTick :: tick
  rnd :: "nat \<Rightarrow> tick"
  rnd_idx :: nat

definition Link_new :: "(nat \<Rightarrow> tick) \<Rightarrow> tick \<Rightarrow> tick \<Rightarrow> nat \<Rightarrow> u32 \<Rightarrow> link" where
  "Link_new time delay delay_var max_queue_size retry_time =
     \<lparr>tx_time = time, linkDelay = delay, delayVar = delay_var, lk_packet = None, txQueue = [],
      doneEvent = None, txQueueEvent = None, timeoutEvent = None, ackEvent = None,
      lk_buffer = ReplayBuffer_new max_queue_size, sendSeqNum = 0, recvSeqNum = 0, lastAcked = 0,
      maxQueueSize = max_queue_size, retryTime = retry_time, retryResp = False, retryReq = False,
      replayPacket = None, replayDLLP = None, retransmit = False, retransmitIdx = 0,
      accepted = [], delivered = []\<rparr>"

definition PCIELink_new :: "link \<Rightarrow> (nat \<Rightarrow> tick) \<Rightarrow> pcie_state" where
  "PCIELink_new l r = \<lparr>heap = \<lambda>_. None, next_ptr = 0, lnk = \<lambda>_. l, curTick = 0, rnd = r, rnd_idx = 0\<rparr>"

definition upd :: "bool \<Rightarrow> (link \<Rightarrow> link) \<Rightarrow> pcie_state \<Rightarrow> pcie_state" where
  "upd i f s = s\<lparr>lnk := (lnk s)(i := f (lnk s i))\<rparr>"

definition new_ptr :: "link_packet \<Rightarrow> pcie_state \<Rightarrow> ptr \<times> pcie_state" where
  "new_ptr o' s = (next_ptr s, s\<lparr>heap := (heap s)(next_ptr s \<mapsto> o'), next_ptr := Suc (next_ptr s)\<rparr>)"

definition deref :: "ptr \<Rightarrow> pcie_state \<Rightarrow> link_packet res" where
  "deref p s = (case heap s p of None \<Rightarrow> Inl Undefined_Behaviour | Some o' \<Rightarrow> Inr o')"

definition delete :: "ptr \<Rightarrow> pcie_state \<Rightarrow> pcie_state" where
  "delete p s = s\<lparr>heap := (heap s)(p := None)\<rparr>"

text \<open>Scheduling an event asserts that it is not scheduled yet and that its time is not past.\<close>

definition sched_ok :: "tick option \<Rightarrow> tick \<Rightarrow> pcie_state \<Rightarrow> unit res" where
  "sched_ok ev t s = (if ev = None \<and> curTick s \<le> t then Inr () else Inl Assert_Failed)"

definition transmit :: "bool \<Rightarrow> ptr \<Rightarrow> pcie_state \<Rightarrow> (bool \<times> pcie_state) res" where
  "transmit i p s =
     (if lk_packet (lnk s i) \<noteq> None then Inr (False, s)
      else
        sbind (deref p s) (\<lambda>o'. sbind (lp_getSize o') (\<lambda>sz.
          (let l = lnk s i;
               delay = tx_time l sz + (if delayVar l \<noteq> 0 then rnd s (rnd_idx s) else 0);
               s = s\<lparr>rnd_idx := (if delayVar l \<noteq> 0 then Suc (rnd_idx s) else rnd_idx s)\<rparr>;
               t = curTick s + delay
           in sbind (sched_ok (doneEvent l) t s) (\<lambda>_.
              Inr (True, upd i (\<lambda>l. l\<lparr>lk_packet := Some p, doneEvent := Some t\<rparr>) s))))))"

definition linkTransmitInterface :: "bool \<Rightarrow> packet \<Rightarrow> bool \<Rightarrow> pcie_state \<Rightarrow> (bool \<times> pcie_state) res" where
  "linkTransmitInterface i pkt master s =
     (let l = lnk s i in
      if replayPacket l \<noteq> None \<or> rb_size (lk_buffer l) \<ge> maxQueueSize l \<or> retransmit l then
        Inr (False, upd i (\<lambda>l. if \<not> master then l\<lparr>retryReq := True\<rparr> else l\<lparr>retryResp := True\<rparr>) s)
      else
        (let (p, s) = new_ptr (PCIELinkPacket_new\<lparr>lp_isTLP := True, lp_pkt := Some pkt, lp_seqNum := sendSeqNum l\<rparr>) s;
             s = upd i (\<lambda>l. l\<lparr>replayPacket := Some p\<rparr>) s
         in sbind (transmit i p s) (\<lambda>(_, s).
            Inr (True, upd i (\<lambda>l. l\<lparr>sendSeqNum := sendSeqNum l + 1, accepted := accepted l @ [pkt]\<rparr>) s))))"

text \<open>The attached device reacts to a retry by offering packets until one is refused.\<close>

fun offer_all :: "bool \<Rightarrow> bool \<Rightarrow> packet list \<Rightarrow> pcie_state \<Rightarrow> pcie_state res" where
  "offer_all i master [] s = Inr s"
| "offer_all i master (pkt # pkts) s =
     sbind (linkTransmitInterface i pkt master s) (\<lambda>(ok, s). if ok then offer_all i master pkts s else Inr s)"

definition send_retries :: "bool \<Rightarrow> packet list \<Rightarrow> packet list \<Rightarrow> pcie_state \<Rightarrow> pcie_state res" where
  "send_retries i reqs resps s =
     sbind (if retryReq (lnk s i) then offer_all i False reqs (upd i (\<lambda>l. l\<lparr>retryReq := False\<rparr>) s) else Inr s) (\<lambda>s.
     if retryResp (lnk s i) then offer_all i True resps (upd i (\<lambda>l. l\<lparr>retryResp := False\<rparr>) s) else Inr s)"

text \<open>
  The acknowledged packets leave the replay buffer.  The number of iterations is bounded by the
  number of packets in the buffer.
\<close>

fun ack_loop :: "nat \<Rightarrow> bool \<Rightarrow> u64 \<Rightarrow> pcie_state \<Rightarrow> pcie_state option res" where
  "ack_loop 0 i seq_num s = Inr None"
| "ack_loop (Suc n) i seq_num s =
     sbind (rb_front (lk_buffer (lnk s i))) (\<lambda>temp.
       case temp of
         None \<Rightarrow> Inr (Some s)
       | Some p \<Rightarrow>
           sbind (deref p s) (\<lambda>o'.
           if lp_seqNum o' \<le> seq_num then
             sbind (rb_popFront (lk_buffer (lnk s i))) (\<lambda>(_, q).
             ack_loop n i seq_num (delete p (upd i (\<lambda>l. l\<lparr>lk_buffer := q\<rparr>) s)))
           else
             (let t = curTick s + ucast (retryTime (lnk s i)) in
              sbind (sched_ok (timeoutEvent (lnk s i)) t s) (\<lambda>_.
              Inr (Some (upd i (\<lambda>l. l\<lparr>timeoutEvent := Some t\<rparr>) s))))))"

definition recv_ack :: "bool \<Rightarrow> ptr \<Rightarrow> u64 \<Rightarrow> packet list \<Rightarrow> packet list \<Rightarrow> pcie_state \<Rightarrow> pcie_state res" where
  "recv_ack i p seq_num reqs resps s =
     (let s = upd i (\<lambda>l. l\<lparr>timeoutEvent := None\<rparr>) s in
      sbind (ack_loop (Suc (rb_size (lk_buffer (lnk s i)))) i seq_num s) (\<lambda>r.
        case r of None \<Rightarrow> Inl Undefined_Behaviour
        | Some s \<Rightarrow> send_retries i reqs resps (delete p s)))"

definition return_ack :: "bool \<Rightarrow> pcie_state \<Rightarrow> pcie_state res" where
  "return_ack i s =
     (if ackEvent (lnk s i) \<noteq> None then Inr s
      else
        (let (p, s) = new_ptr (PCIELinkPacket_new\<lparr>lp_isDLLP := True,
                         lp_dllp := Some (DataLinkPacket_new (recvSeqNum (lnk s i) - 1))\<rparr>) s
         in sbind (transmit i p s) (\<lambda>(sent, s).
            if sent then Inr s
            else (let t = curTick s + ucast (retryTime (lnk s i) div 3) in
                  sbind (sched_ok (ackEvent (lnk s i)) t s) (\<lambda>_.
                  Inr (upd i (\<lambda>l. l\<lparr>replayDLLP := Some p, lastAcked := recvSeqNum l - 1, ackEvent := Some t\<rparr>) s))))))"

definition linkReceiveInterface :: "bool \<Rightarrow> ptr \<Rightarrow> bool \<Rightarrow> packet list \<Rightarrow> packet list \<Rightarrow> pcie_state \<Rightarrow> pcie_state res" where
  "linkReceiveInterface i p success reqs resps s =
     sbind (deref p s) (\<lambda>o'.
       if lp_isTLP o' then
         if lp_seqNum o' = recvSeqNum (lnk s i) then
           (case lp_pkt o' of
              None \<Rightarrow> Inl Undefined_Behaviour
            | Some pkt \<Rightarrow>
                if \<not> success then Inr s
                else return_ack i (upd i (\<lambda>l. l\<lparr>recvSeqNum := recvSeqNum l + 1, delivered := delivered l @ [pkt]\<rparr>) s))
         else return_ack i s
       else if lp_isDLLP o' then
         (case lp_dllp o' of None \<Rightarrow> Inl Undefined_Behaviour | Some seq_num \<Rightarrow> recv_ack i p seq_num reqs resps s)
       else Inr s)"

definition txComplete :: "bool \<Rightarrow> ptr \<Rightarrow> bool \<Rightarrow> packet list \<Rightarrow> packet list \<Rightarrow> pcie_state \<Rightarrow> pcie_state res" where
  "txComplete i p success reqs resps s = linkReceiveInterface (\<not> i) p success reqs resps s"

text \<open>
  What the attached devices do during an event: whether the receiver accepts a delivered packet, and
  the requests and responses offered at each place a retry is announced.
\<close>

record environment =
  env_ok :: bool
  env_reqs :: "nat \<Rightarrow> packet list"
  env_resps :: "nat \<Rightarrow> packet list"

definition sched_timeout :: "bool \<Rightarrow> pcie_state \<Rightarrow> pcie_state res" where
  "sched_timeout i s =
     (if timeoutEvent (lnk s i) = None then
        (let t = curTick s + ucast (retryTime (lnk s i)) in
         sbind (sched_ok (timeoutEvent (lnk s i)) t s) (\<lambda>_. Inr (upd i (\<lambda>l. l\<lparr>timeoutEvent := Some t\<rparr>) s)))
      else Inr s)"

text \<open>The parts of \<^verbatim>\<open>txDone\<close> in order: hand-over, pending acknowledgement, first transmission,
  retransmission, pending packet.\<close>

definition tx_hand_over :: "bool \<Rightarrow> ptr \<Rightarrow> environment \<Rightarrow> pcie_state \<Rightarrow> pcie_state res" where
  "tx_hand_over i p env s =
     (if linkDelay (lnk s i) > 0 then
        (let s = upd i (\<lambda>l. l\<lparr>txQueue := txQueue l @ [(curTick s + linkDelay l, p)]\<rparr>) s in
         if txQueueEvent (lnk s i) = None then
           (let t = fst (hd (txQueue (lnk s i))) in
            sbind (sched_ok (txQueueEvent (lnk s i)) t s) (\<lambda>_. Inr (upd i (\<lambda>l. l\<lparr>txQueueEvent := Some t\<rparr>) s)))
         else Inr s)
      else sbind (sassert (txQueue (lnk s i) = [])) (\<lambda>_. txComplete i p (env_ok env) (env_reqs env 0) (env_resps env 0) s))"

definition tx_pending_ack :: "bool \<Rightarrow> pcie_state \<Rightarrow> (bool \<times> pcie_state) res" where
  "tx_pending_ack i s =
     (case replayDLLP (lnk s i) of
        None \<Rightarrow> Inr (True, s)
      | Some p \<Rightarrow> sbind (transmit i p s) (\<lambda>(flag, s).
          Inr (flag, if flag then upd i (\<lambda>l. l\<lparr>replayDLLP := None\<rparr>) s else s)))"

definition tx_first :: "bool \<Rightarrow> ptr \<Rightarrow> environment \<Rightarrow> pcie_state \<Rightarrow> pcie_state res" where
  "tx_first i p env s =
     (if replayPacket (lnk s i) = Some p then
        sbind (sched_timeout i (upd i (\<lambda>l. l\<lparr>lk_buffer := rb_pushBack (maxQueueSize l) p (lk_buffer l), replayPacket := None\<rparr>) s)) (\<lambda>s.
        send_retries i (env_reqs env 1) (env_resps env 1) s)
      else Inr s)"

definition tx_pending :: "bool \<Rightarrow> pcie_state \<Rightarrow> pcie_state res" where
  "tx_pending i s =
     (case replayPacket (lnk s i) of
        None \<Rightarrow> Inr s
      | Some p \<Rightarrow> sbind (transmit i p s) (\<lambda>(_, s). Inr s))"

definition tx_retransmit :: "bool \<Rightarrow> environment \<Rightarrow> pcie_state \<Rightarrow> pcie_state res" where
  "tx_retransmit i env s =
     (if retransmit (lnk s i) then
        sbind (sched_timeout i s) (\<lambda>s.
          (let l = lnk s i in
           if retransmitIdx l \<ge> rb_size (lk_buffer l) then
             sbind (send_retries i (env_reqs env 2) (env_resps env 2)
                      (upd i (\<lambda>l. l\<lparr>retransmitIdx := 0, retransmit := False\<rparr>) s)) (tx_pending i)
           else
             sbind (rb_get (maxQueueSize l) (retransmitIdx l) (lk_buffer l)) (\<lambda>e.
             case e of
               None \<Rightarrow> if lk_packet l \<noteq> None then Inr (upd i (\<lambda>l. l\<lparr>retransmitIdx := Suc (retransmitIdx l)\<rparr>) s)
                       else Inl Undefined_Behaviour
             | Some p \<Rightarrow> sbind (transmit i p s) (\<lambda>(_, s).
                 Inr (upd i (\<lambda>l. l\<lparr>retransmitIdx := Suc (retransmitIdx l)\<rparr>) s)))))
      else tx_pending i s)"

definition txDone :: "bool \<Rightarrow> environment \<Rightarrow> pcie_state \<Rightarrow> pcie_state res" where
  "txDone i env s =
     (case lk_packet (lnk s i) of
        None \<Rightarrow> Inl Undefined_Behaviour
      | Some p \<Rightarrow>
          sbind (tx_hand_over i p env s) (\<lambda>s.
          sbind (tx_pending_ack i (upd i (\<lambda>l. l\<lparr>lk_packet := None\<rparr>) s)) (\<lambda>(flag, s).
          if \<not> flag then Inr s
          else sbind (tx_first i p env s) (tx_retransmit i env))))"

definition processTxQueue :: "bool \<Rightarrow> environment \<Rightarrow> pcie_state \<Rightarrow> pcie_state res" where
  "processTxQueue i env s =
     (case txQueue (lnk s i) of
        [] \<Rightarrow> Inl Undefined_Behaviour
      | (t, p) # q \<Rightarrow>
          (let s = upd i (\<lambda>l. l\<lparr>txQueue := q\<rparr>) s in
           sbind (case q of
                [] \<Rightarrow> Inr s
              | (t', _) # _ \<Rightarrow>
                  sbind (sassert (t' > curTick s)) (\<lambda>_.
                  sbind (sched_ok (txQueueEvent (lnk s i)) t' s) (\<lambda>_. Inr (upd i (\<lambda>l. l\<lparr>txQueueEvent := Some t'\<rparr>) s)))) (\<lambda>s.
           sbind (sassert (t = curTick s)) (\<lambda>_.
           txComplete i p (env_ok env) (env_reqs env 0) (env_resps env 0) s))))"

definition timeoutFunc :: "bool \<Rightarrow> pcie_state \<Rightarrow> pcie_state res" where
  "timeoutFunc i s =
     (if rb_size (lk_buffer (lnk s i)) = 0 then Inr s
      else
        sbind (rb_front (lk_buffer (lnk s i))) (\<lambda>f.
        case f of
          None \<Rightarrow> Inr s
        | Some p \<Rightarrow>
            if retransmit (lnk s i) then Inr s
            else sbind (transmit i p s) (\<lambda>(success, s).
              Inr (upd i (\<lambda>l. l\<lparr>retransmit := True, retransmitIdx := (if success then 1 else 0)\<rparr>) s))))"

definition sendAck :: "bool \<Rightarrow> pcie_state \<Rightarrow> pcie_state res" where
  "sendAck i s =
     (if lastAcked (lnk s i) = recvSeqNum (lnk s i) - 1 then Inr s
      else
        (let (p, s) = new_ptr (PCIELinkPacket_new\<lparr>lp_isDLLP := True,
                         lp_dllp := Some (DataLinkPacket_new (recvSeqNum (lnk s i) - 1))\<rparr>) s;
             t = curTick s + ucast (retryTime (lnk s i) div 3)
         in sbind (sched_ok (ackEvent (lnk s i)) t s) (\<lambda>_.
            sbind (transmit i p (upd i (\<lambda>l. l\<lparr>lastAcked := recvSeqNum l - 1, ackEvent := Some t\<rparr>) s)) (\<lambda>(success, s).
            Inr (if success then s else upd i (\<lambda>l. l\<lparr>replayDLLP := Some p\<rparr>) s)))))"

section \<open>Behaviour\<close>

text \<open>
  An event fires when no other event of the two links is earlier; it is unscheduled before its
  function runs.  The devices offer packets between events.
\<close>

definition events :: "link \<Rightarrow> tick option list" where
  "events l = [doneEvent l, txQueueEvent l, timeoutEvent l, ackEvent l]"

definition no_earlier :: "pcie_state \<Rightarrow> tick \<Rightarrow> bool" where
  "no_earlier s t \<longleftrightarrow>
     list_all (\<lambda>i. list_all (\<lambda>e. case e of None \<Rightarrow> True | Some t' \<Rightarrow> t \<le> t') (events (lnk s i))) [False, True]"

inductive pcie_step :: "pcie_state \<Rightarrow> pcie_state \<Rightarrow> bool" where
  step_done: "doneEvent (lnk s i) = Some t \<Longrightarrow> no_earlier s t \<Longrightarrow>
    txDone i env (upd i (\<lambda>l. l\<lparr>doneEvent := None\<rparr>) (s\<lparr>curTick := t\<rparr>)) = Inr s' \<Longrightarrow> pcie_step s s'"
| step_tx_queue: "txQueueEvent (lnk s i) = Some t \<Longrightarrow> no_earlier s t \<Longrightarrow>
    processTxQueue i env (upd i (\<lambda>l. l\<lparr>txQueueEvent := None\<rparr>) (s\<lparr>curTick := t\<rparr>)) = Inr s' \<Longrightarrow> pcie_step s s'"
| step_timeout: "timeoutEvent (lnk s i) = Some t \<Longrightarrow> no_earlier s t \<Longrightarrow>
    timeoutFunc i (upd i (\<lambda>l. l\<lparr>timeoutEvent := None\<rparr>) (s\<lparr>curTick := t\<rparr>)) = Inr s' \<Longrightarrow> pcie_step s s'"
| step_ack: "ackEvent (lnk s i) = Some t \<Longrightarrow> no_earlier s t \<Longrightarrow>
    sendAck i (upd i (\<lambda>l. l\<lparr>ackEvent := None\<rparr>) (s\<lparr>curTick := t\<rparr>)) = Inr s' \<Longrightarrow> pcie_step s s'"
| step_offer: "curTick s \<le> t \<Longrightarrow> no_earlier s t \<Longrightarrow>
    linkTransmitInterface i pkt master (s\<lparr>curTick := t\<rparr>) = Inr (b, s') \<Longrightarrow> pcie_step s s'"

inductive pcie_reach :: "pcie_state \<Rightarrow> pcie_state \<Rightarrow> bool" for s0 where
  reach_init: "pcie_reach s0 s0"
| reach_step: "pcie_reach s0 s \<Longrightarrow> pcie_step s s' \<Longrightarrow> pcie_reach s0 s'"

section \<open>The in-order delivery invariant\<close>

text \<open>A pointer is good for a link when the packet behind it, if it still exists and is a
  transaction packet, is one the link accepted, at the position its sequence number says.\<close>

definition good :: "pcie_state \<Rightarrow> bool \<Rightarrow> ptr \<Rightarrow> bool" where
  "good s i p \<longleftrightarrow> p < next_ptr s \<and> (\<forall>o'. heap s p = Some o' \<longrightarrow> lp_isTLP o' \<longrightarrow>
     (\<exists>k < length (accepted (lnk s i)). lp_seqNum o' = of_nat k \<and> lp_pkt o' = Some (accepted (lnk s i) ! k)))"

definition refs :: "link \<Rightarrow> ptr set" where
  "refs l = set_option (lk_packet l) \<union> snd ` set (txQueue l) \<union> {p. Some p \<in> set (lk_buffer l)} \<union>
     set_option (replayPacket l) \<union> set_option (replayDLLP l)"

definition link_inv :: "pcie_state \<Rightarrow> bool \<Rightarrow> bool" where
  "link_inv s i \<longleftrightarrow> (\<forall>p\<in>refs (lnk s i). good s i p) \<and> sendSeqNum (lnk s i) = of_nat (length (accepted (lnk s i))) \<and>
     recvSeqNum (lnk s i) = of_nat (length (delivered (lnk s i))) \<and>
     (length (accepted (lnk s (\<not> i))) < 2 ^ 64 \<longrightarrow> prefix (delivered (lnk s i)) (accepted (lnk s (\<not> i))))"

definition pcie_inv :: "pcie_state \<Rightarrow> bool" where
  "pcie_inv s \<longleftrightarrow> (\<forall>i. link_inv s i) \<and> (\<forall>p. heap s p \<noteq> None \<longrightarrow> p < next_ptr s)"

text \<open>What every operation keeps: the invariant, and the goodness of pointers held elsewhere.\<close>

definition keeps :: "pcie_state \<Rightarrow> pcie_state \<Rightarrow> bool" where
  "keeps s s' \<longleftrightarrow> pcie_inv s' \<and> (\<forall>i p. good s i p \<longrightarrow> good s' i p)"

lemma keeps_refl: "pcie_inv s \<Longrightarrow> keeps s s"
  by (simp add: keeps_def)

lemma keeps_trans: "keeps s s' \<Longrightarrow> keeps s' s'' \<Longrightarrow> keeps s s''"
  by (simp add: keeps_def)

lemma keeps_inv: "keeps s s' \<Longrightarrow> pcie_inv s'"
  by (simp add: keeps_def)

lemma keeps_good: "keeps s s' \<Longrightarrow> good s i p \<Longrightarrow> good s' i p"
  by (simp add: keeps_def)

lemma upd_simps [simp]:
  "lnk (upd i f s) j = (if j = i then f (lnk s i) else lnk s j)" "heap (upd i f s) = heap s"
  "next_ptr (upd i f s) = next_ptr s" "curTick (upd i f s) = curTick s" "rnd (upd i f s) = rnd s" "rnd_idx (upd i f s) = rnd_idx s"
  by (simp_all add: upd_def)

lemma inv_good: "pcie_inv s \<Longrightarrow> p \<in> refs (lnk s i) \<Longrightarrow> good s i p"
  by (simp add: pcie_inv_def link_inv_def)

text \<open>An update that only moves good pointers.\<close>

definition same_seqs :: "link \<Rightarrow> link \<Rightarrow> bool" where
  "same_seqs l l' \<longleftrightarrow> accepted l' = accepted l \<and> delivered l' = delivered l \<and> sendSeqNum l' = sendSeqNum l \<and> recvSeqNum l' = recvSeqNum l"

lemma keeps_frame:
  assumes inv: "pcie_inv s" and same: "heap s' = heap s" "next_ptr s' = next_ptr s"
    and l: "\<And>j. same_seqs (lnk s j) (lnk s' j)" "\<And>j p. p \<in> refs (lnk s' j) \<Longrightarrow> good s j p"
  shows "keeps s s'"
proof -
  have good: "good s' j p \<longleftrightarrow> good s j p" for j p
    using same l(1) [of j] by (simp add: good_def same_seqs_def)
  have "link_inv s' j" for j
    using inv l(1) [of j] l(1) [of "\<not> j"] l(2) by (auto simp: pcie_inv_def link_inv_def same_seqs_def good)
  then show ?thesis using inv good same by (simp add: keeps_def pcie_inv_def)
qed

lemma keeps_upd:
  assumes "pcie_inv s" "same_seqs (lnk s i) (f (lnk s i))" "\<And>p. p \<in> refs (f (lnk s i)) \<Longrightarrow> p \<in> refs (lnk s i) \<or> good s i p"
  shows "keeps s (upd i f s)"
proof (rule keeps_frame [OF assms(1)])
  show "good s j p" if "p \<in> refs (lnk (upd i f s) j)" for j p
    using that assms(3) inv_good [OF assms(1)] by (auto split: if_splits)
qed (use assms(2) in \<open>simp_all add: same_seqs_def\<close>)

lemma keeps_time: "pcie_inv s \<Longrightarrow> keeps s (s\<lparr>curTick := t\<rparr>)"
  using inv_good by (auto intro!: keeps_frame simp: same_seqs_def)

lemma keeps_new_dllp:
  assumes "pcie_inv s" "new_ptr o' s = (p, s')" "\<not> lp_isTLP o'"
  shows "keeps s s'" "good s' i p"
proof -
  have s': "p = next_ptr s" "s' = s\<lparr>heap := (heap s)(next_ptr s \<mapsto> o'), next_ptr := Suc (next_ptr s)\<rparr>"
    using assms(2) by (auto simp: new_ptr_def)
  show "good s' i p" using assms(3) by (simp add: good_def s')
  have good: "good s' j q" if "good s j q" for j q using that by (auto simp: good_def s')
  have "link_inv s' j" for j using assms(1) good by (simp add: pcie_inv_def link_inv_def s')
  then show "keeps s s'" using assms(1) good by (auto simp: keeps_def pcie_inv_def s' less_SucI)
qed

lemma keeps_delete: "pcie_inv s \<Longrightarrow> keeps s (delete p s)"
proof -
  assume inv: "pcie_inv s"
  have good: "good (delete p s) j q" if "good s j q" for j q using that by (simp add: good_def delete_def)
  have "link_inv (delete p s) j" for j using inv good by (simp add: pcie_inv_def link_inv_def delete_def)
  then show ?thesis using inv good by (auto simp: keeps_def pcie_inv_def delete_def)
qed

lemma transmit_cases:
  assumes "transmit i p s = Inr (b, s')"
  shows "heap s' = heap s \<and> next_ptr s' = next_ptr s \<and>
    (lnk s' = lnk s \<or> (\<exists>t. lnk s' = (lnk s)(i := (lnk s i)\<lparr>lk_packet := Some p, doneEvent := Some t\<rparr>)))"
  using assms by (auto simp: transmit_def res_simps Let_def upd_def split: if_splits)

lemma refs_lk_packet: "q \<in> refs (l\<lparr>lk_packet := Some p, doneEvent := t\<rparr>) \<Longrightarrow> q = p \<or> q \<in> refs l"
  unfolding refs_def by auto

lemma keeps_transmit:
  assumes "pcie_inv s" "transmit i p s = Inr (b, s')" "good s i p"
  shows "keeps s s'"
proof (rule keeps_frame [OF assms(1)])
  note t = transmit_cases [OF assms(2)]
  show "heap s' = heap s" "next_ptr s' = next_ptr s" "same_seqs (lnk s j) (lnk s' j)" for j
    using t by (auto simp: same_seqs_def)
  show "good s j q" if "q \<in> refs (lnk s' j)" for j q
  proof -
    have "(q = p \<and> j = i) \<or> q \<in> refs (lnk s j)"
    proof (cases "lnk s' = lnk s")
      case False
      then obtain t' where t': "lnk s' = (lnk s)(i := (lnk s i)\<lparr>lk_packet := Some p, doneEvent := Some t'\<rparr>)" using t by blast
      show ?thesis
      proof (cases "j = i")
        case True
        then have "q \<in> refs ((lnk s i)\<lparr>lk_packet := Some p, doneEvent := Some t'\<rparr>)" using that t' by simp
        from refs_lk_packet [OF this] True show ?thesis by blast
      qed (use that t' in simp)
    qed (use that in simp)
    then show ?thesis using inv_good [OF assms(1), of q j] assms(3) by blast
  qed
qed

lemma keeps_accept:
  assumes inv: "pcie_inv s" and h: "heap s' = (heap s)(next_ptr s \<mapsto> o')" "next_ptr s' = Suc (next_ptr s)"
    and o': "lp_seqNum o' = sendSeqNum (lnk s i)" "lp_pkt o' = Some pkt"
    and l: "lnk s' (\<not> i) = lnk s (\<not> i)" "refs (lnk s' i) \<subseteq> insert (next_ptr s) (refs (lnk s i))"
      "accepted (lnk s' i) = accepted (lnk s i) @ [pkt]" "delivered (lnk s' i) = delivered (lnk s i)"
      "sendSeqNum (lnk s' i) = sendSeqNum (lnk s i) + 1" "recvSeqNum (lnk s' i) = recvSeqNum (lnk s i)"
  shows "keeps s s'"
proof -
  have send: "sendSeqNum (lnk s i) = of_nat (length (accepted (lnk s i)))" using inv by (simp add: pcie_inv_def link_inv_def)
  have acc: "accepted (lnk s' j) = accepted (lnk s j) \<or> j = i" for j using l(1) by (cases "j = i") auto
  have new: "good s' i (next_ptr s)"
    using o' send by (auto simp: good_def h l(3) intro!: exI [of _ "length (accepted (lnk s i))"])
  have good: "good s' j q" if "good s j q" for j q
  proof -
    have q: "q < next_ptr s" using that by (simp add: good_def)
    show ?thesis
    proof (cases "j = i")
      case True
      then have g: "good s i q" using that by simp
      have "\<exists>k < length (accepted (lnk s' i)). lp_seqNum x = of_nat k \<and> lp_pkt x = Some (accepted (lnk s' i) ! k)"
        if x: "heap s q = Some x" "lp_isTLP x" for x
      proof -
        obtain k where "k < length (accepted (lnk s i))" "lp_seqNum x = of_nat k" "lp_pkt x = Some (accepted (lnk s i) ! k)"
          using g x unfolding good_def by blast
        then show ?thesis by (auto simp: l(3) nth_append intro!: exI [of _ k])
      qed
      then show ?thesis using q True by (auto simp: good_def h)
    next
      case False
      then show ?thesis using that q acc [of j] by (auto simp: good_def h)
    qed
  qed
  have "link_inv s' i" using inv new good l send
    by (auto simp: pcie_inv_def link_inv_def)
  moreover have "link_inv s' (\<not> i)"
  proof -
    have "link_inv s (\<not> i)" using inv by (simp add: pcie_inv_def)
    then show ?thesis using good l(1,3) by (auto simp: link_inv_def intro: prefix_prefix)
  qed
  ultimately have "link_inv s' j" for j by (cases i; cases j) simp_all
  then show ?thesis using inv good h by (auto simp: keeps_def pcie_inv_def less_SucI)
qed

lemma keeps_linkTransmitInterface:
  assumes inv: "pcie_inv s" and run: "linkTransmitInterface i pkt master s = Inr (b, s')"
  shows "keeps s s'"
proof (cases "replayPacket (lnk s i) \<noteq> None \<or> rb_size (lk_buffer (lnk s i)) \<ge> maxQueueSize (lnk s i) \<or> retransmit (lnk s i)")
  case True
  then have "s' = upd i (\<lambda>l. if \<not> master then l\<lparr>retryReq := True\<rparr> else l\<lparr>retryResp := True\<rparr>) s"
    using run by (auto simp: linkTransmitInterface_def Let_def)
  then show ?thesis using inv by (cases master) (auto intro!: keeps_upd simp: same_seqs_def refs_def)
next
  case False
  define o' where "o' = PCIELinkPacket_new\<lparr>lp_isTLP := True, lp_pkt := Some pkt, lp_seqNum := sendSeqNum (lnk s i)\<rparr>"
  define s1 where "s1 = upd i (\<lambda>l. l\<lparr>replayPacket := Some (next_ptr s)\<rparr>)
    (s\<lparr>heap := (heap s)(next_ptr s \<mapsto> o'), next_ptr := Suc (next_ptr s)\<rparr>)"
  obtain b2 s2 where t: "transmit i (next_ptr s) s1 = Inr (b2, s2)"
    and s': "s' = upd i (\<lambda>l. l\<lparr>sendSeqNum := sendSeqNum l + 1, accepted := accepted l @ [pkt]\<rparr>) s2"
    using run False unfolding linkTransmitInterface_def Let_def new_ptr_def o'_def [symmetric] s1_def
    by (auto simp: res_simps)
  show ?thesis
  proof (rule keeps_accept [OF inv, of s' o' i pkt])
    note t = transmit_cases [OF t]
    show "lp_seqNum o' = sendSeqNum (lnk s i)" "lp_pkt o' = Some pkt" by (simp_all add: o'_def)
    show "heap s' = (heap s)(next_ptr s \<mapsto> o')" "next_ptr s' = Suc (next_ptr s)" using t by (auto simp: s' s1_def)
    show "refs (lnk s' i) \<subseteq> insert (next_ptr s) (refs (lnk s i))" using t by (auto simp: s' s1_def refs_def)
  qed (use transmit_cases [OF t] in \<open>auto simp: s' s1_def\<close>)
qed

lemma keeps_offer_all:
  "pcie_inv s \<Longrightarrow> offer_all i master pkts s = Inr s' \<Longrightarrow> keeps s s'"
proof (induction i master pkts s rule: offer_all.induct)
  case (2 i master pkt pkts s)
  obtain ok s1 where s1: "linkTransmitInterface i pkt master s = Inr (ok, s1)"
    "(if ok then offer_all i master pkts s1 else Inr s1) = Inr s'"
    using 2(3) by (auto simp: res_simps)
  note k = keeps_linkTransmitInterface [OF 2(2) s1(1)]
  show ?case
  proof (cases ok)
    case True
    then have "keeps s1 s'" using 2(1) s1 keeps_inv [OF k] by auto
    then show ?thesis using k keeps_trans by blast
  next
    case False
    then show ?thesis using s1 k by simp
  qed
qed (auto intro: keeps_refl)

lemma keeps_send_retries:
  assumes inv: "pcie_inv s" and run: "send_retries i reqs resps s = Inr s'"
  shows "keeps s s'"
proof -
  obtain s1 where s1: "(if retryReq (lnk s i) then offer_all i False reqs (upd i (\<lambda>l. l\<lparr>retryReq := False\<rparr>) s) else Inr s) = Inr s1"
    and s2: "(if retryResp (lnk s1 i) then offer_all i True resps (upd i (\<lambda>l. l\<lparr>retryResp := False\<rparr>) s1) else Inr s1) = Inr s'"
    using run by (auto simp: send_retries_def res_simps)
  have k0: "keeps s (upd i (\<lambda>l. l\<lparr>retryReq := False\<rparr>) s)" by (rule keeps_upd [OF inv]) (auto simp: same_seqs_def refs_def)
  have k1: "keeps s s1"
    using s1 keeps_offer_all [OF keeps_inv [OF k0]] keeps_trans [OF k0] keeps_refl [OF inv] by (auto split: if_splits)
  have k2: "keeps s1 (upd i (\<lambda>l. l\<lparr>retryResp := False\<rparr>) s1)"
    by (rule keeps_upd [OF keeps_inv [OF k1]]) (auto simp: same_seqs_def refs_def)
  have "keeps s1 s'"
    using s2 keeps_offer_all [OF keeps_inv [OF k2]] keeps_trans [OF k2] keeps_refl [OF keeps_inv [OF k1]] by (auto split: if_splits)
  then show ?thesis by (rule keeps_trans [OF k1])
qed

lemma rb_popFront_Some:
  assumes "rb_front q = Inr (Some p)"
  shows "\<exists>r. rb_popFront q = Inr (Some p, r @ [None]) \<and> q = Some p # r"
  using assms by (cases q) (auto simp: rb_front_def rb_popFront_def split: option.splits)


lemma keeps_ack_loop:
  "pcie_inv s \<Longrightarrow> ack_loop n i seq_num s = Inr (Some s') \<Longrightarrow> keeps s s'"
proof (induction n i seq_num s rule: ack_loop.induct)
  case (2 n i seq_num s)
  obtain temp where f: "rb_front (lk_buffer (lnk s i)) = Inr temp" using 2(3) by (auto simp: res_simps)
  show ?case
  proof (cases temp)
    case None
    then show ?thesis using 2(2,3) f by (simp add: keeps_refl)
  next
    case (Some p)
    obtain o' where o': "deref p s = Inr o'" using 2(3) f Some by (auto simp: res_simps)
    from rb_popFront_Some f Some obtain r where r: "rb_popFront (lk_buffer (lnk s i)) = Inr (temp, r @ [None])"
      "lk_buffer (lnk s i) = Some p # r" by metis
    show ?thesis
    proof (cases "lp_seqNum o' \<le> seq_num")
      case True
      define s1 where "s1 = upd i (\<lambda>l. l\<lparr>lk_buffer := r @ [None]\<rparr>) s"
      have k1: "keeps s s1" unfolding s1_def
        by (rule keeps_upd [OF 2(2)]) (use r(2) in \<open>auto simp: same_seqs_def refs_def\<close>)
      have k2: "keeps s1 (delete p s1)" by (rule keeps_delete [OF keeps_inv [OF k1]])
      have "ack_loop n i seq_num (delete p s1) = Inr (Some s')"
        using 2(3) f Some o' r(1) True by (simp add: s1_def)
      then have "keeps (delete p s1) s'"
        using 2(1) [OF True] keeps_inv [OF k2] by (simp add: s1_def)
      then show ?thesis using k1 k2 keeps_trans by blast
    next
      case False
      then obtain t where "s' = upd i (\<lambda>l. l\<lparr>timeoutEvent := Some t\<rparr>) s"
        using 2(3) f Some o' by (auto simp: res_simps Let_def)
      then show ?thesis using 2(2) by (auto intro!: keeps_upd simp: same_seqs_def refs_def)
    qed
  qed
qed simp


lemma keeps_recv_ack:
  assumes inv: "pcie_inv s" and run: "recv_ack i p seq_num reqs resps s = Inr s'"
  shows "keeps s s'"
proof -
  let ?s = "upd i (\<lambda>l. l\<lparr>timeoutEvent := None\<rparr>) s"
  obtain s1 where s1: "ack_loop (Suc (rb_size (lk_buffer (lnk ?s i)))) i seq_num ?s = Inr (Some s1)"
    "send_retries i reqs resps (delete p s1) = Inr s'"
    using run by (auto simp: recv_ack_def res_simps Let_def simp del: ack_loop.simps split: option.splits)
  have k0: "keeps s ?s" by (rule keeps_upd [OF inv]) (auto simp: same_seqs_def refs_def)
  note k1 = keeps_ack_loop [OF keeps_inv [OF k0] s1(1)]
  note k2 = keeps_delete [OF keeps_inv [OF k1], of p]
  note k3 = keeps_send_retries [OF keeps_inv [OF k2] s1(2)]
  show ?thesis using k0 k1 k2 k3 keeps_trans by blast
qed

lemma keeps_return_ack:
  assumes inv: "pcie_inv s" and run: "return_ack i s = Inr s'"
  shows "keeps s s'"
proof (cases "ackEvent (lnk s i) = None")
  case True
  define o' where "o' = PCIELinkPacket_new\<lparr>lp_isDLLP := True, lp_dllp := Some (DataLinkPacket_new (recvSeqNum (lnk s i) - 1))\<rparr>"
  obtain p s1 where n: "new_ptr o' s = (p, s1)" by fastforce
  have "\<not> lp_isTLP o'" by (simp add: o'_def PCIELinkPacket_new_def)
  note k1 = keeps_new_dllp [OF inv n this]
  obtain sent s2 where t: "transmit i p s1 = Inr (sent, s2)"
    and s': "s' = s2 \<or> (\<exists>t. s' = upd i (\<lambda>l. l\<lparr>replayDLLP := Some p, lastAcked := recvSeqNum l - 1, ackEvent := Some t\<rparr>) s2)"
    using run True n unfolding return_ack_def o'_def [symmetric] by (auto simp: res_simps Let_def split: if_splits)
  note k2 = keeps_transmit [OF keeps_inv [OF k1(1)] t k1(2)]
  have g: "good s2 i p" by (rule keeps_good [OF k2 k1(2)])
  have "keeps s2 s'" using s'
  proof (elim disjE exE)
    fix t assume u: "s' = upd i (\<lambda>l. l\<lparr>replayDLLP := Some p, lastAcked := recvSeqNum l - 1, ackEvent := Some t\<rparr>) s2"
    show ?thesis unfolding u by (rule keeps_upd [OF keeps_inv [OF k2]]) (use g in \<open>auto simp: same_seqs_def refs_def\<close>)
  qed (use keeps_refl [OF keeps_inv [OF k2]] in simp)
  then show ?thesis using k1(1) k2 keeps_trans by blast
qed (use run inv in \<open>auto simp: return_ack_def intro: keeps_refl\<close>)

text \<open>Delivering the packet whose sequence number is expected extends the delivered prefix.\<close>

lemma keeps_deliver:
  assumes inv: "pcie_inv s" and p: "good s (\<not> i) p" "heap s p = Some o'" "lp_isTLP o'"
    and seq: "lp_seqNum o' = recvSeqNum (lnk s i)" "lp_pkt o' = Some pkt"
  shows "keeps s (upd i (\<lambda>l. l\<lparr>recvSeqNum := recvSeqNum l + 1, delivered := delivered l @ [pkt]\<rparr>) s)"
    (is "keeps s ?s")
proof -
  let ?A = "accepted (lnk s (\<not> i))" and ?D = "delivered (lnk s i)"
  have li: "link_inv s i" and lo: "link_inv s (\<not> i)" using inv by (simp_all add: pcie_inv_def)
  have recv: "recvSeqNum (lnk s i) = of_nat (length ?D)" using li by (simp add: link_inv_def)
  obtain k where k: "k < length ?A" "lp_seqNum o' = of_nat k" "lp_pkt o' = Some (?A ! k)"
    using p by (auto simp: good_def)
  have pre: "prefix (?D @ [pkt]) ?A" if b: "length ?A < 2 ^ 64"
  proof -
    have d: "prefix ?D ?A" using li b by (simp add: link_inv_def)
    then have "length ?D \<le> length ?A" by (rule prefix_length_le)
    have "(of_nat k :: u64) = of_nat (length ?D)" using k(2) seq(1) recv by simp
    then have "unat (of_nat k :: u64) = unat (of_nat (length ?D) :: u64)" by simp
    then have "k = length ?D" using k(1) b \<open>length ?D \<le> length ?A\<close> by (simp add: unat_of_nat take_bit_nat_eq_self)
    then have "?A = ?D @ [pkt] @ drop (Suc k) ?A"
      using d k(1,3) seq(2) by (metis append_eq_conv_conj Cons_nth_drop_Suc append_Cons append_Nil option.inject prefix_def)
    then show ?thesis by (metis append_assoc prefixI)
  qed
  have good: "good ?s j q \<longleftrightarrow> good s j q" for j q by (simp add: good_def)
  have refs: "refs (l\<lparr>recvSeqNum := r, delivered := d\<rparr>) = refs l" for l r d by (simp add: refs_def)
  have "link_inv ?s i" using li pre recv by (auto simp: link_inv_def good refs)
  moreover have "link_inv ?s (\<not> i)" using lo by (simp add: link_inv_def good)
  ultimately have "link_inv ?s j" for j by (cases i; cases j) simp_all
  then show ?thesis using inv good by (simp add: keeps_def pcie_inv_def)
qed

lemma keeps_receive:
  assumes inv: "pcie_inv s" and g: "good s (\<not> i) p" and run: "linkReceiveInterface i p ok reqs resps s = Inr s'"
  shows "keeps s s'"
proof -
  obtain o' where o': "heap s p = Some o'" using run by (auto simp: linkReceiveInterface_def deref_def res_simps split: option.splits)
  show ?thesis
  proof (cases "lp_isTLP o'")
    case True
    show ?thesis
    proof (cases "lp_seqNum o' = recvSeqNum (lnk s i)")
      case eq: True
      obtain pkt where pkt: "lp_pkt o' = Some pkt" using run o' True eq
        by (auto simp: linkReceiveInterface_def deref_def split: option.splits)
      let ?s = "upd i (\<lambda>l. l\<lparr>recvSeqNum := recvSeqNum l + 1, delivered := delivered l @ [pkt]\<rparr>) s"
      have k: "keeps s ?s" by (rule keeps_deliver [OF inv g o' True eq pkt])
      have "s' = s \<or> return_ack i ?s = Inr s'"
        using run o' True eq pkt by (auto simp: linkReceiveInterface_def deref_def split: if_splits)
      then show ?thesis using keeps_refl [OF inv] keeps_return_ack [OF keeps_inv [OF k]] keeps_trans [OF k] by blast
    next
      case False
      then have "return_ack i s = Inr s'" using run o' True by (simp add: linkReceiveInterface_def deref_def)
      then show ?thesis by (rule keeps_return_ack [OF inv])
    qed
  next
    case False
    then have "s' = s \<or> (\<exists>seq. recv_ack i p seq reqs resps s = Inr s')"
      using run o' by (auto simp: linkReceiveInterface_def deref_def split: if_splits option.splits)
    then show ?thesis using keeps_refl [OF inv] keeps_recv_ack [OF inv] by blast
  qed
qed

section \<open>The events keep the invariant\<close>

lemma keeps_timer [intro]:
  assumes "pcie_inv s"
  shows "keeps s (upd i (\<lambda>l. l\<lparr>doneEvent := t\<rparr>) s)" "keeps s (upd i (\<lambda>l. l\<lparr>txQueueEvent := t\<rparr>) s)"
    "keeps s (upd i (\<lambda>l. l\<lparr>timeoutEvent := t\<rparr>) s)" "keeps s (upd i (\<lambda>l. l\<lparr>ackEvent := t\<rparr>) s)"
    "keeps s (upd i (\<lambda>l. l\<lparr>lastAcked := recvSeqNum l - 1, ackEvent := t\<rparr>) s)"
    "keeps s (upd i (\<lambda>l. l\<lparr>retransmitIdx := n, retransmit := b\<rparr>) s)"
    "keeps s (upd i (\<lambda>l. l\<lparr>retransmit := b, retransmitIdx := n\<rparr>) s)"
    "keeps s (upd i (\<lambda>l. l\<lparr>retransmitIdx := Suc (retransmitIdx l)\<rparr>) s)"
    "keeps s (upd i (\<lambda>l. l\<lparr>lk_packet := None\<rparr>) s)" "keeps s (upd i (\<lambda>l. l\<lparr>replayDLLP := None\<rparr>) s)"
  by (rule keeps_upd [OF assms]; auto simp: same_seqs_def refs_def)+

lemma keeps_sched_timeout:
  assumes "pcie_inv s" "sched_timeout i s = Inr s'"
  shows "keeps s s'"
  using assms by (auto simp: sched_timeout_def Let_def res_simps intro: keeps_refl split: if_splits)

lemma refs_members:
  "lk_packet l = Some p \<Longrightarrow> p \<in> refs l" "replayPacket l = Some p \<Longrightarrow> p \<in> refs l" "replayDLLP l = Some p \<Longrightarrow> p \<in> refs l"
  "Some p \<in> set (lk_buffer l) \<Longrightarrow> p \<in> refs l" "(t, p) \<in> set (txQueue l) \<Longrightarrow> p \<in> refs l"
  by (force simp: refs_def)+

lemma keeps_hand_over:
  assumes inv: "pcie_inv s" and g: "good s i p" and run: "tx_hand_over i p env s = Inr s'"
  shows "keeps s s'"
proof (cases "linkDelay (lnk s i) > 0")
  case True
  let ?s = "upd i (\<lambda>l. l\<lparr>txQueue := txQueue l @ [(curTick s + linkDelay l, p)]\<rparr>) s"
  have k: "keeps s ?s" by (rule keeps_upd [OF inv]) (use g in \<open>auto simp: same_seqs_def refs_def\<close>)
  have "s' = ?s \<or> (\<exists>t. s' = upd i (\<lambda>l. l\<lparr>txQueueEvent := Some t\<rparr>) ?s)"
    using run True by (auto simp: tx_hand_over_def Let_def res_simps split: if_splits)
  then show ?thesis using k keeps_timer(2) [OF keeps_inv [OF k]] keeps_trans by blast
next
  case False
  then have "linkReceiveInterface (\<not> i) p (env_ok env) (env_reqs env 0) (env_resps env 0) s = Inr s'"
    using run by (auto simp: tx_hand_over_def txComplete_def res_simps)
  then show ?thesis using keeps_receive [OF inv, of "\<not> i"] g by simp
qed

lemma keeps_pending_ack:
  assumes inv: "pcie_inv s" and run: "tx_pending_ack i s = Inr (b, s')"
  shows "keeps s s'"
proof (cases "replayDLLP (lnk s i)")
  case (Some p)
  then obtain s1 where t: "transmit i p s = Inr (b, s1)" and s': "s' = (if b then upd i (\<lambda>l. l\<lparr>replayDLLP := None\<rparr>) s1 else s1)"
    using run by (auto simp: tx_pending_ack_def res_simps)
  have k: "keeps s s1" by (rule keeps_transmit [OF inv t inv_good [OF inv refs_members(3) [OF Some]]])
  then show ?thesis using s' keeps_timer(10) [OF keeps_inv [OF k]] keeps_trans by (cases b) auto
qed (use run inv in \<open>auto simp: tx_pending_ack_def intro: keeps_refl\<close>)

lemma set_rb_store: "Some q \<in> set (rb_store p b) \<Longrightarrow> q = p \<or> Some q \<in> set b"
  by (induction p b rule: rb_store.induct) auto

lemma keeps_first:
  assumes inv: "pcie_inv s" and run: "tx_first i p env s = Inr s'"
  shows "keeps s s'"
proof (cases "replayPacket (lnk s i) = Some p")
  case True
  let ?s = "upd i (\<lambda>l. l\<lparr>lk_buffer := rb_pushBack (maxQueueSize l) p (lk_buffer l), replayPacket := None\<rparr>) s"
  have g: "good s i p" by (rule inv_good [OF inv refs_members(2) [OF True]])
  have k: "keeps s ?s"
    by (rule keeps_upd [OF inv]) (use g in \<open>auto simp: same_seqs_def refs_def rb_pushBack_def dest: set_rb_store split: if_splits\<close>)
  obtain s1 where s1: "sched_timeout i ?s = Inr s1" "send_retries i (env_reqs env 1) (env_resps env 1) s1 = Inr s'"
    using run True by (auto simp: tx_first_def res_simps)
  note k1 = keeps_sched_timeout [OF keeps_inv [OF k] s1(1)]
  note k2 = keeps_send_retries [OF keeps_inv [OF k1] s1(2)]
  show ?thesis using k k1 k2 keeps_trans by blast
qed (use run inv in \<open>auto simp: tx_first_def intro: keeps_refl\<close>)

lemma keeps_pending:
  assumes inv: "pcie_inv s" and run: "tx_pending i s = Inr s'"
  shows "keeps s s'"
proof (cases "replayPacket (lnk s i)")
  case (Some p)
  then obtain b where "transmit i p s = Inr (b, s')" using run by (auto simp: tx_pending_def res_simps)
  then show ?thesis by (rule keeps_transmit [OF inv _ inv_good [OF inv refs_members(2) [OF Some]]])
qed (use run inv in \<open>auto simp: tx_pending_def intro: keeps_refl\<close>)

lemma keeps_retransmit:
  assumes inv: "pcie_inv s" and run: "tx_retransmit i env s = Inr s'"
  shows "keeps s s'"
proof (cases "retransmit (lnk s i)")
  case True
  obtain s1 where s1: "sched_timeout i s = Inr s1" using run True by (auto simp: tx_retransmit_def res_simps)
  note k = keeps_sched_timeout [OF inv s1]
  note i1 = keeps_inv [OF k]
  show ?thesis
  proof (cases "retransmitIdx (lnk s1 i) \<ge> rb_size (lk_buffer (lnk s1 i))")
    case fin: True
    let ?s = "upd i (\<lambda>l. l\<lparr>retransmitIdx := 0, retransmit := False\<rparr>) s1"
    obtain s2 where s2: "send_retries i (env_reqs env 2) (env_resps env 2) ?s = Inr s2" "tx_pending i s2 = Inr s'"
      using run True s1 fin by (auto simp: tx_retransmit_def res_simps Let_def)
    note k1 = keeps_timer(6) [OF i1, where i = i and n = 0 and b = False]
    note k2 = keeps_send_retries [OF keeps_inv [OF k1] s2(1)]
    note k3 = keeps_pending [OF keeps_inv [OF k2] s2(2)]
    show ?thesis using k k1 k2 k3 keeps_trans by blast
  next
    case False
    then obtain e where e: "rb_get (maxQueueSize (lnk s1 i)) (retransmitIdx (lnk s1 i)) (lk_buffer (lnk s1 i)) = Inr e"
      and r: "(case e of
               None \<Rightarrow> if lk_packet (lnk s1 i) \<noteq> None then Inr (upd i (\<lambda>l. l\<lparr>retransmitIdx := Suc (retransmitIdx l)\<rparr>) s1)
                       else Inl Undefined_Behaviour
             | Some p \<Rightarrow> sbind (transmit i p s1) (\<lambda>(_, s).
                 Inr (upd i (\<lambda>l. l\<lparr>retransmitIdx := Suc (retransmitIdx l)\<rparr>) s))) = Inr s'"
      using run True s1 by (auto simp: tx_retransmit_def res_simps Let_def simp del: not_None_eq)
    show ?thesis
    proof (cases e)
      case None
      then show ?thesis using r keeps_trans [OF k keeps_timer(8) [OF i1, of i]] by (auto split: if_splits)
    next
      case (Some p)
      then have "Some p \<in> set (lk_buffer (lnk s1 i))" using e by (auto simp: rb_get_def in_set_conv_nth split: if_splits)
      then have g: "good s1 i p" by (rule inv_good [OF i1 refs_members(4)])
      obtain b s2 where t: "transmit i p s1 = Inr (b, s2)" and s': "s' = upd i (\<lambda>l. l\<lparr>retransmitIdx := Suc (retransmitIdx l)\<rparr>) s2"
        using r Some by (auto simp: res_simps)
      note k1 = keeps_transmit [OF i1 t g]
      then show ?thesis using keeps_trans [OF k k1] keeps_trans keeps_timer(8) [OF keeps_inv [OF k1], of i] s' by blast
    qed
  qed
qed (use run keeps_pending [OF inv] in \<open>auto simp: tx_retransmit_def\<close>)

lemma keeps_txDone:
  assumes inv: "pcie_inv s" and run: "txDone i env s = Inr s'"
  shows "keeps s s'"
proof -
  obtain p where p: "lk_packet (lnk s i) = Some p" using run by (auto simp: txDone_def split: option.splits)
  have g: "good s i p" by (rule inv_good [OF inv refs_members(1) [OF p]])
  obtain s1 b s2 where s: "tx_hand_over i p env s = Inr s1" "tx_pending_ack i (upd i (\<lambda>l. l\<lparr>lk_packet := None\<rparr>) s1) = Inr (b, s2)"
    and rest: "(if \<not> b then Inr s2 else sbind (tx_first i p env s2) (tx_retransmit i env)) = Inr s'"
    using run p by (auto simp: txDone_def res_simps)
  note k1 = keeps_hand_over [OF inv g s(1)]
  note k2 = keeps_timer(9) [OF keeps_inv [OF k1], of i]
  note k3 = keeps_pending_ack [OF keeps_inv [OF k2] s(2)]
  have "keeps s2 s'"
  proof (cases b)
    case True
    then obtain s3 where s3: "tx_first i p env s2 = Inr s3" "tx_retransmit i env s3 = Inr s'" using rest by (auto simp: res_simps)
    note k = keeps_first [OF keeps_inv [OF k3] s3(1)]
    show ?thesis by (rule keeps_trans [OF k keeps_retransmit [OF keeps_inv [OF k] s3(2)]])
  qed (use rest keeps_refl [OF keeps_inv [OF k3]] in simp)
  then show ?thesis using k1 k2 k3 keeps_trans by blast
qed

lemma keeps_processTxQueue:
  assumes inv: "pcie_inv s" and run: "processTxQueue i env s = Inr s'"
  shows "keeps s s'"
proof -
  obtain t p q where q: "txQueue (lnk s i) = (t, p) # q" using run by (auto simp: processTxQueue_def split: list.splits)
  have g: "good s i p" by (rule inv_good [OF inv refs_members(5) [of t]]) (simp add: q)
  let ?s = "upd i (\<lambda>l. l\<lparr>txQueue := q\<rparr>) s"
  have k: "keeps s ?s" by (rule keeps_upd [OF inv]) (auto simp: same_seqs_def refs_def q)
  obtain s1 where s1: "s1 = ?s \<or> (\<exists>t. s1 = upd i (\<lambda>l. l\<lparr>txQueueEvent := Some t\<rparr>) ?s)"
    and r: "txComplete i p (env_ok env) (env_reqs env 0) (env_resps env 0) s1 = Inr s'"
  proof (cases q)
    case Nil
    then show ?thesis using run q that [of ?s] by (auto simp: processTxQueue_def res_simps Let_def)
  next
    case (Cons e q')
    then show ?thesis using run q that [of "upd i (\<lambda>l. l\<lparr>txQueueEvent := Some (fst e)\<rparr>) ?s"]
      by (cases e) (auto simp: processTxQueue_def res_simps Let_def)
  qed
  have k1: "keeps s s1" using s1 k keeps_timer(2) [OF keeps_inv [OF k]] keeps_trans by blast
  have "good s1 (\<not> \<not> i) p" using keeps_good [OF k1 g] by simp
  from keeps_receive [OF keeps_inv [OF k1] this] r have "keeps s1 s'" by (simp add: txComplete_def)
  then show ?thesis by (rule keeps_trans [OF k1])
qed

lemma keeps_timeoutFunc:
  assumes inv: "pcie_inv s" and run: "timeoutFunc i s = Inr s'"
  shows "keeps s s'"
proof (cases "s' = s")
  case False
  then obtain p b s1 where p: "rb_front (lk_buffer (lnk s i)) = Inr (Some p)" "transmit i p s = Inr (b, s1)"
    and s': "s' = upd i (\<lambda>l. l\<lparr>retransmit := True, retransmitIdx := (if b then 1 else 0)\<rparr>) s1"
    using run by (auto simp: timeoutFunc_def res_simps split: if_splits option.splits)
  have "Some p \<in> set (lk_buffer (lnk s i))" using p(1) by (auto simp: rb_front_def split: list.splits)
  then have k: "keeps s s1" by (intro keeps_transmit [OF inv p(2)] inv_good [OF inv] refs_members(4))
  show ?thesis unfolding s' by (rule keeps_trans [OF k keeps_timer(7) [OF keeps_inv [OF k]]])
qed (use keeps_refl [OF inv] in simp)

lemma keeps_sendAck:
  assumes inv: "pcie_inv s" and run: "sendAck i s = Inr s'"
  shows "keeps s s'"
proof (cases "s' = s")
  case False
  define o' where "o' = PCIELinkPacket_new\<lparr>lp_isDLLP := True, lp_dllp := Some (DataLinkPacket_new (recvSeqNum (lnk s i) - 1))\<rparr>"
  obtain p s1 where n: "new_ptr o' s = (p, s1)" by fastforce
  have "\<not> lp_isTLP o'" by (simp add: o'_def PCIELinkPacket_new_def)
  note k1 = keeps_new_dllp [OF inv n this]
  obtain t b s3 where tr: "transmit i p (upd i (\<lambda>l. l\<lparr>lastAcked := recvSeqNum l - 1, ackEvent := Some t\<rparr>) s1) = Inr (b, s3)"
    and s': "s' = (if b then s3 else upd i (\<lambda>l. l\<lparr>replayDLLP := Some p\<rparr>) s3)"
    using run False n unfolding sendAck_def o'_def [symmetric] by (auto simp: res_simps Let_def split: if_splits)
  note k2 = keeps_timer(5) [OF keeps_inv [OF k1(1)], of i "Some t"]
  note k3 = keeps_transmit [OF keeps_inv [OF k2] tr keeps_good [OF k2 k1(2)]]
  have g: "good s3 i p" by (rule keeps_good [OF k3 keeps_good [OF k2 k1(2)]])
  have "keeps s3 (upd i (\<lambda>l. l\<lparr>replayDLLP := Some p\<rparr>) s3)"
    by (rule keeps_upd [OF keeps_inv [OF k3]]) (use g in \<open>auto simp: same_seqs_def refs_def\<close>)
  then have "keeps s3 s'" using s' keeps_refl [OF keeps_inv [OF k3]] by simp
  then show ?thesis using k1(1) k2 k3 keeps_trans by blast
qed (use keeps_refl [OF inv] in simp)

lemma step_keeps: "pcie_step s s' \<Longrightarrow> pcie_inv s \<Longrightarrow> keeps s s'"
proof (induction rule: pcie_step.induct)
  case (step_done s i t env s')
  note k = keeps_time [OF step_done(4), of t]
  note k1 = keeps_timer(1) [OF keeps_inv [OF k], of i None]
  show ?case using k k1 keeps_txDone [OF keeps_inv [OF k1] step_done(3)] keeps_trans by blast
next
  case (step_tx_queue s i t env s')
  note k = keeps_time [OF step_tx_queue(4), of t]
  note k1 = keeps_timer(2) [OF keeps_inv [OF k], of i None]
  show ?case using k k1 keeps_processTxQueue [OF keeps_inv [OF k1] step_tx_queue(3)] keeps_trans by blast
next
  case (step_timeout s i t s')
  note k = keeps_time [OF step_timeout(4), of t]
  note k1 = keeps_timer(3) [OF keeps_inv [OF k], of i None]
  show ?case using k k1 keeps_timeoutFunc [OF keeps_inv [OF k1] step_timeout(3)] keeps_trans by blast
next
  case (step_ack s i t s')
  note k = keeps_time [OF step_ack(4), of t]
  note k1 = keeps_timer(4) [OF keeps_inv [OF k], of i None]
  show ?case using k k1 keeps_sendAck [OF keeps_inv [OF k1] step_ack(3)] keeps_trans by blast
next
  case (step_offer s t i pkt master b s')
  note k = keeps_time [OF step_offer(4), of t]
  show ?case using k keeps_linkTransmitInterface [OF keeps_inv [OF k] step_offer(3)] keeps_trans by blast
qed

lemma reach_inv: "pcie_reach s0 s \<Longrightarrow> pcie_inv s0 \<Longrightarrow> pcie_inv s"
  by (induction rule: pcie_reach.induct) (auto dest: step_keeps keeps_inv)

lemma PCIELink_new_inv:
  "pcie_inv (PCIELink_new (Link_new time delay delay_var n retry_time) r)"
  by (simp add: pcie_inv_def link_inv_def PCIELink_new_def Link_new_def refs_def ReplayBuffer_new_def)

section \<open>Executing steps\<close>

definition fire_done :: "bool \<Rightarrow> environment \<Rightarrow> pcie_state \<Rightarrow> pcie_state res" where
  "fire_done i env s = (case doneEvent (lnk s i) of
      None \<Rightarrow> Inl Assert_Failed
    | Some t \<Rightarrow> if no_earlier s t then txDone i env (upd i (\<lambda>l. l\<lparr>doneEvent := None\<rparr>) (s\<lparr>curTick := t\<rparr>)) else Inl Assert_Failed)"

definition offer :: "bool \<Rightarrow> packet \<Rightarrow> pcie_state \<Rightarrow> pcie_state res" where
  "offer i pkt s = (if no_earlier s (curTick s)
     then sbind (linkTransmitInterface i pkt (isResponse (p_cmd pkt)) (s\<lparr>curTick := curTick s\<rparr>)) (\<lambda>(_, s). Inr s) else Inl Assert_Failed)"

lemma fire_done_step: "fire_done i env s = Inr s' \<Longrightarrow> pcie_step s s'"
  by (auto simp: fire_done_def intro: step_done split: option.splits if_splits)

lemma offer_step: "offer i pkt s = Inr s' \<Longrightarrow> pcie_step s s'"
  by (auto simp: offer_def res_simps intro: step_offer [of s "curTick s"] split: if_splits)

lemma reach_offer: "pcie_reach s0 s \<Longrightarrow> offer i pkt s = Inr s' \<Longrightarrow> pcie_reach s0 s'"
  using offer_step reach_step by blast

lemma reach_fire: "pcie_reach s0 s \<Longrightarrow> fire_done i env s = Inr s' \<Longrightarrow> pcie_reach s0 s'"
  using fire_done_step reach_step by blast

definition sample_link :: pcie_state where
  "sample_link = PCIELink_new (Link_new (\<lambda>n. 10) 0 0 4 1000) (\<lambda>_. 0)"

definition sample_env :: "bool \<Rightarrow> environment" where
  "sample_env ok = \<lparr>env_ok = ok, env_reqs = \<lambda>_. [], env_resps = \<lambda>_. []\<rparr>"

lemma sample_link_inv: "pcie_inv sample_link"
  unfolding sample_link_def by (rule PCIELink_new_inv)

section \<open>Properties\<close>

text \<open>
  C2: In-order delivery.  In every state the two links can reach from their construction, whatever
  the devices send, accept, refuse and re-offer and however the timers interleave, the packets
  delivered at one end are a prefix of the packets accepted at the other: none is duplicated,
  reordered or invented, retransmissions included.
\<close>

theorem delivered_in_order:
  assumes "pcie_reach (PCIELink_new (Link_new time delay delay_var n retry_time) r) s"
    "length (accepted (lnk s (\<not> i))) < 2 ^ 64"
  shows "prefix (delivered (lnk s i)) (accepted (lnk s (\<not> i)))"
proof -
  have "link_inv s i" using reach_inv [OF assms(1) PCIELink_new_inv] by (simp add: pcie_inv_def)
  then show ?thesis using assms(2) by (simp add: link_inv_def)
qed

theorem delivered_in_order_witness:
  "\<exists>s. pcie_reach sample_link s \<and> prefix (delivered (lnk s True)) (accepted (lnk s False)) \<and>
     length (accepted (lnk s False)) = 1 \<and> length (delivered (lnk s True)) = 1"
proof -
  let ?run = "sbind (offer False (data_packet ReadReq 0x100 [0]) sample_link) (fire_done False (sample_env True))"
  have "map_sum id (\<lambda>s. (length (accepted (lnk s False)), length (delivered (lnk s True)))) ?run = Inr (1, 1)"
    by code_simp
  then obtain s1 s where s1: "offer False (data_packet ReadReq 0x100 [0]) sample_link = Inr s1"
    and s: "fire_done False (sample_env True) s1 = Inr s"
    and n: "length (accepted (lnk s False)) = 1" "length (delivered (lnk s True)) = 1"
    by (cases "offer False (data_packet ReadReq 0x100 [0]) sample_link"; cases ?run) auto
  have r: "pcie_reach sample_link s" by (rule reach_fire [OF reach_offer [OF reach_init s1] s])
  show ?thesis using r n delivered_in_order [OF r [unfolded sample_link_def], of True] by auto
qed


end
