(* ===== verification/Pcie_Ack.thy ===== *)
theory Pcie_Ack
  imports Pcie_Link
begin

text \<open>
  What acknowledgements do on the PCI Express link of \<^verbatim>\<open>Pcie_Link\<close>.  The replay buffer of a link is always a list of packets
  followed by free slots.  The arrival of an acknowledgement is characterised exactly, in every reachable
  state; acknowledging before anything was delivered wraps around and empties the buffer of the sender.
\<close>

section \<open>The packets in a replay buffer\<close>

definition held :: "replay_buffer \<Rightarrow> ptr list" where
  "held q = map the (filter (\<lambda>e. e \<noteq> None) q)"

definition slots :: "ptr list \<Rightarrow> nat \<Rightarrow> replay_buffer" where
  "slots ps n = map Some ps @ replicate n None"

definition compact :: "replay_buffer \<Rightarrow> bool" where
  "compact q \<longleftrightarrow> (\<exists>ps n. q = slots ps n)"

lemma held_slots [simp]: "held (slots ps n) = ps"
  by (simp add: held_def slots_def comp_def)

lemma compact_slots [simp]: "compact (slots ps n)"
  by (auto simp: compact_def)

lemma compactE: "compact q \<Longrightarrow> \<exists>n. q = slots (held q) n"
  by (auto simp: compact_def)

lemma slots_front: "rb_front (slots ps n) = Inr (Some p) \<longleftrightarrow> (\<exists>qs. ps = p # qs)"
  by (cases ps; cases n) (auto simp: rb_front_def slots_def)

lemma slots_pop: "rb_popFront (slots (p # ps) n) = Inr (Some p, slots ps (Suc n))"
  by (simp add: rb_popFront_def slots_def replicate_append_same)

lemma slots_store: "rb_store p (slots ps n) = (case n of 0 \<Rightarrow> slots ps 0 | Suc m \<Rightarrow> slots (ps @ [p]) m)"
  by (induction ps) (auto simp: slots_def split: nat.split)

lemma compact_push: "compact q \<Longrightarrow> compact (rb_pushBack m p q)"
  using compact_slots by (auto simp: compact_def [of q] rb_pushBack_def slots_store split: nat.split)

lemma compact_new: "compact (ReplayBuffer_new n)"
  unfolding compact_def slots_def ReplayBuffer_new_def by (intro exI [of _ "[]"] exI [of _ n]) simp

section \<open>What the operations leave alone\<close>

text \<open>An operation of link \<^verbatim>\<open>i\<close> that leaves the other link and all existing packets alone.\<close>

definition frame :: "bool \<Rightarrow> pcie_state \<Rightarrow> pcie_state \<Rightarrow> bool" where
  "frame i s s' \<longleftrightarrow> lnk s' (\<not> i) = lnk s (\<not> i) \<and> next_ptr s \<le> next_ptr s' \<and> (\<forall>p < next_ptr s. heap s' p = heap s p)"

definition quiet :: "bool \<Rightarrow> pcie_state \<Rightarrow> pcie_state \<Rightarrow> bool" where
  "quiet i s s' \<longleftrightarrow> frame i s s' \<and> lk_buffer (lnk s' i) = lk_buffer (lnk s i)"

lemma quiet_refl [simp]: "quiet i s s"
  by (simp add: quiet_def frame_def)

lemma frame_trans: "frame i s s' \<Longrightarrow> frame i s' s'' \<Longrightarrow> frame i s s''"
  by (auto simp: frame_def)

lemma quiet_trans: "quiet i s s' \<Longrightarrow> quiet i s' s'' \<Longrightarrow> quiet i s s''"
  by (auto simp: quiet_def intro: frame_trans)

lemma quiet_upd: "lk_buffer (f (lnk s i)) = lk_buffer (lnk s i) \<Longrightarrow> quiet i s (upd i f s)"
  by (simp add: quiet_def frame_def)

lemma frame_upd: "frame i s (upd i f s)"
  by (simp add: frame_def)

lemma quiet_new: "new_ptr o' s = (p, s') \<Longrightarrow> quiet i s s' \<and> p = next_ptr s \<and> heap s' p = Some o' \<and> next_ptr s' = Suc p \<and> lnk s' = lnk s \<and> curTick s' = curTick s"
  by (auto simp: new_ptr_def quiet_def frame_def)

lemma quiet_transmit: "transmit i p s = Inr (b, s') \<Longrightarrow> quiet i s s'"
  using transmit_cases [of i p s b s'] by (auto simp: quiet_def frame_def)

lemma quiet_linkTransmitInterface:
  assumes "linkTransmitInterface i pkt master s = Inr (b, s')"
  shows "quiet i s s'"
proof (cases "replayPacket (lnk s i) \<noteq> None \<or> rb_size (lk_buffer (lnk s i)) \<ge> maxQueueSize (lnk s i) \<or> retransmit (lnk s i)")
  case True
  then show ?thesis using assms by (auto simp: linkTransmitInterface_def Let_def intro!: quiet_upd)
next
  case False
  define o' where "o' = PCIELinkPacket_new\<lparr>lp_isTLP := True, lp_pkt := Some pkt, lp_seqNum := sendSeqNum (lnk s i)\<rparr>"
  obtain p s1 where n: "new_ptr o' s = (p, s1)" by fastforce
  obtain b2 s2 where t: "transmit i p (upd i (\<lambda>l. l\<lparr>replayPacket := Some p\<rparr>) s1) = Inr (b2, s2)"
    and s': "s' = upd i (\<lambda>l. l\<lparr>sendSeqNum := sendSeqNum l + 1, accepted := accepted l @ [pkt]\<rparr>) s2"
    using assms False n unfolding linkTransmitInterface_def Let_def o'_def [symmetric] by (auto simp: res_simps)
  have "quiet i s s1" "quiet i s1 (upd i (\<lambda>l. l\<lparr>replayPacket := Some p\<rparr>) s1)" "quiet i s2 s'"
    using quiet_new [OF n] by (auto simp: s' intro!: quiet_upd)
  then show ?thesis using quiet_transmit [OF t] quiet_trans by blast
qed

lemma quiet_offer_all: "offer_all i master pkts s = Inr s' \<Longrightarrow> quiet i s s'"
proof (induction i master pkts s rule: offer_all.induct)
  case (2 i master pkt pkts s)
  obtain ok s1 where s1: "linkTransmitInterface i pkt master s = Inr (ok, s1)"
    "(if ok then offer_all i master pkts s1 else Inr s1) = Inr s'"
    using 2(2) by (auto simp: res_simps)
  have "quiet i s1 s'" using 2(1) s1 by (cases ok) auto
  then show ?case using quiet_linkTransmitInterface [OF s1(1)] quiet_trans by blast
qed simp

lemma quiet_retries_of:
  assumes "(if b then offer_all i master pkts (upd i f s) else Inr s) = Inr s'" "lk_buffer (f (lnk s i)) = lk_buffer (lnk s i)"
  shows "quiet i s s'"
  using assms quiet_offer_all [of i master pkts "upd i f s" s'] quiet_upd [of f s i] quiet_trans by (cases b) auto

lemma quiet_send_retries:
  assumes "send_retries i reqs resps s = Inr s'"
  shows "quiet i s s'"
proof -
  obtain s1 where s1: "(if retryReq (lnk s i) then offer_all i False reqs (upd i (\<lambda>l. l\<lparr>retryReq := False\<rparr>) s) else Inr s) = Inr s1"
    "(if retryResp (lnk s1 i) then offer_all i True resps (upd i (\<lambda>l. l\<lparr>retryResp := False\<rparr>) s1) else Inr s1) = Inr s'"
    using assms by (auto simp: send_retries_def res_simps)
  have "quiet i s s1" "quiet i s1 s'" using quiet_retries_of [OF s1(1)] quiet_retries_of [OF s1(2)] by simp_all
  then show ?thesis by (rule quiet_trans)
qed

lemma quiet_sched_timeout: "sched_timeout i s = Inr s' \<Longrightarrow> quiet i s s'"
  by (auto simp: sched_timeout_def Let_def res_simps intro!: quiet_upd split: if_splits)

lemma quiet_pending_ack:
  assumes "tx_pending_ack i s = Inr (flag, s')"
  shows "quiet i s s'"
proof (cases "replayDLLP (lnk s i)")
  case (Some p)
  then obtain s1 where "transmit i p s = Inr (flag, s1)" "s' = (if flag then upd i (\<lambda>l. l\<lparr>replayDLLP := None\<rparr>) s1 else s1)"
    using assms by (auto simp: tx_pending_ack_def res_simps)
  moreover have "quiet i s1 (upd i (\<lambda>l. l\<lparr>replayDLLP := None\<rparr>) s1)" by (rule quiet_upd) simp
  ultimately show ?thesis using quiet_transmit [of i p s flag s1] quiet_trans [of i s s1] by (cases flag) simp_all
qed (use assms in \<open>simp add: tx_pending_ack_def\<close>)

lemma quiet_pending: "tx_pending i s = Inr s' \<Longrightarrow> quiet i s s'"
  by (auto simp: tx_pending_def res_simps intro: quiet_transmit split: option.splits)

lemma quiet_retransmit:
  assumes "tx_retransmit i env s = Inr s'"
  shows "quiet i s s'"
proof (cases "retransmit (lnk s i)")
  case True
  then obtain s1 where s1: "sched_timeout i s = Inr s1" using assms by (auto simp: tx_retransmit_def res_simps)
  note q1 = quiet_sched_timeout [OF s1]
  have "quiet i s1 s'"
  proof (cases "retransmitIdx (lnk s1 i) \<ge> rb_size (lk_buffer (lnk s1 i))")
    case ge: True
    let ?s = "upd i (\<lambda>l. l\<lparr>retransmitIdx := 0, retransmit := False\<rparr>) s1"
    obtain s2 where s2: "send_retries i (env_reqs env 2) (env_resps env 2) ?s = Inr s2" "tx_pending i s2 = Inr s'"
      using assms True s1 ge by (auto simp: tx_retransmit_def Let_def res_simps)
    have "quiet i s1 ?s" by (rule quiet_upd) simp
    then show ?thesis using quiet_send_retries [OF s2(1)] quiet_pending [OF s2(2)] quiet_trans by blast
  next
    case lt: False
    let ?f = "\<lambda>l. l\<lparr>retransmitIdx := Suc (retransmitIdx l)\<rparr>"
    obtain e where e: "rb_get (maxQueueSize (lnk s1 i)) (retransmitIdx (lnk s1 i)) (lk_buffer (lnk s1 i)) = Inr e"
      using assms True s1 lt by (auto simp: tx_retransmit_def Let_def res_simps)
    have u: "quiet i x (upd i ?f x)" for x by (rule quiet_upd) simp
    show ?thesis
    proof (cases e)
      case None
      then have "s' = upd i ?f s1" using assms True s1 lt e by (auto simp: tx_retransmit_def Let_def split: if_splits)
      then show ?thesis using u by simp
    next
      case (Some p)
      then obtain b s2 where "transmit i p s1 = Inr (b, s2)" "s' = upd i ?f s2"
        using assms True s1 lt e by (auto simp: tx_retransmit_def Let_def res_simps)
      then show ?thesis using quiet_transmit u quiet_trans by blast
    qed
  qed
  then show ?thesis using q1 quiet_trans by blast
qed (use assms quiet_pending in \<open>simp add: tx_retransmit_def\<close>)

lemma quiet_return_ack:
  assumes "return_ack i s = Inr s'"
  shows "quiet i s s'"
proof (cases "ackEvent (lnk s i) = None")
  case True
  define o' where "o' = PCIELinkPacket_new\<lparr>lp_isDLLP := True, lp_dllp := Some (DataLinkPacket_new (recvSeqNum (lnk s i) - 1))\<rparr>"
  obtain p s1 where n: "new_ptr o' s = (p, s1)" by fastforce
  obtain sent s2 where t: "transmit i p s1 = Inr (sent, s2)"
    and s': "s' = s2 \<or> (\<exists>t. s' = upd i (\<lambda>l. l\<lparr>replayDLLP := Some p, lastAcked := recvSeqNum l - 1, ackEvent := Some t\<rparr>) s2)"
    using assms True n unfolding return_ack_def o'_def [symmetric] by (auto simp: res_simps Let_def split: if_splits)
  have "quiet i s2 s'" using s' by (auto intro!: quiet_upd)
  then show ?thesis using quiet_new [OF n] quiet_transmit [OF t] quiet_trans by blast
qed (use assms in \<open>simp add: return_ack_def\<close>)

lemma quiet_sendAck:
  assumes "sendAck i s = Inr s'"
  shows "quiet i s s'"
proof (cases "lastAcked (lnk s i) = recvSeqNum (lnk s i) - 1")
  case False
  define o' where "o' = PCIELinkPacket_new\<lparr>lp_isDLLP := True, lp_dllp := Some (DataLinkPacket_new (recvSeqNum (lnk s i) - 1))\<rparr>"
  obtain p s1 where n: "new_ptr o' s = (p, s1)" by fastforce
  obtain t b s2 where t: "transmit i p (upd i (\<lambda>l. l\<lparr>lastAcked := recvSeqNum l - 1, ackEvent := Some t\<rparr>) s1) = Inr (b, s2)"
    and s': "s' = s2 \<or> s' = upd i (\<lambda>l. l\<lparr>replayDLLP := Some p\<rparr>) s2"
    using assms False n unfolding sendAck_def o'_def [symmetric] by (auto simp: res_simps Let_def split: if_splits)
  have "quiet i s1 (upd i (\<lambda>l. l\<lparr>lastAcked := recvSeqNum l - 1, ackEvent := Some t\<rparr>) s1)" by (rule quiet_upd) simp
  moreover have "quiet i s2 s'" using s' by (auto intro!: quiet_upd)
  ultimately show ?thesis using quiet_new [OF n] quiet_transmit [OF t] quiet_trans by blast
qed (use assms in \<open>simp add: sendAck_def\<close>)

lemma quiet_timeoutFunc:
  assumes "timeoutFunc i s = Inr s'"
  shows "quiet i s s'"
proof (cases "rb_size (lk_buffer (lnk s i)) = 0")
  case True
  then show ?thesis using assms by (simp add: timeoutFunc_def)
next
  case False
  then obtain f where f: "rb_front (lk_buffer (lnk s i)) = Inr f" using assms by (auto simp: timeoutFunc_def res_simps)
  show ?thesis
  proof (cases f)
    case None
    then show ?thesis using assms False f by (simp add: timeoutFunc_def)
  next
    case (Some p)
    show ?thesis
    proof (cases "retransmit (lnk s i)")
      case True
      then show ?thesis using assms False f Some by (simp add: timeoutFunc_def)
    next
      case nr: False
      let ?f = "\<lambda>b l. l\<lparr>retransmit := True, retransmitIdx := (if b then 1 else 0)\<rparr>"
      obtain b s1 where t: "transmit i p s = Inr (b, s1)" "s' = upd i (?f b) s1"
        using assms False f Some nr by (auto simp: timeoutFunc_def res_simps)
      have "quiet i s1 s'" unfolding t(2) by (rule quiet_upd) simp
      then show ?thesis using quiet_transmit [OF t(1)] quiet_trans by blast
    qed
  qed
qed

section \<open>The effect of an acknowledgement\<close>

text \<open>The heap \<^verbatim>\<open>h\<close> is the one before the loop: packets are only deleted by it.\<close>

lemma ack_loop_effect:
  assumes "ack_loop n i k s = Inr (Some s')" "lk_buffer (lnk s i) = slots ps m" "\<forall>p. heap s p = None \<or> heap s p = h p"
  shows "\<exists>m'. lk_buffer (lnk s' i) = slots (dropWhile (\<lambda>p. lp_seqNum (the (h p)) \<le> k) ps) m' \<and> lnk s' (\<not> i) = lnk s (\<not> i)"
  using assms
proof (induction n arbitrary: s ps m)
  case (Suc n)
  show ?case
  proof (cases ps)
    case Nil
    then have "rb_front (lk_buffer (lnk s i)) \<noteq> Inr (Some p)" for p using Suc.prems(2) by (simp add: slots_front)
    then have "s' = s" using Suc.prems(1) by (auto simp: res_simps split: option.splits)
    then show ?thesis using Suc.prems(2) Nil by auto
  next
    case (Cons p qs)
    have f: "rb_front (lk_buffer (lnk s i)) = Inr (Some p)" using Suc.prems(2) Cons by (simp add: slots_front)
    then obtain o' where o': "heap s p = Some o'" using Suc.prems(1) by (auto simp: deref_def res_simps split: option.splits)
    then have h: "the (h p) = o'" using Suc.prems(3) by (metis option.sel option.distinct(1))
    show ?thesis
    proof (cases "lp_seqNum o' \<le> k")
      case True
      let ?s = "delete p (upd i (\<lambda>l. l\<lparr>lk_buffer := slots qs (Suc m)\<rparr>) s)"
      have "ack_loop n i k ?s = Inr (Some s')"
        using Suc.prems(1,2) f o' True Cons by (simp add: deref_def slots_pop)
      from Suc.IH [OF this, of qs "Suc m"] Suc.prems(3) show ?thesis using True h Cons by (auto simp: delete_def)
    next
      case False
      then obtain t where "s' = upd i (\<lambda>l. l\<lparr>timeoutEvent := Some t\<rparr>) s"
        using Suc.prems(1) f o' by (auto simp: deref_def res_simps Let_def)
      then show ?thesis using Suc.prems(2) False h Cons by auto
    qed
  qed
qed simp

lemma recv_ack_effect:
  assumes "recv_ack i p k reqs resps s = Inr s'" "compact (lk_buffer (lnk s i))"
  shows "compact (lk_buffer (lnk s' i)) \<and> lnk s' (\<not> i) = lnk s (\<not> i) \<and>
    held (lk_buffer (lnk s' i)) = dropWhile (\<lambda>q. lp_seqNum (the (heap s q)) \<le> k) (held (lk_buffer (lnk s i)))"
proof -
  let ?s = "upd i (\<lambda>l. l\<lparr>timeoutEvent := None\<rparr>) s"
  obtain s1 where s1: "ack_loop (Suc (rb_size (lk_buffer (lnk ?s i)))) i k ?s = Inr (Some s1)"
    "send_retries i reqs resps (delete p s1) = Inr s'"
    using assms(1) by (auto simp: recv_ack_def res_simps Let_def simp del: ack_loop.simps split: option.splits)
  obtain m where m: "lk_buffer (lnk ?s i) = slots (held (lk_buffer (lnk s i))) m" using compactE [OF assms(2)] by auto
  from ack_loop_effect [OF s1(1) m, of "heap s"] obtain m'
    where b: "lk_buffer (lnk s1 i) = slots (dropWhile (\<lambda>q. lp_seqNum (the (heap s q)) \<le> k) (held (lk_buffer (lnk s i)))) m'"
      "lnk s1 (\<not> i) = lnk s (\<not> i)" by auto
  have "lk_buffer (lnk s' i) = lk_buffer (lnk s1 i)" "lnk s' (\<not> i) = lnk s1 (\<not> i)"
    using quiet_send_retries [OF s1(2)] by (simp_all add: quiet_def frame_def delete_def)
  then show ?thesis using b by simp
qed

section \<open>Reachable buffers\<close>

definition bufs_ok :: "pcie_state \<Rightarrow> bool" where
  "bufs_ok s \<longleftrightarrow> (\<forall>i. compact (lk_buffer (lnk s i)))"

lemma bufs_okI:
  assumes "lnk s' (\<not> i) = lnk s (\<not> i)" "compact (lk_buffer (lnk s' i))" "bufs_ok s"
  shows "bufs_ok s'"
  unfolding bufs_ok_def
proof
  fix j
  have "j = i \<or> j = (\<not> i)" by auto
  then show "compact (lk_buffer (lnk s' j))" using assms by (auto simp: bufs_ok_def)
qed

lemma bufs_quiet: "quiet i s s' \<Longrightarrow> bufs_ok s \<Longrightarrow> bufs_ok s'"
  by (rule bufs_okI [of s' i s]) (simp_all add: quiet_def frame_def bufs_ok_def)

lemma receive_bufs:
  assumes "linkReceiveInterface i p ok reqs resps s = Inr s'" "bufs_ok s"
  shows "bufs_ok s' \<and> lnk s' (\<not> i) = lnk s (\<not> i)"
proof -
  obtain o' where o': "heap s p = Some o'" using assms(1) by (auto simp: linkReceiveInterface_def deref_def res_simps split: option.splits)
  have "(\<exists>pkt. return_ack i (upd i (\<lambda>l. l\<lparr>recvSeqNum := recvSeqNum l + 1, delivered := delivered l @ [pkt]\<rparr>) s) = Inr s') \<or>
      s' = s \<or> return_ack i s = Inr s' \<or> (\<exists>k. recv_ack i p k reqs resps s = Inr s')"
    using assms(1) o' by (auto simp: linkReceiveInterface_def deref_def split: if_splits option.splits)
  then show ?thesis
  proof (elim disjE exE conjE)
    fix pkt
    let ?s = "upd i (\<lambda>l. l\<lparr>recvSeqNum := recvSeqNum l + 1, delivered := delivered l @ [pkt]\<rparr>) s"
    assume f: "return_ack i ?s = Inr s'"
    have "quiet i s ?s" by (rule quiet_upd) simp
    then have "quiet i s s'" using quiet_return_ack [OF f] quiet_trans by blast
    from bufs_quiet [OF this assms(2)] this show ?thesis by (simp add: quiet_def frame_def)
  next
    fix k assume "recv_ack i p k reqs resps s = Inr s'"
    from recv_ack_effect [OF this] assms(2) show ?thesis using bufs_okI [of s' i s] by (simp add: bufs_ok_def)
  next
    assume "return_ack i s = Inr s'"
    from bufs_quiet [OF quiet_return_ack [OF this] assms(2)] quiet_return_ack [OF this] show ?thesis
      by (simp add: quiet_def frame_def)
  qed (use assms(2) in simp)
qed

text \<open>What follows the hand-over in \<^verbatim>\<open>txDone\<close> touches only the link itself.\<close>

lemma first_frame:
  assumes "tx_first i p env s = Inr s'"
  shows "frame i s s' \<and> (bufs_ok s \<longrightarrow> bufs_ok s')"
proof (cases "replayPacket (lnk s i) = Some p")
  case True
  let ?s = "upd i (\<lambda>l. l\<lparr>lk_buffer := rb_pushBack (maxQueueSize l) p (lk_buffer l), replayPacket := None\<rparr>) s"
  obtain s1 where s1: "sched_timeout i ?s = Inr s1" "send_retries i (env_reqs env 1) (env_resps env 1) s1 = Inr s'"
    using assms True by (auto simp: tx_first_def res_simps)
  have q: "quiet i ?s s'" using quiet_sched_timeout [OF s1(1)] quiet_send_retries [OF s1(2)] quiet_trans by blast
  have "bufs_ok ?s" if "bufs_ok s" by (rule bufs_okI [of _ i s]) (use that in \<open>simp_all add: bufs_ok_def compact_push\<close>)
  moreover have "frame i ?s s'" using q by (simp add: quiet_def)
  moreover note frame_trans [OF frame_upd this]
  ultimately show ?thesis using bufs_quiet [OF q] by blast
qed (use assms in \<open>simp add: tx_first_def frame_def\<close>)

lemma rest_of_txDone:
  assumes "sbind (tx_pending_ack i (upd i (\<lambda>l. l\<lparr>lk_packet := None\<rparr>) s)) (\<lambda>(flag, s).
     if \<not> flag then Inr s else sbind (tx_first i p env s) (tx_retransmit i env)) = Inr s'"
  shows "frame i s s' \<and> (bufs_ok s \<longrightarrow> bufs_ok s')"
proof -
  let ?s = "upd i (\<lambda>l. l\<lparr>lk_packet := None\<rparr>) s"
  obtain flag s1 where s1: "tx_pending_ack i ?s = Inr (flag, s1)"
    "(if \<not> flag then Inr s1 else sbind (tx_first i p env s1) (tx_retransmit i env)) = Inr s'"
    using assms by (auto simp: res_simps)
  have "quiet i s ?s" by (rule quiet_upd) simp
  then have q: "quiet i s s1" using quiet_pending_ack [OF s1(1)] quiet_trans by blast
  have "frame i s1 s' \<and> (bufs_ok s1 \<longrightarrow> bufs_ok s')"
  proof (cases flag)
    case True
    then obtain s2 where s2: "tx_first i p env s1 = Inr s2" "tx_retransmit i env s2 = Inr s'" using s1(2) by (auto simp: res_simps)
    show ?thesis using first_frame [OF s2(1)] quiet_retransmit [OF s2(2)] bufs_quiet frame_trans unfolding quiet_def by blast
  qed (use s1(2) in \<open>simp add: frame_def\<close>)
  then show ?thesis using q bufs_quiet [OF q] frame_trans unfolding quiet_def by blast
qed

lemma hand_over_bufs:
  assumes "tx_hand_over i p env s = Inr s'" "bufs_ok s"
  shows "bufs_ok s'"
proof (cases "linkDelay (lnk s i) > 0")
  case True
  let ?s = "upd i (\<lambda>l. l\<lparr>txQueue := txQueue l @ [(curTick s + linkDelay l, p)]\<rparr>) s"
  have "s' = ?s \<or> (\<exists>t. s' = upd i (\<lambda>l. l\<lparr>txQueueEvent := Some t\<rparr>) ?s)"
    using assms(1) True by (auto simp: tx_hand_over_def Let_def res_simps split: if_splits)
  moreover have "quiet i s ?s" "quiet i ?s (upd i (\<lambda>l. l\<lparr>txQueueEvent := Some t\<rparr>) ?s)" for t by (rule quiet_upd, simp)+
  ultimately have "quiet i s s'" using quiet_trans by blast
  then show ?thesis using bufs_quiet assms(2) by blast
next
  case False
  then have "txComplete i p (env_ok env) (env_reqs env 0) (env_resps env 0) s = Inr s'"
    using assms(1) by (auto simp: tx_hand_over_def res_simps)
  then show ?thesis using receive_bufs assms(2) unfolding txComplete_def by blast
qed

lemma txDone_parts:
  assumes "txDone i env s = Inr s'"
  obtains p s1 where "lk_packet (lnk s i) = Some p" "tx_hand_over i p env s = Inr s1" "frame i s1 s'" "bufs_ok s1 \<Longrightarrow> bufs_ok s'"
proof -
  obtain p where p: "lk_packet (lnk s i) = Some p" using assms by (cases "lk_packet (lnk s i)") (simp_all add: txDone_def)
  then obtain s1 where s1: "tx_hand_over i p env s = Inr s1" and
    r: "sbind (tx_pending_ack i (upd i (\<lambda>l. l\<lparr>lk_packet := None\<rparr>) s1)) (\<lambda>(flag, s).
       if \<not> flag then Inr s else sbind (tx_first i p env s) (tx_retransmit i env)) = Inr s'"
    using assms by (auto simp: txDone_def sbind_Inr_iff)
  from that [OF p s1] rest_of_txDone [OF r] show thesis by blast
qed

lemma processTxQueue_parts:
  assumes "processTxQueue i env s = Inr s'"
  obtains t p q s1 where "txQueue (lnk s i) = (t, p) # q" "quiet i s s1" "heap s1 = heap s" "next_ptr s1 = next_ptr s"
    "txComplete i p (env_ok env) (env_reqs env 0) (env_resps env 0) s1 = Inr s'"
proof -
  obtain t p q where tq: "txQueue (lnk s i) = (t, p) # q" using assms
    by (cases "txQueue (lnk s i)") (auto simp: processTxQueue_def)
  let ?s = "upd i (\<lambda>l. l\<lparr>txQueue := q\<rparr>) s"
  obtain s1 where c: "txComplete i p (env_ok env) (env_reqs env 0) (env_resps env 0) s1 = Inr s'"
    and r: "(case q of [] \<Rightarrow> Inr ?s | (t', _) # _ \<Rightarrow> sbind (sassert (t' > curTick ?s)) (\<lambda>_.
      sbind (sched_ok (txQueueEvent (lnk ?s i)) t' ?s) (\<lambda>_. Inr (upd i (\<lambda>l. l\<lparr>txQueueEvent := Some t'\<rparr>) ?s)))) = Inr s1"
    using assms tq by (auto simp: processTxQueue_def Let_def sbind_Inr_iff)
  then have s1: "s1 = ?s \<or> (\<exists>t. s1 = upd i (\<lambda>l. l\<lparr>txQueueEvent := Some t\<rparr>) ?s)"
    by (cases q) (auto simp: res_simps)
  have "quiet i s ?s" "quiet i ?s (upd i (\<lambda>l. l\<lparr>txQueueEvent := Some t\<rparr>) ?s)" for t by (rule quiet_upd, simp)+
  then have "quiet i s s1" using s1 quiet_trans by blast
  moreover have "heap s1 = heap s" "next_ptr s1 = next_ptr s" using s1 by auto
  ultimately show thesis using that tq c by blast
qed

lemma step_bufs: "pcie_step s s' \<Longrightarrow> bufs_ok s \<Longrightarrow> bufs_ok s'"
proof (induction rule: pcie_step.induct)
  case (step_done s i t env s')
  have "bufs_ok (upd i (\<lambda>l. l\<lparr>doneEvent := None\<rparr>) (s\<lparr>curTick := t\<rparr>))" using step_done.prems by (simp add: bufs_ok_def)
  from txDone_parts [OF step_done.hyps(3)] hand_over_bufs [OF _ this] show ?case by metis
next
  case (step_tx_queue s i t env s')
  have b: "bufs_ok (upd i (\<lambda>l. l\<lparr>txQueueEvent := None\<rparr>) (s\<lparr>curTick := t\<rparr>))" using step_tx_queue.prems by (simp add: bufs_ok_def)
  from processTxQueue_parts [OF step_tx_queue.hyps(3)] bufs_quiet [OF _ b] receive_bufs show ?case unfolding txComplete_def by metis
next
  case (step_timeout s i t s')
  then show ?case using bufs_quiet [OF quiet_timeoutFunc [OF step_timeout.hyps(3)]] by (simp add: bufs_ok_def)
next
  case (step_ack s i t s')
  then show ?case using bufs_quiet [OF quiet_sendAck [OF step_ack.hyps(3)]] by (simp add: bufs_ok_def)
next
  case (step_offer s t i pkt master b s')
  then show ?case using bufs_quiet [OF quiet_linkTransmitInterface [OF step_offer.hyps(3)]] by (simp add: bufs_ok_def)
qed

lemma reach_bufs: "pcie_reach (PCIELink_new (Link_new time delay delay_var n retry_time) r) s \<Longrightarrow> bufs_ok s"
  by (induction rule: pcie_reach.induct)
    (simp_all add: bufs_ok_def PCIELink_new_def Link_new_def compact_new, simp add: step_bufs flip: bufs_ok_def)

section \<open>Arrivals\<close>

text \<open>A step in which the packet \<^verbatim>\<open>p\<close> that link \<^verbatim>\<open>i\<close> has sent reaches the other end, at once or after the delay of the link.\<close>

inductive arrival :: "bool \<Rightarrow> ptr \<Rightarrow> pcie_state \<Rightarrow> pcie_state \<Rightarrow> bool" where
  at_once: "doneEvent (lnk s i) = Some t \<Longrightarrow> no_earlier s t \<Longrightarrow> linkDelay (lnk s i) = 0 \<Longrightarrow> lk_packet (lnk s i) = Some p \<Longrightarrow>
    txDone i env (upd i (\<lambda>l. l\<lparr>doneEvent := None\<rparr>) (s\<lparr>curTick := t\<rparr>)) = Inr s' \<Longrightarrow> arrival i p s s'"
| delayed: "txQueueEvent (lnk s i) = Some t \<Longrightarrow> no_earlier s t \<Longrightarrow> txQueue (lnk s i) = (u, p) # q \<Longrightarrow>
    processTxQueue i env (upd i (\<lambda>l. l\<lparr>txQueueEvent := None\<rparr>) (s\<lparr>curTick := t\<rparr>)) = Inr s' \<Longrightarrow> arrival i p s s'"

lemma arrival_step: "arrival i p s s' \<Longrightarrow> pcie_step s s'"
  by (induction rule: arrival.induct) (auto intro: step_done step_tx_queue)

lemma fire_done_arrival:
  "fire_done i env s = Inr s' \<Longrightarrow> lk_packet (lnk s i) = Some p \<Longrightarrow> linkDelay (lnk s i) = 0 \<Longrightarrow> arrival i p s s'"
  by (auto simp: fire_done_def intro: at_once split: option.splits if_splits)

lemma arrival_receive:
  assumes "arrival i p s s'"
  shows "\<exists>ok reqs resps s1 s2. linkReceiveInterface (\<not> i) p ok reqs resps s1 = Inr s2 \<and> heap s1 = heap s \<and> next_ptr s1 = next_ptr s \<and>
    lnk s1 (\<not> i) = lnk s (\<not> i) \<and> frame i s2 s'"
  using assms
proof (induction rule: arrival.induct)
  case (at_once s i t p env s')
  let ?s = "upd i (\<lambda>l. l\<lparr>doneEvent := None\<rparr>) (s\<lparr>curTick := t\<rparr>)"
  obtain q s2 where "lk_packet (lnk ?s i) = Some q" and h: "tx_hand_over i q env ?s = Inr s2" "frame i s2 s'"
    using txDone_parts [OF at_once.hyps(5)] by metis
  then have "q = p" using at_once.hyps(4) by simp
  then have "linkReceiveInterface (\<not> i) p (env_ok env) (env_reqs env 0) (env_resps env 0) ?s = Inr s2"
    using h(1) at_once.hyps(3) by (simp add: tx_hand_over_def txComplete_def res_simps)
  then show ?case using h(2)
    by (intro exI [of _ "env_ok env"] exI [of _ "env_reqs env 0"] exI [of _ "env_resps env 0"] exI [of _ ?s] exI [of _ s2]) simp
next
  case (delayed s i t u p q env s')
  let ?s = "upd i (\<lambda>l. l\<lparr>txQueueEvent := None\<rparr>) (s\<lparr>curTick := t\<rparr>)"
  obtain u' p' q' s1 where r: "txQueue (lnk ?s i) = (u', p') # q'" "quiet i ?s s1" "heap s1 = heap ?s" "next_ptr s1 = next_ptr ?s"
    "txComplete i p' (env_ok env) (env_reqs env 0) (env_resps env 0) s1 = Inr s'"
    using processTxQueue_parts [OF delayed.hyps(4)] by metis
  have "p' = p" using r(1) delayed.hyps(3) by simp
  then show ?case using r(2-5) unfolding txComplete_def
    by (intro exI [of _ "env_ok env"] exI [of _ "env_reqs env 0"] exI [of _ "env_resps env 0"] exI [of _ s1] exI [of _ s'])
      (auto simp: quiet_def frame_def)
qed

lemma acknowledgement_effect:
  assumes "pcie_reach (PCIELink_new (Link_new time delay delay_var n retry_time) r) s" "arrival i p s s'"
    "heap s p = Some x" "\<not> lp_isTLP x" "lp_isDLLP x" "lp_dllp x = Some k"
  shows "held (lk_buffer (lnk s' (\<not> i))) = dropWhile (\<lambda>q. lp_seqNum (the (heap s q)) \<le> k) (held (lk_buffer (lnk s (\<not> i))))"
proof -
  from arrival_receive [OF assms(2)] obtain ok reqs resps s1 s2 where
    h: "linkReceiveInterface (\<not> i) p ok reqs resps s1 = Inr s2" "heap s1 = heap s" "lnk s1 (\<not> i) = lnk s (\<not> i)" "frame i s2 s'"
    by blast
  have "recv_ack (\<not> i) p k reqs resps s1 = Inr s2" using h(1,2) assms(3-6) by (simp add: linkReceiveInterface_def deref_def)
  moreover have "compact (lk_buffer (lnk s1 (\<not> i)))" using reach_bufs [OF assms(1)] h(3) by (simp add: bufs_ok_def)
  ultimately show ?thesis using recv_ack_effect [of "\<not> i" p k reqs resps s1 s2] h(2-4) by (simp add: frame_def)
qed

section \<open>Properties\<close>

text \<open>
  C25: The effect of an acknowledgement.  In every reachable state, when an acknowledgement with number \<^verbatim>\<open>k\<close> reaches the
  other end of a link, the packets that leave the replay buffer there are exactly those from its front with a sequence
  number of at most \<^verbatim>\<open>k\<close>; the others stay, in their order, whatever else the step does.
\<close>

theorem acknowledgement_exact:
  assumes "pcie_reach (PCIELink_new (Link_new time delay delay_var n retry_time) r) s" "arrival i p s s'"
    "heap s p = Some x" "\<not> lp_isTLP x" "lp_isDLLP x" "lp_dllp x = Some k"
  shows "held (lk_buffer (lnk s' (\<not> i))) = dropWhile (\<lambda>q. lp_seqNum (the (heap s q)) \<le> k) (held (lk_buffer (lnk s (\<not> i))))"
  using assms by (rule acknowledgement_effect)

lemma ack_number_wraps: "DataLinkPacket_new (0 - 1) = - 1"
  by code_simp

lemma return_ack_idle:
  assumes "return_ack j s = Inr s'" "ackEvent (lnk s j) = None" "lk_packet (lnk s j) = None"
  shows "lk_packet (lnk s' j) = Some (next_ptr s) \<and> delivered (lnk s' j) = delivered (lnk s j) \<and> next_ptr s < next_ptr s' \<and>
    heap s' (next_ptr s) = Some (PCIELinkPacket_new\<lparr>lp_isDLLP := True, lp_dllp := Some (DataLinkPacket_new (recvSeqNum (lnk s j) - 1))\<rparr>)"
  using assms by (auto simp: return_ack_def new_ptr_def transmit_def Let_def res_simps)

lemma receive_out_of_order:
  assumes "arrival i p s s'" "heap s p = Some x" "lp_isTLP x" "lp_seqNum x \<noteq> recvSeqNum (lnk s (\<not> i))"
    "ackEvent (lnk s (\<not> i)) = None" "lk_packet (lnk s (\<not> i)) = None"
  shows "lk_packet (lnk s' (\<not> i)) = Some (next_ptr s) \<and> delivered (lnk s' (\<not> i)) = delivered (lnk s (\<not> i)) \<and>
    heap s' (next_ptr s) = Some (PCIELinkPacket_new\<lparr>lp_isDLLP := True, lp_dllp := Some (DataLinkPacket_new (recvSeqNum (lnk s (\<not> i)) - 1))\<rparr>)"
proof -
  from arrival_receive [OF assms(1)] obtain ok reqs resps s1 s2 where
    h: "linkReceiveInterface (\<not> i) p ok reqs resps s1 = Inr s2" "heap s1 = heap s" "next_ptr s1 = next_ptr s"
      "lnk s1 (\<not> i) = lnk s (\<not> i)" "frame i s2 s'"
    by blast
  have "return_ack (\<not> i) s1 = Inr s2" using h(1,2,4) assms(2-4) by (simp add: linkReceiveInterface_def deref_def)
  from return_ack_idle [OF this] assms(5,6) h(3-5) show ?thesis by (auto simp: frame_def)
qed

text \<open>
  C26: An acknowledgement can lose packets.  When nothing was delivered at one end yet and a packet other than the first
  arrives there, because the first one was refused, the acknowledgement sent back carries \<^verbatim>\<open>recvSeqNum - 1\<close>, which wraps to the
  greatest number.  Whenever it arrives, it removes every packet from the replay buffer of the sender, although none
  of them was delivered when it was sent.
\<close>

theorem ack_underflow_loses_packets:
  assumes "pcie_reach (PCIELink_new (Link_new time delay delay_var n retry_time) r) s" "arrival i p s s'"
    "heap s p = Some x" "lp_isTLP x" "lp_seqNum x \<noteq> 0" "delivered (lnk s (\<not> i)) = []"
    "ackEvent (lnk s (\<not> i)) = None" "lk_packet (lnk s (\<not> i)) = None"
  shows "\<exists>a y. lk_packet (lnk s' (\<not> i)) = Some a \<and> heap s' a = Some y \<and> lp_dllp y = Some (2 ^ 64 - 1) \<and> delivered (lnk s' (\<not> i)) = [] \<and>
    (\<forall>s2 s3. pcie_reach (PCIELink_new (Link_new time delay delay_var n retry_time) r) s2 \<and> heap s2 a = Some y \<and> arrival (\<not> i) a s2 s3 \<longrightarrow>
      held (lk_buffer (lnk s3 i)) = [])"
proof -
  have "recvSeqNum (lnk s (\<not> i)) = 0"
    using reach_inv [OF assms(1) PCIELink_new_inv] assms(6) by (simp add: pcie_inv_def link_inv_def)
  moreover from this have "DataLinkPacket_new (recvSeqNum (lnk s (\<not> i)) - 1) = - 1" using ack_number_wraps by simp
  ultimately have h: "lk_packet (lnk s' (\<not> i)) = Some (next_ptr s)" "delivered (lnk s' (\<not> i)) = []"
    "heap s' (next_ptr s) = Some (PCIELinkPacket_new\<lparr>lp_isDLLP := True, lp_dllp := Some (- 1)\<rparr>)"
    using receive_out_of_order [OF assms(2-4)] assms(5-8) by simp_all
  have all: "dropWhile (\<lambda>q. lp_seqNum (f q) \<le> - 1) l = []" for f :: "ptr \<Rightarrow> link_packet" and l
    by (simp add: dropWhile_eq_Nil_conv)
  have "held (lk_buffer (lnk s3 i)) = []"
    if "pcie_reach (PCIELink_new (Link_new time delay delay_var n retry_time) r) s2"
      "heap s2 (next_ptr s) = Some (PCIELinkPacket_new\<lparr>lp_isDLLP := True, lp_dllp := Some (- 1)\<rparr>)" "arrival (\<not> i) (next_ptr s) s2 s3" for s2 s3
    using acknowledgement_effect [OF that(1,3,2)] all by (simp add: PCIELinkPacket_new_def)
  then show ?thesis using h by (intro exI [of _ "next_ptr s"] exI conjI) (auto simp: PCIELinkPacket_new_def)
qed

text \<open>
  A run for both: the receiver refuses the first of two packets, the second one arrives, and so does its acknowledgement.
\<close>

lemma refused_run:
  "\<exists>s3 s4 s p x. pcie_reach sample_link s3 \<and> arrival False p s3 s4 \<and> heap s3 p = Some x \<and> lp_isTLP x \<and> lp_seqNum x \<noteq> 0 \<and>
     delivered (lnk s3 True) = [] \<and> ackEvent (lnk s3 True) = None \<and> lk_packet (lnk s3 True) = None \<and>
     pcie_reach sample_link s4 \<and> (\<forall>a. lk_packet (lnk s4 True) = Some a \<longrightarrow> arrival True a s4 s) \<and>
     length (accepted (lnk s4 False)) = 2 \<and> length (held (lk_buffer (lnk s4 False))) = 2"
proof -
  let ?p = "data_packet ReadReq 0x100 [0]" and ?q = "data_packet ReadReq 0x200 [0]"
  let ?run3 = "sbind (offer False ?p sample_link) (\<lambda>s. sbind (fire_done False (sample_env False) s) (offer False ?q))"
  let ?obs3 = "\<lambda>s. case lk_packet (lnk s False) of None \<Rightarrow> False | Some p \<Rightarrow>
     (case heap s p of None \<Rightarrow> False | Some x \<Rightarrow> lp_isTLP x \<and> lp_seqNum x \<noteq> 0 \<and> linkDelay (lnk s False) = 0 \<and>
       length (delivered (lnk s True)) = 0 \<and> ackEvent (lnk s True) = None \<and> lk_packet (lnk s True) = None)"
  let ?obs4 = "\<lambda>s. linkDelay (lnk s True) = 0 \<and> length (accepted (lnk s False)) = 2 \<and> length (held (lk_buffer (lnk s False))) = 2"
  have "case ?run3 of Inl _ \<Rightarrow> False | Inr s3 \<Rightarrow> ?obs3 s3 \<and>
     (case fire_done False (sample_env True) s3 of Inl _ \<Rightarrow> False | Inr s4 \<Rightarrow> ?obs4 s4 \<and> is_ok (fire_done True (sample_env True) s4))"
    by code_simp
  then obtain s3 s4 s where r: "?run3 = Inr s3" "fire_done False (sample_env True) s3 = Inr s4" "fire_done True (sample_env True) s4 = Inr s"
    and o: "?obs3 s3" "?obs4 s4" by (auto simp: is_ok_def split: sum.splits)
  obtain s1 s2 where s: "offer False ?p sample_link = Inr s1" "fire_done False (sample_env False) s1 = Inr s2" "offer False ?q s2 = Inr s3"
    using r(1) by (auto simp only: sbind_Inr_iff)
  have r3: "pcie_reach sample_link s3" by (rule reach_offer [OF reach_fire [OF reach_offer [OF reach_init s(1)] s(2)] s(3)])
  have r4: "pcie_reach sample_link s4" by (rule reach_fire [OF r3 r(2)])
  obtain p x where p: "lk_packet (lnk s3 False) = Some p" "heap s3 p = Some x" "lp_isTLP x" "lp_seqNum x \<noteq> 0" "linkDelay (lnk s3 False) = 0"
    "delivered (lnk s3 True) = []" "ackEvent (lnk s3 True) = None" "lk_packet (lnk s3 True) = None"
    using o(1) by (auto split: option.splits)
  show ?thesis using r3 r4 p o(2) fire_done_arrival [OF r(2) p(1,5)] fire_done_arrival [OF r(3)] by blast
qed

theorem acknowledgement_exact_witness:
  "\<exists>s s' p k. pcie_reach sample_link s \<and> arrival True p s s' \<and> length (held (lk_buffer (lnk s False))) = 2 \<and>
     held (lk_buffer (lnk s' False)) = dropWhile (\<lambda>q. lp_seqNum (the (heap s q)) \<le> k) (held (lk_buffer (lnk s False)))"
proof -
  obtain s3 s4 s p x where h: "pcie_reach sample_link s3" "arrival False p s3 s4" "heap s3 p = Some x" "lp_isTLP x" "lp_seqNum x \<noteq> 0"
    "delivered (lnk s3 True) = []" "ackEvent (lnk s3 True) = None" "lk_packet (lnk s3 True) = None"
    "pcie_reach sample_link s4" "\<forall>a. lk_packet (lnk s4 True) = Some a \<longrightarrow> arrival True a s4 s"
    "length (held (lk_buffer (lnk s4 False))) = 2" using refused_run by blast
  have "recvSeqNum (lnk s3 True) = 0" using reach_inv [OF h(1) sample_link_inv] h(6) by (simp add: pcie_inv_def link_inv_def)
  with receive_out_of_order [OF h(2-4)] h(5,7,8) obtain y where y: "arrival True (next_ptr s3) s4 s" "heap s4 (next_ptr s3) = Some y"
    "\<not> lp_isTLP y" "lp_isDLLP y" "lp_dllp y = Some (DataLinkPacket_new (0 - 1))"
    using h(10) by (auto simp: PCIELinkPacket_new_def)
  from acknowledgement_exact [OF h(9) [unfolded sample_link_def] y] y(1) h(9,11) show ?thesis by auto
qed

theorem ack_underflow_loses_packets_witness:
  "\<exists>s s'. pcie_reach sample_link s \<and> pcie_step s s' \<and> length (accepted (lnk s False)) = 2 \<and> delivered (lnk s True) = [] \<and>
     length (held (lk_buffer (lnk s False))) = 2 \<and> held (lk_buffer (lnk s' False)) = []"
proof -
  obtain s3 s4 s p x where h: "pcie_reach sample_link s3" "arrival False p s3 s4" "heap s3 p = Some x" "lp_isTLP x" "lp_seqNum x \<noteq> 0"
    "delivered (lnk s3 True) = []" "ackEvent (lnk s3 True) = None" "lk_packet (lnk s3 True) = None"
    "pcie_reach sample_link s4" "\<forall>a. lk_packet (lnk s4 True) = Some a \<longrightarrow> arrival True a s4 s"
    "length (accepted (lnk s4 False)) = 2" "length (held (lk_buffer (lnk s4 False))) = 2" using refused_run by blast
  from ack_underflow_loses_packets [OF h(1) [unfolded sample_link_def] h(2-5)] h(6-8)
  obtain a y where a: "lk_packet (lnk s4 True) = Some a" "heap s4 a = Some y" "delivered (lnk s4 True) = []"
    "\<forall>s2 s3. pcie_reach sample_link s2 \<and> heap s2 a = Some y \<and> arrival True a s2 s3 \<longrightarrow> held (lk_buffer (lnk s3 False)) = []"
    by (auto simp: sample_link_def)
  have "arrival True a s4 s" using h(10) a(1) by blast
  then show ?thesis using a h(9,11,12) arrival_step by blast
qed

end
