(* ===== verification/Event_Queue.thy ===== *)
theory Event_Queue
  imports Request "HOL-Library.Product_Lexorder"
begin

text \<open>
  Model of the event queue (\<^verbatim>\<open>src/gem5/src/sim/eventq.hh\<close>, \<^verbatim>\<open>sim/eventq.cc\<close>): a linked list of bins,
  one for each time and priority, each bin a stack of events linked through its own pointer.  Events
  live in a store indexed by pointers; only the \<^verbatim>\<open>nextBin\<close> pointer of the top of a bin is current, the
  others may be stale.  The loops over the pointers return \<^term>\<open>None\<close> when they do not end.
\<close>

section \<open>Events\<close>

abbreviation (input) EV_PublicWrite :: u16 where "EV_PublicWrite \<equiv> 0x001d"
abbreviation (input) EV_Squashed :: u16 where "EV_Squashed \<equiv> 0x0001"
abbreviation (input) EV_Scheduled :: u16 where "EV_Scheduled \<equiv> 0x0002"
abbreviation (input) EV_Managed :: u16 where "EV_Managed \<equiv> 0x0004"
abbreviation (input) EV_IsExitEvent :: u16 where "EV_IsExitEvent \<equiv> 0x0010"
abbreviation (input) EV_IsMainQueue :: u16 where "EV_IsMainQueue \<equiv> 0x0020"
abbreviation (input) EV_Initialized :: u16 where "EV_Initialized \<equiv> 0x7a40"
abbreviation (input) EV_InitMask :: u16 where "EV_InitMask \<equiv> 0xffc0"

type_synonym eptr = nat

record event =
  nextBin :: "eptr option"
  nextInBin :: "eptr option"
  ev_when :: tick
  ev_priority :: "8 word"
  ev_flags :: u16
  ev_live :: bool

type_synonym ev_mem = "eptr \<Rightarrow> event"

record event_queue =
  ev_mem :: ev_mem
  eq_head :: "eptr option"
  eq_curTick :: tick
  async_queue :: "eptr list"

definition Event_new :: "8 word \<Rightarrow> u16 \<Rightarrow> event res" where
  "Event_new p f =
     (if noneSet f (NOT EV_PublicWrite)
      then Inr \<lparr>nextBin = None, nextInBin = None, ev_when = 0, ev_priority = p, ev_flags = EV_Initialized OR f, ev_live = True\<rparr>
      else Inl Assert_Failed)"

definition EventQueue_new :: "ev_mem \<Rightarrow> event_queue" where
  "EventQueue_new m = \<lparr>ev_mem = m, eq_head = None, eq_curTick = 0, async_queue = []\<rparr>"

definition initialized :: "event \<Rightarrow> bool" where
  "initialized e \<longleftrightarrow> ev_flags e AND EV_InitMask = EV_Initialized"

definition scheduled :: "event \<Rightarrow> bool" where
  "scheduled e \<longleftrightarrow> isSet (ev_flags e) EV_Scheduled"

definition squashed :: "event \<Rightarrow> bool" where
  "squashed e \<longleftrightarrow> isSet (ev_flags e) EV_Squashed"

definition squash :: "event \<Rightarrow> event" where
  "squash e = e\<lparr>ev_flags := setFlags (ev_flags e) EV_Squashed\<rparr>"

definition isExitEvent :: "event \<Rightarrow> bool" where
  "isExitEvent e \<longleftrightarrow> isSet (ev_flags e) EV_IsExitEvent"

definition isManaged :: "event \<Rightarrow> bool" where
  "isManaged e \<longleftrightarrow> isSet (ev_flags e) EV_Managed"

text \<open>The comparison operators; priorities are signed bytes.\<close>

definition ev_less :: "event \<Rightarrow> event \<Rightarrow> bool" where
  "ev_less l r \<longleftrightarrow> ev_when l < ev_when r \<or> ev_when l = ev_when r \<and> sint (ev_priority l) < sint (ev_priority r)"

definition ev_le :: "event \<Rightarrow> event \<Rightarrow> bool" where
  "ev_le l r \<longleftrightarrow> ev_when l < ev_when r \<or> ev_when l = ev_when r \<and> sint (ev_priority l) \<le> sint (ev_priority r)"

definition ev_eq :: "event \<Rightarrow> event \<Rightarrow> bool" where
  "ev_eq l r \<longleftrightarrow> ev_when l = ev_when r \<and> ev_priority l = ev_priority r"

section \<open>The pointer structure\<close>

definition insertBefore :: "eptr \<Rightarrow> eptr option \<Rightarrow> ev_mem \<Rightarrow> ev_mem" where
  "insertBefore e cur m =
     (case cur of
        None \<Rightarrow> m(e := (m e)\<lparr>nextBin := None, nextInBin := None\<rparr>)
      | Some c \<Rightarrow>
          if ev_less (m e) (m c) then m(e := (m e)\<lparr>nextBin := Some c, nextInBin := None\<rparr>)
          else m(e := (m e)\<lparr>nextBin := nextBin (m c), nextInBin := Some c\<rparr>))"

text \<open>The loop that walks the bins, with the previous and the current top.\<close>

partial_function (option) find_bin :: "ev_mem \<Rightarrow> eptr \<Rightarrow> eptr \<Rightarrow> eptr option \<Rightarrow> (eptr \<times> eptr option) option" where
  "find_bin m e prev cur =
     (case cur of
        None \<Rightarrow> Some (prev, None)
      | Some c \<Rightarrow> if ev_less (m c) (m e) then find_bin m e c (nextBin (m c)) else Some (prev, cur))"

definition set_nextBin :: "eptr \<Rightarrow> eptr option \<Rightarrow> ev_mem \<Rightarrow> ev_mem" where
  "set_nextBin p b m = m(p := (m p)\<lparr>nextBin := b\<rparr>)"

definition set_nextInBin :: "eptr \<Rightarrow> eptr option \<Rightarrow> ev_mem \<Rightarrow> ev_mem" where
  "set_nextInBin p b m = m(p := (m p)\<lparr>nextInBin := b\<rparr>)"

definition eq_insert :: "eptr \<Rightarrow> event_queue \<Rightarrow> event_queue option" where
  "eq_insert e q =
     (let m = ev_mem q in
      case eq_head q of
        None \<Rightarrow> Some (q\<lparr>ev_mem := insertBefore e None m, eq_head := Some e\<rparr>)
      | Some h \<Rightarrow>
          if ev_le (m e) (m h) then Some (q\<lparr>ev_mem := insertBefore e (Some h) m, eq_head := Some e\<rparr>)
          else case find_bin m e h (nextBin (m h)) of
            None \<Rightarrow> None
          | Some (prev, cur) \<Rightarrow> Some (q\<lparr>ev_mem := set_nextBin prev (Some e) (insertBefore e cur m)\<rparr>))"

partial_function (option) find_in_bin :: "ev_mem \<Rightarrow> eptr \<Rightarrow> eptr \<Rightarrow> eptr option \<Rightarrow> eptr res option" where
  "find_in_bin m e cur nxt =
     (if nxt = Some e then Some (Inr cur)
      else if nxt = None then Some (Inl Panic)
      else find_in_bin m e (the nxt) (nextInBin (m (the nxt))))"

text \<open>Operations that can stop or not return.\<close>

definition rbind :: "'a res option \<Rightarrow> ('a \<Rightarrow> 'b res option) \<Rightarrow> 'b res option" where
  "rbind x f = (case x of None \<Rightarrow> None | Some (Inl err) \<Rightarrow> Some (Inl err) | Some (Inr y) \<Rightarrow> f y)"

definition rassert :: "bool \<Rightarrow> unit res option" where
  "rassert b = Some (sassert b)"

definition lift_run :: "'a option \<Rightarrow> 'a res option" where
  "lift_run x = map_option Inr x"

definition removeItem :: "eptr \<Rightarrow> eptr \<Rightarrow> ev_mem \<Rightarrow> (eptr option \<times> ev_mem) res option" where
  "removeItem e tp m =
     (if e = tp then
        (case nextInBin (m tp) of
           None \<Rightarrow> Some (Inr (nextBin (m tp), m))
         | Some n \<Rightarrow> Some (Inr (Some n, set_nextBin n (nextBin (m tp)) m)))
      else rbind (find_in_bin m e tp (nextInBin (m tp))) (\<lambda>cur.
        Some (Inr (Some tp, set_nextInBin cur (nextInBin (m e)) m))))"

definition eq_remove :: "eptr \<Rightarrow> event_queue \<Rightarrow> event_queue res option" where
  "eq_remove e q =
     (let m = ev_mem q in
      case eq_head q of
        None \<Rightarrow> Some (Inl Panic)
      | Some h \<Rightarrow>
          if ev_eq (m h) (m e) then
            rbind (removeItem e h m) (\<lambda>(p, m). Some (Inr (q\<lparr>eq_head := p, ev_mem := m\<rparr>)))
          else rbind (lift_run (find_bin m e h (nextBin (m h)))) (\<lambda>(prev, cur).
            case cur of
              None \<Rightarrow> Some (Inl Panic)
            | Some c \<Rightarrow>
                if \<not> ev_eq (m c) (m e) then Some (Inl Panic)
                else rbind (removeItem e c m) (\<lambda>(p, m). Some (Inr (q\<lparr>ev_mem := set_nextBin prev p m\<rparr>)))))"

section \<open>Operations\<close>

definition upd_flags :: "eptr \<Rightarrow> (u16 \<Rightarrow> u16) \<Rightarrow> event_queue \<Rightarrow> event_queue" where
  "upd_flags e f q = q\<lparr>ev_mem := (ev_mem q)(e := (ev_mem q e)\<lparr>ev_flags := f (ev_flags (ev_mem q e))\<rparr>)\<rparr>"

definition setWhen :: "eptr \<Rightarrow> tick \<Rightarrow> event_queue \<Rightarrow> event_queue" where
  "setWhen e t q = q\<lparr>ev_mem := (ev_mem q)(e := (ev_mem q e)\<lparr>ev_when := t\<rparr>)\<rparr>"

text \<open>Managed events delete themselves when they leave the queue; acquiring one does nothing.\<close>

definition release :: "eptr \<Rightarrow> event_queue \<Rightarrow> event_queue" where
  "release e q =
     (if isManaged (ev_mem q e) \<and> \<not> scheduled (ev_mem q e)
      then q\<lparr>ev_mem := (ev_mem q)(e := (ev_mem q e)\<lparr>ev_live := False\<rparr>)\<rparr> else q)"

text \<open>An access to a deleted event is undefined.\<close>

definition alive :: "eptr \<Rightarrow> event_queue \<Rightarrow> unit res option" where
  "alive e q = Some (if ev_live (ev_mem q e) then Inr () else Inl Undefined_Behaviour)"

text \<open>In parallel mode, events for another queue and global events go to the asynchronous queue.\<close>

definition eq_schedule :: "eptr \<Rightarrow> tick \<Rightarrow> bool \<Rightarrow> event_queue \<Rightarrow> event_queue res option" where
  "eq_schedule e t async q =
     rbind (alive e q) (\<lambda>_.
     rbind (rassert (eq_curTick q \<le> t)) (\<lambda>_.
     rbind (rassert (\<not> scheduled (ev_mem q e))) (\<lambda>_.
     rbind (rassert (initialized (ev_mem q e))) (\<lambda>_.
       (let q = setWhen e t q in
        rbind (if async then Some (Inr (q\<lparr>async_queue := async_queue q @ [e]\<rparr>)) else lift_run (eq_insert e q)) (\<lambda>q.
        Some (Inr (upd_flags e (\<lambda>f. setFlags f EV_Scheduled) q))))))))"

definition eq_deschedule :: "eptr \<Rightarrow> event_queue \<Rightarrow> event_queue res option" where
  "eq_deschedule e q =
     rbind (alive e q) (\<lambda>_.
     rbind (rassert (scheduled (ev_mem q e))) (\<lambda>_.
     rbind (rassert (initialized (ev_mem q e))) (\<lambda>_.
     rbind (eq_remove e q) (\<lambda>q.
     Some (Inr (release e (upd_flags e (\<lambda>f. clearFlags (clearFlags f EV_Squashed) EV_Scheduled) q)))))))"

definition eq_reschedule :: "eptr \<Rightarrow> tick \<Rightarrow> bool \<Rightarrow> event_queue \<Rightarrow> event_queue res option" where
  "eq_reschedule e t always q =
     rbind (alive e q) (\<lambda>_.
     rbind (rassert (eq_curTick q \<le> t)) (\<lambda>_.
     rbind (rassert (always \<or> scheduled (ev_mem q e))) (\<lambda>_.
     rbind (rassert (initialized (ev_mem q e))) (\<lambda>_.
     rbind (if scheduled (ev_mem q e) then eq_remove e q else Some (Inr q)) (\<lambda>q.
     rbind (lift_run (eq_insert e (setWhen e t q))) (\<lambda>q.
     Some (Inr (upd_flags e (\<lambda>f. setFlags (clearFlags f EV_Squashed) EV_Scheduled) q))))))))"

text \<open>Taking the first event off the queue, up to the call of its action.\<close>

definition service_pop :: "event_queue \<Rightarrow> (eptr \<times> event_queue) res" where
  "service_pop q =
     (case eq_head q of
        None \<Rightarrow> Inl Undefined_Behaviour
      | Some e \<Rightarrow>
          (let q = upd_flags e (\<lambda>f. clearFlags f EV_Scheduled) q; m = ev_mem q;
               q = (case nextInBin (m e) of
                      Some n \<Rightarrow> q\<lparr>ev_mem := set_nextBin n (nextBin (m e)) m, eq_head := Some n\<rparr>
                    | None \<Rightarrow> q\<lparr>eq_head := nextBin (m e)\<rparr>)
           in Inr (e, if squashed (m e) then q else q\<lparr>eq_curTick := ev_when (m e)\<rparr>)))"

text \<open>What follows the action: the exit event is returned, every other event is released.\<close>

definition service_end :: "eptr \<Rightarrow> event_queue \<Rightarrow> (eptr option \<times> event_queue) res" where
  "service_end e q =
     (if isExitEvent (ev_mem q e) then
        sbind (sassert (\<not> isManaged (ev_mem q e) \<or> \<not> isSet (ev_flags (ev_mem q e)) EV_IsMainQueue)) (\<lambda>_. Inr (Some e, q))
      else Inr (None, release e q))"

definition serviceOne :: "(eptr \<Rightarrow> event_queue \<Rightarrow> event_queue res option) \<Rightarrow> event_queue \<Rightarrow> (eptr option \<times> event_queue) res option" where
  "serviceOne process q =
     rbind (Some (service_pop q)) (\<lambda>(e, q).
       if squashed (ev_mem q e)
       then Some (Inr (None, release e (upd_flags e (\<lambda>f. clearFlags f EV_Squashed) q)))
       else rbind (process e q) (\<lambda>q. Some (service_end e q)))"

partial_function (option) serviceEvents ::
  "(eptr \<Rightarrow> event_queue \<Rightarrow> event_queue res option) \<Rightarrow> tick \<Rightarrow> event_queue \<Rightarrow> event_queue res option" where
  "serviceEvents process t q =
     (case eq_head q of
        None \<Rightarrow> Some (Inr (q\<lparr>eq_curTick := t\<rparr>))
      | Some h \<Rightarrow>
          if t < ev_when (ev_mem q h) then Some (Inr (q\<lparr>eq_curTick := t\<rparr>))
          else case serviceOne process q of
            None \<Rightarrow> None
          | Some (Inl err) \<Rightarrow> Some (Inl err)
          | Some (Inr r) \<Rightarrow> serviceEvents process t (snd r))"

definition handleAsyncInsertions :: "event_queue \<Rightarrow> event_queue option" where
  "handleAsyncInsertions q =
     map_option (\<lambda>q. q\<lparr>async_queue := []\<rparr>)
       (fold (\<lambda>e r. Option.bind r (eq_insert e)) (async_queue q) (Some q))"

section \<open>The check of the structure\<close>

text \<open>The inner loop over one stack; it returns the last time and priority and the events seen, or nothing on a defect.\<close>

partial_function (option) verify_stack ::
  "ev_mem \<Rightarrow> eptr option \<Rightarrow> tick \<Rightarrow> int \<Rightarrow> eptr list \<Rightarrow> (tick \<times> int \<times> eptr list) option option" where
  "verify_stack m p t pr seen =
     (if p = None then Some (Some (t, pr, seen))
      else if ev_when (m (the p)) < t then Some None
      else if ev_when (m (the p)) = t \<and> sint (ev_priority (m (the p))) < pr then Some None
      else if the p \<in> set seen then Some None
      else verify_stack m (nextInBin (m (the p))) (ev_when (m (the p))) (sint (ev_priority (m (the p)))) (the p # seen))"

partial_function (option) verify_bins :: "ev_mem \<Rightarrow> eptr option \<Rightarrow> tick \<Rightarrow> int \<Rightarrow> eptr list \<Rightarrow> bool option" where
  "verify_bins m p t pr seen =
     (if p = None then Some True
      else Option.bind (verify_stack m p t pr seen) (\<lambda>r.
        if r = None then Some False
        else verify_bins m (nextBin (m (the p))) (fst (the r)) (fst (snd (the r))) (snd (snd (the r)))))"

definition debugVerify :: "event_queue \<Rightarrow> bool option" where
  "debugVerify q = verify_bins (ev_mem q) (eq_head q) 0 0 []"

section \<open>Checkpoints\<close>

record event_ckpt =
  ck_when :: tick
  ck_priority :: "8 word"
  ck_flags :: u16

definition ev_serialize :: "event \<Rightarrow> event_ckpt" where
  "ev_serialize e = \<lparr>ck_when = ev_when e, ck_priority = ev_priority e, ck_flags = ev_flags e\<rparr>"

definition ev_unserialize :: "event_ckpt \<Rightarrow> event \<Rightarrow> event res" where
  "ev_unserialize c e =
     sbind (sassert (\<not> scheduled e)) (\<lambda>_. sbind (sassert (initialized e)) (\<lambda>_.
       (let f = setFlags (ck_flags c) EV_Initialized in
        Inr (e\<lparr>ev_when := ck_when c, ev_priority := ck_priority c,
               ev_flags := (if isSet f EV_Scheduled \<and> \<not> isSet f EV_Squashed
                            then clearFlags f (EV_Squashed OR EV_Scheduled) else f)\<rparr>))))"

definition checkpointReschedule :: "eptr \<Rightarrow> event_queue \<Rightarrow> event_queue option" where
  "checkpointReschedule e q = (if isSet (ev_flags (ev_mem q e)) EV_Scheduled then eq_insert e q else Some q)"

definition unserialize_event :: "event_ckpt \<Rightarrow> eptr \<Rightarrow> event_queue \<Rightarrow> event_queue res option" where
  "unserialize_event c e q =
     rbind (Some (ev_unserialize c (ev_mem q e))) (\<lambda>v.
     lift_run (checkpointReschedule e (q\<lparr>ev_mem := (ev_mem q)(e := v)\<rparr>)))"

section \<open>Bins as lists\<close>

text \<open>A stack of events, and a sequence of bins, from one pointer to another.\<close>

fun stack :: "ev_mem \<Rightarrow> eptr option \<Rightarrow> eptr list \<Rightarrow> eptr option \<Rightarrow> bool" where
  "stack m p [] r \<longleftrightarrow> p = r"
| "stack m p (x # xs) r \<longleftrightarrow> p = Some x \<and> stack m (nextInBin (m x)) xs r"

fun segs :: "ev_mem \<Rightarrow> eptr option \<Rightarrow> eptr list list \<Rightarrow> eptr option \<Rightarrow> bool" where
  "segs m p [] r \<longleftrightarrow> p = r"
| "segs m p (b # bs) r \<longleftrightarrow> b \<noteq> [] \<and> stack m p b None \<and> segs m (nextBin (m (hd b))) bs r"

definition ev_key :: "event \<Rightarrow> tick \<times> int" where
  "ev_key e = (ev_when e, sint (ev_priority e))"

definition bkey :: "ev_mem \<Rightarrow> eptr \<Rightarrow> tick \<times> int" where
  "bkey m x = ev_key (m x)"

text \<open>The bins of a queue: one key in each, keys ascending, no event twice.\<close>

definition one_key :: "ev_mem \<Rightarrow> eptr list \<Rightarrow> bool" where
  "one_key m b \<longleftrightarrow> (\<forall>x\<in>set b. bkey m x = bkey m (hd b))"

definition bins_ok :: "ev_mem \<Rightarrow> eptr list list \<Rightarrow> bool" where
  "bins_ok m bs \<longleftrightarrow> (\<forall>b\<in>set bs. b \<noteq> [] \<and> one_key m b) \<and>
     sorted_wrt (\<lambda>b c. bkey m (hd b) < bkey m (hd c)) bs \<and> distinct (concat bs)"

definition eq_rep :: "event_queue \<Rightarrow> eptr list list \<Rightarrow> bool" where
  "eq_rep q bs \<longleftrightarrow> segs (ev_mem q) (eq_head q) bs None \<and> bins_ok (ev_mem q) bs"

text \<open>Insertion and removal as they should be.\<close>

fun bin_insert :: "(eptr \<Rightarrow> tick \<times> int) \<Rightarrow> eptr \<Rightarrow> eptr list list \<Rightarrow> eptr list list" where
  "bin_insert k e [] = [[e]]"
| "bin_insert k e (b # bs) =
     (if k e < k (hd b) then [e] # b # bs
      else if k e = k (hd b) then (e # b) # bs
      else b # bin_insert k e bs)"

definition bin_remove :: "eptr \<Rightarrow> eptr list list \<Rightarrow> eptr list list" where
  "bin_remove e bs = filter (\<lambda>b. b \<noteq> []) (map (remove1 e) bs)"

section \<open>Lemmas on keys\<close>

lemma ev_less_key: "ev_less (m x) (m y) \<longleftrightarrow> bkey m x < bkey m y"
  by (auto simp: ev_less_def bkey_def ev_key_def less_prod_def)

lemma ev_le_key: "ev_le (m x) (m y) \<longleftrightarrow> bkey m x \<le> bkey m y"
  by (auto simp: ev_le_def bkey_def ev_key_def less_eq_prod_def)

lemma ev_eq_key: "ev_eq (m x) (m y) \<longleftrightarrow> bkey m x = bkey m y"
  by (auto simp: ev_eq_def bkey_def ev_key_def intro: signed_word_eqI)

section \<open>Lemmas on pointers\<close>

lemma stack_append: "stack m p (xs @ ys) r \<longleftrightarrow> (\<exists>s. stack m p xs s \<and> stack m s ys r)"
  by (induction xs arbitrary: p) auto

lemma segs_append: "segs m p (bs @ cs) r \<longleftrightarrow> (\<exists>s. segs m p bs s \<and> segs m s cs r)"
  by (induction bs arbitrary: p) auto

lemma stack_cong: "(\<And>x. x \<in> set xs \<Longrightarrow> nextInBin (m' x) = nextInBin (m x)) \<Longrightarrow> stack m' p xs r = stack m p xs r"
  by (induction xs arbitrary: p) auto

lemma segs_cong:
  assumes "\<And>x. x \<in> set (concat bs) \<Longrightarrow> nextInBin (m' x) = nextInBin (m x)"
    "\<And>b. b \<in> set bs \<Longrightarrow> nextBin (m' (hd b)) = nextBin (m (hd b))"
  shows "segs m' p bs r = segs m p bs r"
  using assms
proof (induction bs arbitrary: p)
  case (Cons b bs)
  have "stack m' p b None = stack m p b None" using Cons.prems(1) by (intro stack_cong) auto
  moreover have "segs m' (nextBin (m (hd b))) bs r = segs m (nextBin (m (hd b))) bs r"
    using Cons.prems by (intro Cons.IH) auto
  ultimately show ?case using Cons.prems(2) [of b] by simp
qed simp

lemma set_next_sel [simp]:
  "nextBin (set_nextBin p b m x) = (if x = p then b else nextBin (m x))" "nextInBin (set_nextBin p b m x) = nextInBin (m x)"
  "nextInBin (set_nextInBin p b m x) = (if x = p then b else nextInBin (m x))" "nextBin (set_nextInBin p b m x) = nextBin (m x)"
  by (simp_all add: set_nextBin_def set_nextInBin_def)

lemma segs_nonempty: "segs m p bs r \<Longrightarrow> b \<in> set bs \<Longrightarrow> b \<noteq> []"
  by (induction bs arbitrary: p) auto

lemma stack_relink:
  assumes "stack m p xs r" "distinct xs" "xs \<noteq> []"
  shows "stack (set_nextInBin (last xs) r' m) p xs r'"
  using assms
proof (induction xs arbitrary: p)
  case (Cons x xs)
  show ?case
  proof (cases "xs = []")
    case False
    then have "last xs \<noteq> x" using Cons.prems(2) by auto
    then show ?thesis using Cons False by simp
  qed (use Cons in simp)
qed simp

lemma segs_relink:
  assumes "segs m p bs r" "distinct (concat bs)" "bs \<noteq> []"
  shows "segs (set_nextBin (hd (last bs)) r' m) p bs r'"
  using assms
proof (induction bs arbitrary: p)
  case (Cons b bs)
  have st: "stack (set_nextBin x r' m) p b None" for x
    using Cons.prems(1) stack_cong [of b "set_nextBin x r' m" m p None] by simp
  show ?case
  proof (cases "bs = []")
    case False
    then have ne: "last bs \<in> set bs" "last bs \<noteq> []" "b \<noteq> []" using Cons.prems(1) by (auto simp: segs_nonempty)
    then have "hd (last bs) \<in> set (concat bs)" "hd b \<in> set b" by (auto intro!: bexI [of _ "last bs"])
    then have "hd (last bs) \<noteq> hd b" using Cons.prems(2) by (auto simp: disjoint_iff)
    then show ?thesis using Cons False st by simp
  qed (use Cons st in simp)
qed simp

text \<open>The pointer to the first of a sequence of bins.\<close>

definition first_ptr :: "eptr list list \<Rightarrow> eptr option" where
  "first_ptr bs = (case bs of [] \<Rightarrow> None | b # _ \<Rightarrow> Some (hd b))"

lemma hd_in_concat: "b \<in> set bs \<Longrightarrow> b \<noteq> [] \<Longrightarrow> hd b \<in> set (concat bs)"
  by (auto intro!: bexI [of _ b])

lemma find_bin_step:
  "find_bin m e prev None = Some (prev, None)"
  "find_bin m e prev (Some c) = (if ev_less (m c) (m e) then find_bin m e c (nextBin (m c)) else Some (prev, Some c))"
  by (subst find_bin.simps, simp)+

lemma find_in_bin_step:
  "find_in_bin m e cur None = Some (Inl Panic)"
  "find_in_bin m e cur (Some n) = (if n = e then Some (Inr cur) else find_in_bin m e n (nextInBin (m n)))"
  by (subst find_in_bin.simps, simp)+

lemma segs_first: "segs m p bs None \<Longrightarrow> p = first_ptr bs"
  by (cases bs) (auto simp: first_ptr_def neq_Nil_conv)

lemma find_bin_walk:
  assumes "segs m cur (bs @ cs) None" "\<forall>b\<in>set bs. bkey m (hd b) < bkey m e"
    "cs \<noteq> [] \<Longrightarrow> bkey m e \<le> bkey m (hd (hd cs))"
  shows "find_bin m e prev cur = Some (last (prev # map hd bs), first_ptr cs)"
  using assms
proof (induction bs arbitrary: prev cur)
  case Nil
  then show ?case
    by (cases cs) (auto simp: find_bin_step first_ptr_def ev_less_key neq_Nil_conv not_less)
next
  case (Cons b bs)
  then have "cur = Some (hd b)" "segs m (nextBin (m (hd b))) (bs @ cs) None" by (auto simp: neq_Nil_conv)
  then show ?case using Cons.IH [of "nextBin (m (hd b))" "hd b"] Cons.prems
    by (simp add: find_bin_step ev_less_key)
qed

lemma find_in_bin_walk:
  assumes "stack m nxt (xs @ e # ys) None" "e \<notin> set xs"
  shows "find_in_bin m e cur nxt = Some (Inr (last (cur # xs)))"
  using assms
proof (induction xs arbitrary: cur nxt)
  case Nil
  then show ?case by (simp add: find_in_bin_step)
next
  case (Cons x xs)
  then show ?case using Cons.IH [of "nextInBin (m x)" x] by (simp add: find_in_bin_step)
qed

section \<open>Insertion\<close>

lemma bin_insert_split:
  assumes "\<forall>b\<in>set bs. k (hd b) < k e" "cs \<noteq> [] \<Longrightarrow> k e \<le> k (hd (hd cs))"
  shows "bin_insert k e (bs @ cs) = bs @ (case cs of [] \<Rightarrow> [[e]] | c # rest \<Rightarrow>
    if k e = k (hd c) then (e # c) # rest else [e] # c # rest)"
  using assms by (induction bs) (auto split: list.splits)

lemma bins_split:
  assumes "bins_ok m bs"
  obtains ls rs where "bs = ls @ rs" "\<forall>b\<in>set ls. bkey m (hd b) < k" "rs \<noteq> [] \<Longrightarrow> k \<le> bkey m (hd (hd rs))"
proof
  let ?P = "\<lambda>b. bkey m (hd b) < k"
  show "bs = takeWhile ?P bs @ dropWhile ?P bs" by simp
  show "\<forall>b\<in>set (takeWhile ?P bs). ?P b" by (auto dest: set_takeWhileD)
  show "k \<le> bkey m (hd (hd (dropWhile ?P bs)))" if "dropWhile ?P bs \<noteq> []"
    using hd_dropWhile [OF that] by (simp add: not_less)
qed

lemma insertBefore_other: "x \<noteq> e \<Longrightarrow> insertBefore e c m x = m x"
  by (simp add: insertBefore_def split: option.splits)

lemma insertBefore_key [simp]: "bkey (insertBefore e c m) x = bkey m x"
  by (simp add: insertBefore_def bkey_def ev_key_def split: option.splits)

lemma set_next_key [simp]: "bkey (set_nextBin p b m) x = bkey m x" "bkey (set_nextInBin p b m) x = bkey m x"
  by (simp_all add: set_nextBin_def set_nextInBin_def bkey_def ev_key_def)

text \<open>Inserting in front of the bins that are not earlier.\<close>

lemma insertBefore_segs:
  assumes "segs m p rs None" "e \<notin> set (concat rs)" "rs \<noteq> [] \<Longrightarrow> bkey m e \<le> bkey m (hd (hd rs))"
  shows "segs (insertBefore e (first_ptr rs) m) (Some e) (bin_insert (bkey m) e rs) None"
proof (cases rs)
  case Nil
  then show ?thesis by (simp add: insertBefore_def first_ptr_def)
next
  case (Cons c cs)
  let ?m = "insertBefore e (first_ptr rs) m"
  have c: "c \<noteq> []" "stack m (Some (hd c)) c None" "segs m (nextBin (m (hd c))) cs None"
    using assms(1) Cons by (auto simp: neq_Nil_conv)
  have "hd c \<noteq> e" "e \<notin> set c" using assms(2) Cons c(1) by auto
  have same: "segs ?m q cs None = segs m q cs None" "stack ?m q c None = stack m q c None" for q
  proof -
    have ne: "x \<noteq> e" if "x \<in> set c \<union> set (concat cs)" for x using that assms(2) Cons by auto
    have hds: "hd b \<noteq> e" if "b \<in> set cs" for b
      using ne [of "hd b"] hd_in_concat [OF that segs_nonempty [OF c(3) that]] by simp
    show "segs ?m q cs None = segs m q cs None" using ne hds by (intro segs_cong) (simp_all add: insertBefore_other)
    show "stack ?m q c None = stack m q c None" using ne by (intro stack_cong) (simp add: insertBefore_other)
  qed
  show ?thesis
    using c same \<open>hd c \<noteq> e\<close> assms(3) Cons
    by (auto simp: insertBefore_def first_ptr_def ev_less_key)
qed

lemma bins_ok_Cons:
  "bins_ok m (b # bs) \<longleftrightarrow> b \<noteq> [] \<and> one_key m b \<and>
     (\<forall>c\<in>set bs. bkey m (hd b) < bkey m (hd c)) \<and> distinct b \<and> set b \<inter> set (concat bs) = {} \<and> bins_ok m bs"
  by (auto simp: bins_ok_def)

lemma bins_ok_Nil [simp]: "bins_ok m []"
  by (simp add: bins_ok_def)

lemma set_bin_insert: "set (concat (bin_insert k e bs)) = insert e (set (concat bs))"
  by (induction bs) auto

lemma bin_insert_hd: "c \<in> set (bin_insert k e bs) \<Longrightarrow> k (hd c) = k e \<or> (\<exists>d\<in>set bs. k (hd c) = k (hd d))"
  by (induction bs) (auto split: if_splits)

lemma one_keyD: "one_key m b \<Longrightarrow> x \<in> set b \<Longrightarrow> bkey m x = bkey m (hd b)"
  by (simp add: one_key_def)

lemma one_keyI: "(\<And>x. x \<in> set b \<Longrightarrow> bkey m x = k) \<Longrightarrow> one_key m b"
  unfolding one_key_def by (metis hd_in_set length_greater_0_conv length_pos_if_in_set)

lemma one_key_Cons:
  "one_key m [e]" "one_key m b \<Longrightarrow> b \<noteq> [] \<Longrightarrow> bkey m e = bkey m (hd b) \<Longrightarrow> one_key m (e # b)"
proof -
  show "one_key m [e]" by (simp add: one_key_def)
  assume b: "one_key m b" "b \<noteq> []" "bkey m e = bkey m (hd b)"
  show "one_key m (e # b)"
    by (rule one_keyI [of _ _ "bkey m (hd b)"]) (use one_keyD [OF b(1)] b(3) in auto)
qed

lemma bins_ok_insert: "bins_ok m bs \<Longrightarrow> e \<notin> set (concat bs) \<Longrightarrow> bins_ok m (bin_insert (bkey m) e bs)"
proof (induction bs)
  case (Cons b bs)
  let ?k = "bkey m"
  have b: "b \<noteq> []" "one_key m b" "\<forall>c\<in>set bs. ?k (hd b) < ?k (hd c)" "distinct b"
      "set b \<inter> set (concat bs) = {}" "bins_ok m bs"
    using Cons.prems(1) by (simp_all add: bins_ok_Cons)
  consider "?k e < ?k (hd b)" | "?k e = ?k (hd b)" | "?k (hd b) < ?k e" by (meson less_linear)
  then show ?case
  proof cases
    case 1
    then have "\<forall>c\<in>set bs. ?k e < ?k (hd c)" using b(3) by (meson less_trans)
    then show ?thesis using 1 b Cons.prems by (simp add: bins_ok_Cons one_key_Cons)
  next
    case 2
    then show ?thesis using b Cons.prems by (simp add: bins_ok_Cons one_key_Cons)
  next
    case 3
    then have "bin_insert ?k e (b # bs) = b # bin_insert ?k e bs" by auto
    moreover have "?k (hd b) < ?k (hd c)" if "c \<in> set (bin_insert ?k e bs)" for c
      using bin_insert_hd [OF that] b(3) 3 by auto
    moreover have "set b \<inter> set (concat (bin_insert ?k e bs)) = {}"
      unfolding set_bin_insert using b(5) Cons.prems(2) by auto
    ultimately show ?thesis using Cons.IH Cons.prems(2) b by (simp add: bins_ok_Cons)
  qed
qed (simp add: bins_ok_Cons one_key_Cons)

text \<open>The parts of an event that the pointer operations leave alone.\<close>

definition ev_core :: "event \<Rightarrow> tick \<times> 8 word \<times> u16 \<times> bool" where
  "ev_core e = (ev_when e, ev_priority e, ev_flags e, ev_live e)"

lemma ev_core_frame [simp]:
  "ev_core (insertBefore e c m x) = ev_core (m x)" "ev_core (set_nextBin p b m x) = ev_core (m x)"
  "ev_core (set_nextInBin p b m x) = ev_core (m x)"
  by (auto simp: ev_core_def insertBefore_def set_nextBin_def set_nextInBin_def split: option.splits)

definition eq_frame :: "event_queue \<Rightarrow> event_queue \<Rightarrow> bool" where
  "eq_frame q q' \<longleftrightarrow> (\<forall>x. ev_core (ev_mem q' x) = ev_core (ev_mem q x)) \<and> eq_curTick q' = eq_curTick q \<and> async_queue q' = async_queue q"

lemma bins_ok_cong: "(\<And>x. bkey m' x = bkey m x) \<Longrightarrow> bins_ok m' bs = bins_ok m bs"
  by (simp add: bins_ok_def one_key_def)

lemma bins_ok_frame [simp]:
  "bins_ok (insertBefore e c m) bs = bins_ok m bs" "bins_ok (set_nextBin p b m) bs = bins_ok m bs"
  "bins_ok (set_nextInBin p b m) bs = bins_ok m bs"
  by (intro bins_ok_cong; simp)+

lemma eq_insert_rep:
  assumes "eq_rep q bs" "e \<notin> set (concat bs)"
  shows "\<exists>q'. eq_insert e q = Some q' \<and> eq_rep q' (bin_insert (bkey (ev_mem q)) e bs) \<and> eq_frame q q'"
proof -
  let ?m = "ev_mem q" and ?k = "bkey (ev_mem q)"
  have sg: "segs ?m (eq_head q) bs None" and ok: "bins_ok ?m bs" using assms(1) by (auto simp: eq_rep_def)
  obtain ls rs where bs: "bs = ls @ rs" and ls: "\<forall>b\<in>set ls. ?k (hd b) < ?k e" and rs: "rs \<noteq> [] \<Longrightarrow> ?k e \<le> ?k (hd (hd rs))"
    using bins_split [OF ok, of "?k e"] by auto
  obtain p where p: "segs ?m (eq_head q) ls p" "segs ?m p rs None" using sg bs by (auto simp: segs_append)
  let ?m1 = "insertBefore e (first_ptr rs) ?m"
  have tail: "segs ?m1 (Some e) (bin_insert ?k e rs) None"
    using insertBefore_segs [OF p(2)] assms(2) rs bs by simp
  have ok': "bins_ok ?m (bin_insert ?k e bs)" by (rule bins_ok_insert [OF ok assms(2)])
  have new: "bin_insert ?k e bs = ls @ bin_insert ?k e rs"
    unfolding bs using bin_insert_split [of ls ?k e rs] bin_insert_split [of "[]" ?k e rs] ls rs by simp
  show ?thesis
  proof (cases "ls = []")
    case True
    then have "eq_insert e q = Some (q\<lparr>ev_mem := ?m1, eq_head := Some e\<rparr>)"
      using p rs segs_first [OF p(2)] by (cases rs) (auto simp: eq_insert_def Let_def first_ptr_def ev_le_key)
    then show ?thesis using tail ok' True bs by (simp add: eq_rep_def eq_frame_def)
  next
    case False
    let ?h = "hd (hd ls)" and ?m2 = "set_nextBin (hd (last ls)) (Some e) ?m1"
    have hd: "eq_head q = Some ?h" "segs ?m (nextBin (?m ?h)) (tl ls @ rs) None"
      using sg bs False by (auto simp: neq_Nil_conv)
    have "find_bin ?m e ?h (nextBin (?m ?h)) = Some (last (?h # map hd (tl ls)), first_ptr rs)"
      using find_bin_walk [OF hd(2)] ls rs False by (auto simp: list.set_sel(2))
    moreover have "last (?h # map hd (tl ls)) = hd (last ls)" using False by (cases ls) (auto simp: last_map)
    moreover have "\<not> ev_le (?m e) (?m ?h)" using ls False by (auto simp: ev_le_key not_le)
    ultimately have run: "eq_insert e q = Some (q\<lparr>ev_mem := ?m2\<rparr>)" by (simp add: eq_insert_def Let_def hd(1))
    have nl: "x \<noteq> e" if "x \<in> set (concat ls)" for x using that assms(2) bs by auto
    have "segs ?m1 (eq_head q) ls p = segs ?m (eq_head q) ls p"
      using nl nl [OF hd_in_concat [OF _ segs_nonempty [OF p(1)]]] by (intro segs_cong) (simp_all add: insertBefore_other)
    then have l: "segs ?m2 (eq_head q) ls (Some e)"
      using segs_relink [of ?m1 "eq_head q" ls p] p(1) False ok bs by (simp add: bins_ok_def)
    have "hd b \<noteq> hd (last ls)" if b: "b \<in> set (bin_insert ?k e rs)" for b
    proof -
      have "hd b \<in> set (concat (bin_insert ?k e rs))" using hd_in_concat [OF b segs_nonempty [OF tail b]] .
      moreover have "hd (last ls) \<in> set (concat ls)" using False segs_nonempty [OF p(1)] by (intro hd_in_concat) auto
      moreover have "set (concat ls) \<inter> set (concat (bin_insert ?k e rs)) = {}"
        using ok' unfolding new by (simp add: bins_ok_def)
      ultimately show ?thesis unfolding disjoint_iff by metis
    qed
    then have "segs ?m2 (Some e) (bin_insert ?k e rs) None = segs ?m1 (Some e) (bin_insert ?k e rs) None"
      by (intro segs_cong) auto
    then have "segs ?m2 (eq_head q) (bin_insert ?k e bs) None" using l tail unfolding new segs_append by blast
    then show ?thesis using run ok' by (simp add: eq_rep_def eq_frame_def)
  qed
qed

section \<open>Removal\<close>

text \<open>A bin without an event; the bin disappears with its last event.\<close>

definition bin_without :: "eptr \<Rightarrow> eptr list \<Rightarrow> eptr list list" where
  "bin_without e b = (if remove1 e b = [] then [] else [remove1 e b])"

lemma bin_remove_split:
  "e \<notin> set (concat ls) \<Longrightarrow> e \<notin> set (concat rs) \<Longrightarrow> \<forall>b\<in>set (ls @ rs). b \<noteq> [] \<Longrightarrow>
   bin_remove e (ls @ b # rs) = ls @ bin_without e b @ rs"
proof -
  assume a: "e \<notin> set (concat ls)" "e \<notin> set (concat rs)" "\<forall>b\<in>set (ls @ rs). b \<noteq> []"
  have "map (remove1 e) ls = ls" "map (remove1 e) rs = rs" using a by (auto intro!: map_idI remove1_idem)
  then show ?thesis using a(3) by (auto simp: bin_remove_def bin_without_def filter_id_conv)
qed

lemma removeItem_top:
  assumes "segs m p ((e # xs) # bs) None" "distinct (concat ((e # xs) # bs))"
  shows "\<exists>p' m'. removeItem e e m = Some (Inr (p', m')) \<and> segs m' p' (bin_without e (e # xs) @ bs) None \<and>
    (\<forall>x. ev_core (m' x) = ev_core (m x)) \<and> (\<forall>x. x \<notin> set xs \<longrightarrow> m' x = m x)"
proof (cases xs)
  case Nil
  then show ?thesis using assms(1) by (simp add: removeItem_def bin_without_def)
next
  case (Cons n ys)
  let ?m = "set_nextBin n (nextBin (m e)) m"
  have nb: "n \<notin> set (concat bs)" using assms(2) Cons by auto
  have "segs ?m q bs None = segs m q bs None" for q
  proof (cases "segs m q bs None \<or> segs ?m q bs None")
    case True
    then have "\<forall>b\<in>set bs. b \<noteq> []" by (auto dest: segs_nonempty)
    then have "hd b \<noteq> n" if "b \<in> set bs" for b using hd_in_concat [OF that] that nb by metis
    then show ?thesis by (intro segs_cong) simp_all
  qed simp
  moreover have "stack ?m (Some n) ys' r = stack m (Some n) ys' r" for ys' r by (intro stack_cong) simp
  moreover have "stack ?m q ys' r = stack m q ys' r" for q ys' r by (intro stack_cong) simp
  ultimately have "segs ?m (Some n) (xs # bs) None" using assms(1) Cons by simp
  moreover have "?m x = m x" if "x \<notin> set xs" for x using that Cons by (simp add: set_nextBin_def)
  moreover have "removeItem e e m = Some (Inr (Some n, ?m))" using assms(1) Cons by (simp add: removeItem_def)
  ultimately show ?thesis using Cons by (auto simp: bin_without_def)
qed

lemma removeItem_inner:
  assumes "segs m p ((t # xs) # bs) None" "distinct (concat ((t # xs) # bs))" "e \<in> set xs"
  shows "\<exists>m'. removeItem e t m = Some (Inr (Some t, m')) \<and> segs m' (Some t) (bin_without e (t # xs) @ bs) None \<and>
    (\<forall>x. ev_core (m' x) = ev_core (m x)) \<and> (\<forall>x. x \<notin> set (t # xs) \<longrightarrow> m' x = m x)"
proof -
  obtain us vs where xs: "xs = us @ e # vs" "e \<notin> set us" using split_list_first [OF assms(3)] by blast
  let ?c = "last (t # us)"
  let ?m = "set_nextInBin ?c (nextInBin (m e)) m"
  have et: "e \<noteq> t" using assms(2,3) by auto
  have st: "stack m (Some t) ((t # us) @ e # vs) None" and rest: "segs m (nextBin (m t)) bs None" and p: "p = Some t"
    using assms(1) xs by auto
  from st have parts: "stack m (Some t) (t # us) (Some e)" "stack m (nextInBin (m e)) vs None" by (auto simp: stack_append)
  have "find_in_bin m e t (nextInBin (m t)) = Some (Inr ?c)" using find_in_bin_walk [of m "nextInBin (m t)" us e vs t] st xs by simp
  then have run: "removeItem e t m = Some (Inr (Some t, ?m))" using et by (simp add: removeItem_def rbind_def)
  have c: "?c \<in> set (t # us)" by (rule last_in_set) simp
  have dist: "distinct ((t # us) @ e # vs)" "set ((t # us) @ e # vs) \<inter> set (concat bs) = {}" using assms(2) xs by auto
  have "stack ?m (Some t) (t # us) (nextInBin (m e))" using stack_relink [OF parts(1)] dist by simp
  moreover have "stack ?m (nextInBin (m e)) vs None"
    using parts(2) c dist by (subst stack_cong [of vs ?m m]) auto
  ultimately have bin: "stack ?m (Some t) ((t # us) @ vs) None" unfolding stack_append by blast
  have cb: "?c \<notin> set (concat bs)" using c dist(2) unfolding disjoint_iff set_append by blast
  have "segs ?m (nextBin (m t)) bs None = segs m (nextBin (m t)) bs None"
  proof (rule segs_cong)
    fix x assume "x \<in> set (concat bs)"
    then have "x \<noteq> ?c" using cb by metis
    then show "nextInBin (?m x) = nextInBin (m x)" by simp
  qed simp
  then have "segs ?m (nextBin (m t)) bs None" using rest by simp
  then have "segs ?m (Some t) (((t # us) @ vs) # bs) None" using bin by simp
  moreover have "remove1 e (t # xs) = (t # us) @ vs" using et xs by (simp add: remove1_append)
  moreover have "?m x = m x" if "x \<notin> set (t # xs)" for x using that c xs by (auto simp: set_nextInBin_def)
  ultimately show ?thesis using run by (auto simp: bin_without_def)
qed

lemma removeItem_rep:
  assumes "segs m p (b # bs) None" "distinct (concat (b # bs))" "e \<in> set b"
  shows "\<exists>p' m'. removeItem e (hd b) m = Some (Inr (p', m')) \<and> segs m' p' (bin_without e b @ bs) None \<and>
    (\<forall>x. ev_core (m' x) = ev_core (m x)) \<and> (\<forall>x. x \<notin> set b \<longrightarrow> m' x = m x)"
proof -
  obtain t xs where b: "b = t # xs" using assms(1) by (auto simp: neq_Nil_conv)
  show ?thesis
  proof (cases "e = t")
    case True
    then show ?thesis using removeItem_top [of m p t xs bs] assms b by auto
  next
    case False
    then show ?thesis using removeItem_inner [of m p t xs bs e] assms b by auto
  qed
qed

lemma bkey_core: "(\<And>x. ev_core (m' x) = ev_core (m x)) \<Longrightarrow> bkey m' = bkey m"
  by (rule ext) (simp add: bkey_def ev_key_def ev_core_def)

lemma bins_ok_remove:
  assumes "bins_ok m (ls @ b # rs)" "e \<in> set b"
  shows "bins_ok m (ls @ bin_without e b @ rs)"
proof -
  have b: "one_key m b" "distinct b" using assms(1) by (auto simp: bins_ok_def)
  have hd: "bkey m (hd (remove1 e b)) = bkey m (hd b)" "one_key m (remove1 e b)" if "remove1 e b \<noteq> []"
  proof -
    have sub: "set (remove1 e b) \<subseteq> set b" by (rule set_remove1_subset)
    show k: "bkey m (hd (remove1 e b)) = bkey m (hd b)" using one_keyD [OF b(1)] sub hd_in_set [OF that] by blast
    show "one_key m (remove1 e b)"
      by (rule one_keyI [of _ _ "bkey m (hd b)"]) (use one_keyD [OF b(1)] sub in blast)
  qed
  show ?thesis
    using assms(1) hd set_remove1_subset [of e b] b(2)
    by (auto simp: bins_ok_def bin_without_def sorted_wrt_append distinct_remove1)
qed

lemma eq_remove_rep:
  assumes "eq_rep q bs" "e \<in> set (concat bs)"
  shows "\<exists>q'. eq_remove e q = Some (Inr q') \<and> eq_rep q' (bin_remove e bs) \<and> eq_frame q q'"
proof -
  let ?m = "ev_mem q"
  have sg: "segs ?m (eq_head q) bs None" and ok: "bins_ok ?m bs" using assms(1) by (auto simp: eq_rep_def)
  obtain b where "b \<in> set bs" and eb: "e \<in> set b" using assms(2) by auto
  then obtain ls rs where bs: "bs = ls @ b # rs" by (auto dest: split_list)
  obtain p where p: "segs ?m (eq_head q) ls p" "segs ?m p (b # rs) None" using sg bs by (auto simp: segs_append)
  have dist: "distinct (concat (b # rs))" "distinct (concat ls)" "set (concat ls) \<inter> set (concat (b # rs)) = {}"
    using ok bs by (auto simp: bins_ok_def)
  obtain p' m' where rm: "removeItem e (hd b) ?m = Some (Inr (p', m'))" "segs m' p' (bin_without e b @ rs) None"
    "\<forall>x. ev_core (m' x) = ev_core (?m x)" "\<forall>x. x \<notin> set b \<longrightarrow> m' x = ?m x"
    using removeItem_rep [OF p(2) dist(1) eb] by blast
  have key: "bkey ?m e = bkey ?m (hd b)" using ok bs one_keyD [OF _ eb] by (auto simp: bins_ok_def)
  have ok': "bins_ok m' (ls @ bin_without e b @ rs)"
    using bins_ok_remove [of ?m ls b rs e] ok bs eb bins_ok_cong [of m' ?m] bkey_core [of m' ?m] rm(3) by simp
  have new: "bin_remove e bs = ls @ bin_without e b @ rs"
    unfolding bs using dist eb ok bs by (intro bin_remove_split) (auto simp: bins_ok_def)
  have b: "p = Some (hd b)" using segs_first [OF p(2)] by (simp add: first_ptr_def)
  show ?thesis
  proof (cases "ls = []")
    case True
    then have "eq_head q = Some (hd b)" using p b by simp
    then have "eq_remove e q = Some (Inr (q\<lparr>eq_head := p', ev_mem := m'\<rparr>))"
      using rm(1) key by (simp add: eq_remove_def Let_def ev_eq_key rbind_def)
    then show ?thesis using rm(2,3) ok' new True by (auto simp: eq_rep_def eq_frame_def)
  next
    case False
    let ?h = "hd (hd ls)" and ?l = "hd (last ls)"
    let ?m2 = "set_nextBin ?l p' m'"
    have hd: "eq_head q = Some ?h" "segs ?m (nextBin (?m ?h)) (tl ls @ b # rs) None"
      using sg bs False by (auto simp: neq_Nil_conv)
    have lt: "\<forall>c\<in>set ls. bkey ?m (hd c) < bkey ?m e" using ok bs key by (auto simp: bins_ok_def sorted_wrt_append)
    have "find_bin ?m e ?h (nextBin (?m ?h)) = Some (last (?h # map hd (tl ls)), first_ptr (b # rs))"
      using find_bin_walk [OF hd(2)] lt key False by (auto simp: list.set_sel(2))
    moreover have "last (?h # map hd (tl ls)) = ?l" using False by (cases ls) (auto simp: last_map)
    moreover have "bkey ?m ?h \<noteq> bkey ?m (hd b)" "bkey ?m ?h < bkey ?m (hd b)" using bspec [OF lt, of "hd ls"] False key by auto
    ultimately have run: "eq_remove e q = Some (Inr (q\<lparr>ev_mem := ?m2\<rparr>))"
      using rm(1) key by (simp add: eq_remove_def Let_def hd(1) ev_eq_key rbind_def lift_run_def first_ptr_def)
    have nb: "x \<notin> set b" if "x \<in> set (concat ls)" for x using that dist(3) by (auto simp: disjoint_iff)
    have hdl: "hd c \<in> set (concat ls)" if "c \<in> set ls" for c using hd_in_concat [OF that segs_nonempty [OF p(1) that]] .
    have "segs m' (eq_head q) ls p = segs ?m (eq_head q) ls p"
      using nb rm(4) hdl by (intro segs_cong) simp_all
    then have l: "segs ?m2 (eq_head q) ls p'"
      using segs_relink [of m' "eq_head q" ls p p'] p(1) False dist(2) by simp
    have "hd c \<noteq> ?l" if c: "c \<in> set (bin_without e b @ rs)" for c
    proof -
      have "hd c \<in> set (concat (bin_without e b @ rs))" by (rule hd_in_concat [OF c segs_nonempty [OF rm(2) c]])
      moreover have "set (concat (bin_without e b @ rs)) \<subseteq> set (concat (b # rs))"
        using set_remove1_subset [of e b] by (auto simp: bin_without_def)
      moreover have "?l \<in> set (concat ls)" using False hdl by simp
      ultimately show ?thesis using dist(3) unfolding disjoint_iff by (metis subsetD)
    qed
    then have "segs ?m2 p' (bin_without e b @ rs) None = segs m' p' (bin_without e b @ rs) None"
      by (intro segs_cong) auto
    then have "segs ?m2 (eq_head q) (bin_remove e bs) None" using l rm(2) unfolding new segs_append by blast
    then show ?thesis using run ok' rm(3) new by (simp add: eq_rep_def eq_frame_def)
  qed
qed

text \<open>Changes outside the bins keep the representation.\<close>

lemma eq_rep_upd:
  assumes "eq_rep q bs" "eq_head q' = eq_head q"
    "\<And>x. x \<in> set (concat bs) \<Longrightarrow> nextBin (ev_mem q' x) = nextBin (ev_mem q x) \<and> nextInBin (ev_mem q' x) = nextInBin (ev_mem q x) \<and>
       bkey (ev_mem q') x = bkey (ev_mem q) x"
  shows "eq_rep q' bs"
proof -
  have ne: "b \<noteq> []" if "b \<in> set bs" for b using assms(1) that by (auto simp: eq_rep_def bins_ok_def)
  have hd: "hd b \<in> set (concat bs)" if "b \<in> set bs" for b using hd_in_concat [OF that ne [OF that]] .
  have "segs (ev_mem q') (eq_head q) bs None = segs (ev_mem q) (eq_head q) bs None"
    using assms(3) hd by (intro segs_cong) blast+
  moreover have "bins_ok (ev_mem q') bs"
  proof -
    have "one_key (ev_mem q') b" if "b \<in> set bs" for b
    proof (rule one_keyI)
      fix x assume "x \<in> set b"
      moreover have "one_key (ev_mem q) b" using assms(1) that by (auto simp: eq_rep_def bins_ok_def)
      ultimately show "bkey (ev_mem q') x = bkey (ev_mem q) (hd b)"
        using assms(3) [of x] one_keyD [of "ev_mem q" b x] that by auto
    qed
    moreover have "sorted_wrt (\<lambda>b c. bkey (ev_mem q') (hd b) < bkey (ev_mem q') (hd c)) bs"
      using assms(1,3) hd by (auto simp: eq_rep_def bins_ok_def intro: sorted_wrt_mono_rel [rotated])
    ultimately show ?thesis using assms(1) by (auto simp: eq_rep_def bins_ok_def)
  qed
  ultimately show ?thesis using assms(1,2) by (simp add: eq_rep_def)
qed

lemma set_bin_remove: "distinct (concat bs) \<Longrightarrow> set (concat (bin_remove e bs)) = set (concat bs) - {e}"
proof -
  assume d: "distinct (concat bs)"
  have "concat (bin_remove e cs) = concat (map (remove1 e) cs)" for cs
    unfolding bin_remove_def by (induction cs) auto
  moreover have "set (concat (map (remove1 e) bs)) = set (concat bs) - {e}"
    using d by (induction bs) auto
  ultimately show ?thesis by simp
qed

text \<open>Removing an event that is in no bin is an error, whatever the stale pointers hold.\<close>

lemma find_in_bin_absent: "stack m nxt xs None \<Longrightarrow> e \<notin> set xs \<Longrightarrow> find_in_bin m e cur nxt = Some (Inl Panic)"
  by (induction xs arbitrary: cur nxt) (auto simp: find_in_bin_step)

lemma removeItem_absent:
  assumes "stack m (Some t) b None" "b \<noteq> []" "e \<notin> set b"
  shows "removeItem e t m = Some (Inl Panic)"
proof -
  obtain xs where b: "b = t # xs" using assms(1,2) by (cases b) auto
  then have "find_in_bin m e t (nextInBin (m t)) = Some (Inl Panic)"
    using assms by (intro find_in_bin_absent [of _ _ xs]) auto
  then show ?thesis using b assms(3) by (auto simp: removeItem_def rbind_def)
qed

lemma eq_remove_absent:
  assumes "eq_rep q bs" "e \<notin> set (concat bs)"
  shows "eq_remove e q = Some (Inl Panic)"
proof (cases bs)
  case Nil
  then show ?thesis using assms(1) by (simp add: eq_rep_def eq_remove_def)
next
  case (Cons b cs)
  let ?m = "ev_mem q"
  have sg: "segs ?m (eq_head q) (b # cs) None" and ok: "bins_ok ?m (b # cs)" using assms(1) Cons by (auto simp: eq_rep_def)
  have h: "eq_head q = Some (hd b)" using segs_first [OF sg] by (simp add: first_ptr_def)
  have b: "stack ?m (Some (hd b)) b None" "b \<noteq> []" "e \<notin> set b" using sg h assms(2) Cons by auto
  show ?thesis
  proof (cases "ev_eq (?m (hd b)) (?m e)")
    case True
    then show ?thesis using h removeItem_absent [OF b] by (simp add: eq_remove_def rbind_def)
  next
    case False
    obtain ls rs where cs: "cs = ls @ rs" and ls: "\<forall>c\<in>set ls. bkey ?m (hd c) < bkey ?m e"
      and rs: "rs \<noteq> [] \<Longrightarrow> bkey ?m e \<le> bkey ?m (hd (hd rs))"
      using bins_split [of ?m cs "bkey ?m e"] ok by (auto simp: bins_ok_def)
    have "segs ?m (nextBin (?m (hd b))) (ls @ rs) None" using sg cs by simp
    from find_bin_walk [OF this ls rs] have w: "find_bin ?m e (hd b) (nextBin (?m (hd b))) = Some (last (hd b # map hd ls), first_ptr rs)" .
    show ?thesis
    proof (cases rs)
      case Nil
      then show ?thesis using h False w by (simp add: eq_remove_def rbind_def lift_run_def first_ptr_def)
    next
      case (Cons c ds)
      obtain p where "segs ?m p (c # ds) None" using sg cs Cons by (auto simp: segs_append)
      then have "stack ?m (Some (hd c)) c None" "c \<noteq> []" by (auto simp: neq_Nil_conv)
      moreover have "e \<notin> set c" using assms(2) cs Cons \<open>bs = b # cs\<close> by auto
      ultimately have "removeItem e (hd c) ?m = Some (Inl Panic)" by (rule removeItem_absent)
      then show ?thesis using h False w Cons by (simp add: eq_remove_def rbind_def lift_run_def first_ptr_def Let_def)
    qed
  qed
qed

end
