(* ===== verification/Event_Queue_Steps.thy ===== *)
theory Event_Queue_Steps
  imports Event_Queue
begin

text \<open>
  The invariant of the event queue, the operations on it as a step relation, and what holds in every
  reachable state: the pointers form sorted bins, exactly the scheduled events are in them, and without
  asynchronous insertions the time never goes back.
\<close>

section \<open>The invariant\<close>

text \<open>
  An event carries the scheduled flag exactly when it is in a bin or in the asynchronous queue; it is
  then initialised and not deleted.  No operation sets the main queue flag.
\<close>

definition eq_members :: "event_queue \<Rightarrow> eptr list list \<Rightarrow> eptr set" where
  "eq_members q bs = set (concat bs) \<union> set (async_queue q)"

definition ev_ok :: "bool \<Rightarrow> event \<Rightarrow> bool" where
  "ev_ok mem v \<longleftrightarrow> (scheduled v \<longleftrightarrow> mem) \<and> (mem \<longrightarrow> ev_live v \<and> initialized v) \<and> \<not> isSet (ev_flags v) EV_IsMainQueue"

definition eq_inv :: "event_queue \<Rightarrow> eptr list list \<Rightarrow> bool" where
  "eq_inv q bs \<longleftrightarrow> eq_rep q bs \<and> distinct (async_queue q) \<and> set (concat bs) \<inter> set (async_queue q) = {} \<and>
     (\<forall>e. ev_ok (e \<in> eq_members q bs) (ev_mem q e))"

text \<open>The changes of one event.\<close>

definition only_ev :: "eptr \<Rightarrow> event_queue \<Rightarrow> event_queue \<Rightarrow> bool" where
  "only_ev e q q' \<longleftrightarrow> (\<forall>x. x \<noteq> e \<longrightarrow> ev_core (ev_mem q' x) = ev_core (ev_mem q x))"

lemma ev_core_sel:
  assumes "ev_core v = ev_core w"
  shows "ev_when v = ev_when w" "ev_priority v = ev_priority w" "ev_flags v = ev_flags w" "ev_live v = ev_live w"
  using assms by (simp_all add: ev_core_def)

lemma ev_ok_core: "ev_core v = ev_core w \<Longrightarrow> ev_ok b v \<longleftrightarrow> ev_ok b w"
  using ev_core_sel [of v w] by (simp add: ev_ok_def scheduled_def initialized_def)

lemma eq_invI:
  assumes "eq_rep q' bs'" "eq_inv q bs" "only_ev e q q'" "distinct (async_queue q')"
    "set (concat bs') \<inter> set (async_queue q') = {}" "eq_members q' bs' - {e} = eq_members q bs - {e}"
    "ev_ok (e \<in> eq_members q' bs') (ev_mem q' e)"
  shows "eq_inv q' bs'"
proof -
  have "ev_ok (x \<in> eq_members q' bs') (ev_mem q' x)" for x
  proof (cases "x = e")
    case False
    then have "x \<in> eq_members q' bs' \<longleftrightarrow> x \<in> eq_members q bs" using assms(6) by blast
    then show ?thesis using assms(2,3) False ev_ok_core [of "ev_mem q' x" "ev_mem q x"]
      by (simp add: eq_inv_def only_ev_def)
  qed (use assms(7) in simp)
  then show ?thesis using assms(1,4,5) by (simp add: eq_inv_def)
qed

section \<open>Flags, times and releases\<close>

lemma upd_flags_sel [simp]:
  "eq_head (upd_flags e f q) = eq_head q" "eq_curTick (upd_flags e f q) = eq_curTick q" "async_queue (upd_flags e f q) = async_queue q"
  "ev_mem (upd_flags e f q) x = (if x = e then (ev_mem q e)\<lparr>ev_flags := f (ev_flags (ev_mem q e))\<rparr> else ev_mem q x)"
  by (simp_all add: upd_flags_def)

lemma setWhen_sel [simp]:
  "eq_head (setWhen e t q) = eq_head q" "eq_curTick (setWhen e t q) = eq_curTick q" "async_queue (setWhen e t q) = async_queue q"
  "ev_mem (setWhen e t q) x = (if x = e then (ev_mem q e)\<lparr>ev_when := t\<rparr> else ev_mem q x)"
  by (simp_all add: setWhen_def)

lemma release_sel [simp]:
  "eq_head (release e q) = eq_head q" "eq_curTick (release e q) = eq_curTick q" "async_queue (release e q) = async_queue q"
  "nextBin (ev_mem (release e q) x) = nextBin (ev_mem q x)" "nextInBin (ev_mem (release e q) x) = nextInBin (ev_mem q x)"
  "ev_when (ev_mem (release e q) x) = ev_when (ev_mem q x)" "ev_priority (ev_mem (release e q) x) = ev_priority (ev_mem q x)"
  "ev_flags (ev_mem (release e q) x) = ev_flags (ev_mem q x)" "x \<noteq> e \<Longrightarrow> ev_mem (release e q) x = ev_mem q x"
  by (simp_all add: release_def)

lemma eq_rep_simps:
  "eq_rep q bs \<Longrightarrow> eq_rep (upd_flags e f q) bs"
  "eq_rep q bs \<Longrightarrow> eq_rep (release e q) bs"
  "eq_rep q bs \<Longrightarrow> e \<notin> set (concat bs) \<Longrightarrow> eq_rep (setWhen e t q) bs"
  "eq_rep q bs \<Longrightarrow> eq_rep (q\<lparr>eq_curTick := t\<rparr>) bs"
  "eq_rep q bs \<Longrightarrow> eq_rep (q\<lparr>async_queue := as\<rparr>) bs"
  by (erule eq_rep_upd; auto simp: bkey_def ev_key_def)+

lemma init_mask [simp]:
  "setFlags f EV_Scheduled AND EV_InitMask = f AND EV_InitMask"
  "setFlags f EV_Squashed AND EV_InitMask = f AND EV_InitMask"
  "clearFlags f EV_Scheduled AND EV_InitMask = f AND EV_InitMask"
  "clearFlags f EV_Squashed AND EV_InitMask = f AND EV_InitMask"
  by (simp_all add: setFlags_def clearFlags_def bit.conj_disj_distrib2 and.assoc)

lemma ev_ok_flags:
  "ev_live v \<Longrightarrow> initialized v \<Longrightarrow> ev_ok b v \<Longrightarrow> ev_ok True (v\<lparr>ev_flags := setFlags (ev_flags v) EV_Scheduled\<rparr>)"
  "ev_ok b v \<Longrightarrow> ev_ok False (v\<lparr>ev_flags := clearFlags (ev_flags v) EV_Scheduled\<rparr>)"
  "ev_ok b v \<Longrightarrow> ev_ok b (v\<lparr>ev_flags := clearFlags (ev_flags v) EV_Squashed\<rparr>)"
  "ev_ok b v \<Longrightarrow> ev_ok b (v\<lparr>ev_flags := setFlags (ev_flags v) EV_Squashed\<rparr>)"
  "ev_ok b v \<Longrightarrow> ev_ok b (v\<lparr>ev_when := t\<rparr>)"
  "ev_ok False v \<Longrightarrow> ev_ok False (v\<lparr>ev_live := l\<rparr>)"
  by (auto simp: ev_ok_def scheduled_def initialized_def flag_simps)

section \<open>The operations keep the invariant\<close>

lemmas eq_op_defs = rbind_def rassert_def sassert_def lift_run_def alive_def

lemma eq_invD:
  assumes "eq_inv q bs"
  shows "eq_rep q bs" "distinct (async_queue q)" "set (concat bs) \<inter> set (async_queue q) = {}" "distinct (concat bs)"
    "ev_ok (e \<in> eq_members q bs) (ev_mem q e)" "scheduled (ev_mem q e) \<longleftrightarrow> e \<in> eq_members q bs"
  using assms by (auto simp: eq_inv_def eq_rep_def bins_ok_def ev_ok_def)

lemma eq_frameD:
  assumes "eq_frame q q'"
  shows "ev_core (ev_mem q' x) = ev_core (ev_mem q x)" "eq_curTick q' = eq_curTick q" "async_queue q' = async_queue q"
  using assms by (simp_all add: eq_frame_def)

text \<open>The insertion that scheduling and rescheduling share.\<close>

lemma insert_inv:
  assumes "eq_inv q bs" "e \<notin> eq_members q bs" "ev_live (ev_mem q e)" "initialized (ev_mem q e)"
    "f = (\<lambda>f. setFlags f EV_Scheduled) \<or> f = (\<lambda>f. setFlags (clearFlags f EV_Squashed) EV_Scheduled)"
  shows "\<exists>q'. eq_insert e (setWhen e t q) = Some q' \<and>
    eq_inv (upd_flags e f q') (bin_insert (bkey (ev_mem (setWhen e t q))) e bs) \<and>
    only_ev e q q' \<and> ev_when (ev_mem q' e) = t \<and> eq_curTick q' = eq_curTick q \<and> async_queue q' = async_queue q"
proof -
  let ?q = "setWhen e t q" and ?bs = "bin_insert (bkey (ev_mem (setWhen e t q))) e bs"
  note inv = eq_invD [OF assms(1)]
  have out: "e \<notin> set (concat bs)" "e \<notin> set (async_queue q)" using assms(2) by (auto simp: eq_members_def)
  obtain q' where q': "eq_insert e ?q = Some q'" "eq_rep q' ?bs" "eq_frame ?q q'"
    using eq_insert_rep [OF eq_rep_simps(3) [OF inv(1) out(1)] out(1)] by blast
  note fr = eq_frameD [OF q'(3)]
  have e: "ev_core (ev_mem q' e) = ev_core ((ev_mem q e)\<lparr>ev_when := t\<rparr>)" using fr(1) [of e] by simp
  have oth: "only_ev e q q'" using fr(1) by (simp add: only_ev_def)
  have "ev_ok True ((ev_mem q' e)\<lparr>ev_flags := f (ev_flags (ev_mem q' e))\<rparr>)"
    using inv(5) [of e] assms(2-5) ev_core_sel [OF e]
    by (auto simp: ev_ok_def scheduled_def initialized_def flag_simps)
  moreover have "eq_rep (upd_flags e f q') ?bs" by (rule eq_rep_simps(1) [OF q'(2)])
  moreover have "only_ev e q (upd_flags e f q')" using oth by (simp add: only_ev_def)
  moreover have "eq_members (upd_flags e f q') ?bs = insert e (eq_members q bs)"
    using fr(3) by (simp add: eq_members_def set_bin_insert del: set_concat)
  ultimately have "eq_inv (upd_flags e f q') ?bs"
    using inv(2,3) fr(3) out(2) by (intro eq_invI [OF _ assms(1), of _ _ e]) (simp_all add: set_bin_insert del: set_concat)
  then show ?thesis using q'(1) oth ev_core_sel(1) [OF e] fr(2,3) by simp
qed

lemma schedule_inv:
  assumes "eq_inv q bs" "\<not> scheduled (ev_mem q e)" "ev_live (ev_mem q e)" "initialized (ev_mem q e)" "eq_curTick q \<le> t"
  shows "\<exists>q'. eq_schedule e t False q = Some (Inr q') \<and> eq_inv q' (bin_insert (bkey (ev_mem (setWhen e t q))) e bs) \<and>
    only_ev e q q' \<and> ev_when (ev_mem q' e) = t \<and> eq_curTick q' = eq_curTick q \<and> async_queue q' = async_queue q"
proof -
  have "e \<notin> eq_members q bs" using eq_invD(6) [OF assms(1)] assms(2) by blast
  from insert_inv [OF assms(1) this assms(3,4), of "\<lambda>f. setFlags f EV_Scheduled" t]
  obtain q' where "eq_insert e (setWhen e t q) = Some q'"
    "eq_inv (upd_flags e (\<lambda>f. setFlags f EV_Scheduled) q') (bin_insert (bkey (ev_mem (setWhen e t q))) e bs)"
    "only_ev e q q'" "ev_when (ev_mem q' e) = t" "eq_curTick q' = eq_curTick q" "async_queue q' = async_queue q" by blast
  then show ?thesis using assms(2-5)
    by (intro exI [of _ "upd_flags e (\<lambda>f. setFlags f EV_Scheduled) q'"]) (simp add: eq_schedule_def eq_op_defs Let_def only_ev_def)
qed

lemma schedule_async_inv:
  assumes "eq_inv q bs" "eq_schedule e t True q = Some (Inr q')"
  shows "eq_inv q' bs"
proof -
  have g: "ev_live (ev_mem q e)" "\<not> scheduled (ev_mem q e)" "initialized (ev_mem q e)"
    using assms(2) by (auto simp: eq_schedule_def eq_op_defs split: if_splits)
  then have q': "q' = upd_flags e (\<lambda>f. setFlags f EV_Scheduled) ((setWhen e t q)\<lparr>async_queue := async_queue q @ [e]\<rparr>)"
    using assms(2) by (auto simp: eq_schedule_def eq_op_defs Let_def split: if_splits)
  note inv = eq_invD [OF assms(1)]
  have out: "e \<notin> eq_members q bs" using inv(6) g(2) by blast
  then have "e \<notin> set (concat bs)" "e \<notin> set (async_queue q)" by (auto simp: eq_members_def)
  moreover have "ev_ok True ((ev_mem q e)\<lparr>ev_when := t, ev_flags := setFlags (ev_flags (ev_mem q e)) EV_Scheduled\<rparr>)"
    using inv(5) [of e] out g by (auto simp: ev_ok_def scheduled_def initialized_def flag_simps)
  ultimately show ?thesis
    using inv(1-3) unfolding q'
    by (intro eq_invI [OF _ assms(1), of _ _ e] eq_rep_simps) (auto simp: only_ev_def eq_members_def)
qed

lemma remove_inv:
  assumes "eq_inv q bs" "e \<in> set (concat bs)"
  shows "\<exists>q'. eq_remove e q = Some (Inr q') \<and> eq_inv (upd_flags e (\<lambda>f. clearFlags (clearFlags f EV_Squashed) EV_Scheduled) q') (bin_remove e bs) \<and>
    eq_inv (upd_flags e (\<lambda>f. clearFlags f EV_Scheduled) q') (bin_remove e bs) \<and> eq_frame q q'"
proof -
  note inv = eq_invD [OF assms(1)]
  obtain q' where q': "eq_remove e q = Some (Inr q')" "eq_rep q' (bin_remove e bs)" "eq_frame q q'"
    using eq_remove_rep [OF inv(1) assms(2)] by blast
  note fr = eq_frameD [OF q'(3)]
  have st: "set (concat (bin_remove e bs)) = set (concat bs) - {e}" by (rule set_bin_remove [OF inv(4)])
  have "e \<notin> set (async_queue q)" using inv(3) assms(2) by (auto simp: disjoint_iff)
  then have mem: "eq_members q' (bin_remove e bs) = eq_members q bs - {e}" using st fr(3) by (auto simp: eq_members_def)
  have *: "eq_inv (upd_flags e f q') (bin_remove e bs)"
    if "ev_ok False ((ev_mem q' e)\<lparr>ev_flags := f (ev_flags (ev_mem q' e))\<rparr>)" for f
  proof (rule eq_invI [OF eq_rep_simps(1) [OF q'(2)] assms(1), of e])
    show "only_ev e q (upd_flags e f q')" using fr(1) by (simp add: only_ev_def)
    show "set (concat (bin_remove e bs)) \<inter> set (async_queue (upd_flags e f q')) = {}" unfolding st using inv(3) fr(3) by auto
    have "eq_members (upd_flags e f q') (bin_remove e bs) = eq_members q bs - {e}" using mem by (simp add: eq_members_def)
    then show "eq_members (upd_flags e f q') (bin_remove e bs) - {e} = eq_members q bs - {e}"
      "ev_ok (e \<in> eq_members (upd_flags e f q') (bin_remove e bs)) (ev_mem (upd_flags e f q') e)" using that by simp_all
  qed (use inv(2) fr(3) in simp)
  have "ev_ok True (ev_mem q' e)"
    using inv(5) [of e] assms(2) ev_ok_core [OF fr(1) [of e]] by (simp add: eq_members_def del: set_concat)
  then show ?thesis using q' * ev_ok_flags by (auto simp: ev_ok_def scheduled_def flag_simps)
qed

lemma release_inv:
  assumes "eq_inv q bs"
  shows "eq_inv (release e q) bs"
proof (rule eq_invI [OF eq_rep_simps(2) [OF eq_invD(1) [OF assms]] assms, of e])
  show "ev_ok (e \<in> eq_members (release e q) bs) (ev_mem (release e q) e)"
    using eq_invD(5) [OF assms, of e]
    by (auto simp: release_def ev_ok_def eq_members_def scheduled_def initialized_def split: if_splits)
qed (use eq_invD [OF assms] in \<open>simp_all add: only_ev_def eq_members_def\<close>)

lemma deschedule_inv:
  assumes "eq_inv q bs" "e \<in> set (concat bs)"
  shows "\<exists>q'. eq_deschedule e q = Some (Inr q') \<and> eq_inv q' (bin_remove e bs) \<and> only_ev e q q' \<and> eq_curTick q' = eq_curTick q"
proof -
  let ?f = "\<lambda>f. clearFlags (clearFlags f EV_Squashed) EV_Scheduled"
  obtain q' where q': "eq_remove e q = Some (Inr q')" "eq_inv (upd_flags e ?f q') (bin_remove e bs)" "eq_frame q q'"
    using remove_inv [OF assms] by blast
  have "ev_ok True (ev_mem q e)" using eq_invD(5) [OF assms(1), of e] assms(2) by (simp add: eq_members_def del: set_concat)
  then have "eq_deschedule e q = Some (Inr (release e (upd_flags e ?f q')))"
    using q'(1) by (simp add: eq_deschedule_def eq_op_defs ev_ok_def)
  moreover have "only_ev e q (release e (upd_flags e ?f q'))" using eq_frameD(1) [OF q'(3)] by (simp add: only_ev_def)
  ultimately show ?thesis using release_inv [OF q'(2)] eq_frameD(2) [OF q'(3)] by simp
qed

lemma deschedule_absent: "eq_inv q bs \<Longrightarrow> e \<notin> set (concat bs) \<Longrightarrow> eq_deschedule e q \<noteq> Some (Inr q')"
  using eq_remove_absent [OF eq_invD(1)] by (auto simp: eq_deschedule_def eq_op_defs split: if_splits)

text \<open>Rescheduling: out of the bins if it is in one, and in again at the new time.\<close>

lemma initialized_flags [simp]:
  "initialized (v\<lparr>ev_flags := clearFlags (ev_flags v) EV_Scheduled\<rparr>) = initialized v"
  by (simp add: initialized_def)

lemma reschedule_inv:
  assumes "eq_inv q bs" "eq_reschedule e t al q = Some (Inr q')"
  shows "\<exists>bs'. eq_inv q' bs' \<and> set (concat bs') = insert e (set (concat bs)) \<and> only_ev e q q' \<and>
    ev_when (ev_mem q' e) = t \<and> eq_curTick q' = eq_curTick q \<and> async_queue q' = async_queue q"
proof -
  let ?f = "\<lambda>f. setFlags (clearFlags f EV_Squashed) EV_Scheduled" and ?g = "\<lambda>f. clearFlags f EV_Scheduled"
  have g: "ev_live (ev_mem q e)" "initialized (ev_mem q e)"
    using assms(2) by (auto simp: eq_reschedule_def eq_op_defs split: if_splits)
  show ?thesis
  proof (cases "scheduled (ev_mem q e)")
    case False
    then have out: "e \<notin> eq_members q bs" using eq_invD(6) [OF assms(1)] by blast
    obtain r where r: "eq_insert e (setWhen e t q) = Some r"
      "eq_inv (upd_flags e ?f r) (bin_insert (bkey (ev_mem (setWhen e t q))) e bs)" "only_ev e q r"
      "ev_when (ev_mem r e) = t" "eq_curTick r = eq_curTick q" "async_queue r = async_queue q"
      using insert_inv [OF assms(1) out g, of ?f t] by blast
    then have "q' = upd_flags e ?f r" using assms(2) False by (auto simp: eq_reschedule_def eq_op_defs split: if_splits)
    then show ?thesis using r(2-) by (intro exI) (auto simp: set_bin_insert only_ev_def simp del: set_concat)
  next
    case True
    then have in_bin: "e \<in> set (concat bs)"
      using assms(2) eq_remove_absent [OF eq_invD(1) [OF assms(1)], of e]
      by (rule_tac ccontr) (auto simp: eq_reschedule_def eq_op_defs split: if_splits)
    obtain q1 where q1: "eq_remove e q = Some (Inr q1)" "eq_inv (upd_flags e ?g q1) (bin_remove e bs)" "eq_frame q q1"
      using remove_inv [OF assms(1) in_bin] by blast
    note fr = eq_frameD [OF q1(3)] and core = ev_core_sel [OF eq_frameD(1) [OF q1(3), of e]]
    let ?q1 = "upd_flags e ?g q1"
    have ok: "ev_ok True (ev_mem q e)" using eq_invD(5) [OF assms(1), of e] in_bin by (simp add: eq_members_def del: set_concat)
    have q1rep: "eq_rep q1 (bin_remove e bs)" using eq_remove_rep [OF eq_invD(1) [OF assms(1)] in_bin] q1(1) by auto
    have st: "set (concat (bin_remove e bs)) = set (concat bs) - {e}" by (rule set_bin_remove [OF eq_invD(4) [OF assms(1)]])
    then have out: "e \<notin> set (concat (bin_remove e bs))" by simp
    obtain r where r: "eq_insert e (setWhen e t q1) = Some r" "eq_rep r (bin_insert (bkey (ev_mem (setWhen e t q1))) e (bin_remove e bs))"
      "eq_frame (setWhen e t q1) r"
      using eq_insert_rep [OF eq_rep_simps(3) [OF q1rep out] out] by blast
    let ?bs = "bin_insert (bkey (ev_mem (setWhen e t q1))) e (bin_remove e bs)"
    have q': "q' = upd_flags e ?f r" using assms(2) True q1(1) r(1) by (auto simp: eq_reschedule_def eq_op_defs split: if_splits)
    have re: "ev_core (ev_mem r e) = ev_core ((ev_mem q1 e)\<lparr>ev_when := t\<rparr>)" using eq_frameD(1) [OF r(3), of e] by simp
    have set: "set (concat ?bs) = set (concat bs)" unfolding set_bin_insert st using in_bin by blast
    have oth: "only_ev e q q'" using fr(1) eq_frameD(1) [OF r(3)] unfolding q' by (simp add: only_ev_def)
    have as: "async_queue q' = async_queue q" using eq_frameD(3) [OF r(3)] fr(3) q' by simp
    have mem: "eq_members q' ?bs = eq_members q bs" using set as by (simp add: eq_members_def)
    have "ev_ok True (ev_mem q' e)"
      using ok core ev_core_sel [OF re] unfolding q' by (auto simp: ev_ok_def scheduled_def initialized_def flag_simps)
    moreover have "e \<in> eq_members q bs" using in_bin by (simp add: eq_members_def)
    ultimately have "eq_inv q' ?bs"
      using eq_rep_simps(1) [OF r(2), of e ?f] oth as mem set eq_invD(2,3) [OF assms(1)]
      by (intro eq_invI [OF _ assms(1), of _ _ e]) (simp_all add: q')
    then show ?thesis using set oth as in_bin ev_core_sel(1) [OF re] eq_frameD(2) [OF r(3)] fr(2)
      by (intro exI [of _ ?bs]) (auto simp: q' simp del: set_concat)
  qed
qed

text \<open>Taking the first event.\<close>

lemma service_pop_inv:
  assumes "eq_inv q (b # bs)"
  shows "\<exists>q'. service_pop q = Inr (hd b, q') \<and> eq_inv q' (bin_remove (hd b) (b # bs)) \<and> only_ev (hd b) q q' \<and>
    async_queue q' = async_queue q \<and>
    eq_curTick q' = (if squashed (ev_mem q (hd b)) then eq_curTick q else ev_when (ev_mem q (hd b)))"
proof -
  let ?e = "hd b" and ?f = "\<lambda>f. clearFlags f EV_Scheduled"
  have h: "eq_head q = Some ?e" "b \<noteq> []" using eq_invD(1) [OF assms] by (cases b; auto simp: eq_rep_def)+
  then have inb: "?e \<in> set (concat (b # bs))" by simp
  let ?q = "upd_flags ?e ?f q"
  obtain r where r: "eq_remove ?e ?q = Some (Inr r)" "eq_rep r (bin_remove ?e (b # bs))" "eq_frame ?q r"
    using eq_remove_rep [OF eq_rep_simps(1) [OF eq_invD(1) [OF assms]] inb] by blast
  note fr = eq_frameD [OF r(3)]
  have sq: "squashed (ev_mem ?q ?e) = squashed (ev_mem q ?e)" by (simp add: squashed_def flag_simps)
  let ?q' = "if squashed (ev_mem q ?e) then r else r\<lparr>eq_curTick := ev_when (ev_mem q ?e)\<rparr>"
  have "service_pop q = Inr (?e, ?q')"
    using r(1) h sq by (auto simp: service_pop_def eq_remove_def removeItem_def rbind_def Let_def ev_eq_def split: option.splits)
  moreover have "ev_core (ev_mem ?q' x) = ev_core (ev_mem ?q x)" "async_queue ?q' = async_queue q" for x using fr(1,3) by simp_all
  note core = this
  have st: "set (concat (bin_remove ?e (b # bs))) = set (concat (b # bs)) - {?e}" by (rule set_bin_remove [OF eq_invD(4) [OF assms]])
  have na: "?e \<notin> set (async_queue q)" using eq_invD(3) [OF assms] inb by (auto simp: disjoint_iff)
  have "eq_inv ?q' (bin_remove ?e (b # bs))"
  proof (rule eq_invI [OF _ assms, of _ _ ?e])
    show "eq_rep ?q' (bin_remove ?e (b # bs))" using r(2) eq_rep_simps(4) by simp
    show "only_ev ?e q ?q'" using core(1) by (simp add: only_ev_def)
    show "set (concat (bin_remove ?e (b # bs))) \<inter> set (async_queue ?q') = {}" unfolding st core(2) using eq_invD(3) [OF assms] by auto
    show m: "eq_members ?q' (bin_remove ?e (b # bs)) - {?e} = eq_members q (b # bs) - {?e}" unfolding eq_members_def st core(2) by auto
    have "ev_ok False (ev_mem ?q ?e)" using ev_ok_flags(2) [OF eq_invD(5) [OF assms, of ?e]] by simp
    then show "ev_ok (?e \<in> eq_members ?q' (bin_remove ?e (b # bs))) (ev_mem ?q' ?e)"
      using ev_ok_core [OF core(1) [of ?e]] na unfolding eq_members_def st core(2) by simp
  qed (use eq_invD(2) [OF assms] core(2) in simp)
  moreover have "only_ev ?e q ?q'" using core(1) by (simp add: only_ev_def)
  ultimately show ?thesis using core(2) fr(2) by auto
qed

text \<open>Moving the asynchronous events into the bins.\<close>

lemma async_fold:
  assumes "eq_rep q bs" "distinct as" "set (concat bs) \<inter> set as = {}"
  shows "\<exists>q'. fold (\<lambda>e r. Option.bind r (eq_insert e)) as (Some q) = Some q' \<and>
    eq_rep q' (fold (bin_insert (bkey (ev_mem q))) as bs) \<and> eq_frame q q'"
  using assms
proof (induction as arbitrary: q bs)
  case Nil
  then show ?case by (simp add: eq_frame_def)
next
  case (Cons e as)
  have e: "e \<notin> set (concat bs)" using Cons.prems(3) by auto
  obtain q1 where q1: "eq_insert e q = Some q1" "eq_rep q1 (bin_insert (bkey (ev_mem q)) e bs)" "eq_frame q q1"
    using eq_insert_rep [OF Cons.prems(1) e] by blast
  have k: "bkey (ev_mem q1) = bkey (ev_mem q)" by (rule bkey_core) (use q1(3) in \<open>simp add: eq_frame_def\<close>)
  have "set (concat (bin_insert (bkey (ev_mem q)) e bs)) \<inter> set as = {}"
    unfolding set_bin_insert using Cons.prems(2,3) by auto
  from Cons.IH [OF q1(2) _ this] obtain q' where
    "fold (\<lambda>e r. Option.bind r (eq_insert e)) as (Some q1) = Some q'"
    "eq_rep q' (fold (bin_insert (bkey (ev_mem q))) as (bin_insert (bkey (ev_mem q)) e bs))" "eq_frame q1 q'"
    using Cons.prems(2) k by auto
  then show ?case using q1 by (simp add: eq_frame_def)
qed

lemma set_fold_insert: "set (concat (fold (bin_insert k) as bs)) = set (concat bs) \<union> set as"
  by (induction as arbitrary: bs) (auto simp: set_bin_insert simp del: set_concat)

lemma async_inv:
  assumes "eq_inv q bs"
  shows "\<exists>q'. handleAsyncInsertions q = Some q' \<and> eq_inv q' (fold (bin_insert (bkey (ev_mem q))) (async_queue q) bs) \<and>
    async_queue q' = [] \<and> eq_curTick q' = eq_curTick q \<and> (\<forall>x. ev_core (ev_mem q' x) = ev_core (ev_mem q x))"
proof -
  let ?bs = "fold (bin_insert (bkey (ev_mem q))) (async_queue q) bs"
  obtain r where r: "fold (\<lambda>e r. Option.bind r (eq_insert e)) (async_queue q) (Some q) = Some r" "eq_rep r ?bs" "eq_frame q r"
    using async_fold [OF eq_invD(1-3) [OF assms]] by blast
  note fr = eq_frameD [OF r(3)]
  have mem: "eq_members (r\<lparr>async_queue := []\<rparr>) ?bs = eq_members q bs" unfolding eq_members_def set_fold_insert by simp
  have "eq_inv (r\<lparr>async_queue := []\<rparr>) ?bs"
    using eq_invD(5) [OF assms] mem ev_ok_core [OF fr(1)] eq_rep_simps(5) [OF r(2)] unfolding eq_inv_def by simp
  then show ?thesis using r(1) fr by (simp add: handleAsyncInsertions_def)
qed

section \<open>Steps\<close>

text \<open>
  What can happen to a queue: events are created, scheduled, moved, removed and squashed, the first
  event is taken, and an event is released after its action.  The steps of the action itself come in
  between.  Asynchronous insertions occur in parallel mode only.
\<close>

inductive eq_step :: "bool \<Rightarrow> event_queue \<Rightarrow> event_queue \<Rightarrow> bool" for par where
  new: "\<not> scheduled (ev_mem q e) \<Longrightarrow> Event_new p f = Inr v \<Longrightarrow> eq_step par q (q\<lparr>ev_mem := (ev_mem q)(e := v)\<rparr>)"
| schedule: "eq_schedule e t False q = Some (Inr q') \<Longrightarrow> eq_step par q q'"
| schedule_async: "par \<Longrightarrow> eq_schedule e t True q = Some (Inr q') \<Longrightarrow> eq_step par q q'"
| deschedule: "eq_deschedule e q = Some (Inr q') \<Longrightarrow> eq_step par q q'"
| reschedule: "eq_reschedule e t al q = Some (Inr q') \<Longrightarrow> eq_step par q q'"
| squash: "eq_step par q (q\<lparr>ev_mem := (ev_mem q)(e := squash (ev_mem q e))\<rparr>)"
| pop: "service_pop q = Inr (e, q') \<Longrightarrow> eq_step par q q'"
| skip: "eq_step par q (release e (upd_flags e (\<lambda>f. clearFlags f EV_Squashed) q))"
| finish: "service_end e q = Inr (r, q') \<Longrightarrow> eq_step par q q'"
| advance: "eq_curTick q \<le> t \<Longrightarrow> (case eq_head q of None \<Rightarrow> True | Some h \<Rightarrow> t < ev_when (ev_mem q h)) \<Longrightarrow>
    eq_step par q (q\<lparr>eq_curTick := t\<rparr>)"
| async: "par \<Longrightarrow> handleAsyncInsertions q = Some q' \<Longrightarrow> eq_step par q q'"

inductive eq_reach :: "bool \<Rightarrow> event_queue \<Rightarrow> bool" for par where
  init: "(\<And>e. \<not> scheduled (m e) \<and> \<not> isSet (ev_flags (m e)) EV_IsMainQueue) \<Longrightarrow> eq_reach par (EventQueue_new m)"
| step: "eq_reach par q \<Longrightarrow> eq_step par q q' \<Longrightarrow> eq_reach par q'"

text \<open>Without asynchronous insertions no event in the bins is in the past.\<close>

definition time_ok :: "event_queue \<Rightarrow> eptr list list \<Rightarrow> bool" where
  "time_ok q bs \<longleftrightarrow> async_queue q = [] \<and> (\<forall>e\<in>set (concat bs). eq_curTick q \<le> ev_when (ev_mem q e))"

definition state_ok :: "bool \<Rightarrow> event_queue \<Rightarrow> eptr list list \<Rightarrow> bool" where
  "state_ok par q bs \<longleftrightarrow> eq_inv q bs \<and> (\<not> par \<longrightarrow> time_ok q bs)"

lemma time_ok_step:
  assumes "time_ok q bs" "only_ev e q q'" "async_queue q' = async_queue q" "eq_curTick q' = eq_curTick q"
    "set (concat bs') - {e} \<subseteq> set (concat bs)" "e \<in> set (concat bs') \<Longrightarrow> eq_curTick q \<le> ev_when (ev_mem q' e)"
  shows "time_ok q' bs'"
  unfolding time_ok_def
proof (intro conjI ballI)
  fix x assume x: "x \<in> set (concat bs')"
  show "eq_curTick q' \<le> ev_when (ev_mem q' x)"
  proof (cases "x = e")
    case False
    then have "ev_when (ev_mem q' x) = ev_when (ev_mem q x)" using assms(2) ev_core_sel(1) by (metis only_ev_def)
    moreover have "x \<in> set (concat bs)" using assms(5) x False by blast
    ultimately show ?thesis using assms(1,4) by (simp add: time_ok_def del: set_concat)
  qed (use assms x in simp)
qed (use assms in \<open>simp add: time_ok_def\<close>)

text \<open>The head of the first bin has the least key.\<close>

lemma head_least:
  assumes "bins_ok m (b # bs)" "x \<in> set (concat (b # bs))"
  shows "bkey m (hd b) \<le> bkey m x"
proof -
  obtain c where c: "c \<in> set (b # bs)" "x \<in> set c" using assms(2) by auto
  then have "bkey m x = bkey m (hd c)" using assms(1) one_keyD [of m c x] by (auto simp: bins_ok_def)
  moreover have "c = b \<or> bkey m (hd b) < bkey m (hd c)" using c(1) assms(1) by (auto simp: bins_ok_def)
  ultimately show ?thesis by auto
qed

lemma head_when: "bins_ok m (b # bs) \<Longrightarrow> x \<in> set (concat (b # bs)) \<Longrightarrow> ev_when (m (hd b)) \<le> ev_when (m x)"
  using head_least [of m b bs x] by (auto simp: bkey_def ev_key_def less_eq_prod_def simp del: set_concat)

lemma Event_new_ok:
  assumes "Event_new p f = Inr v"
  shows "ev_ok False v"
proof -
  have f: "f AND NOT EV_PublicWrite = 0" using assms by (auto simp: Event_new_def noneSet_def split: if_splits)
  have "f AND m = 0" if "NOT EV_PublicWrite AND m = m" for m
  proof -
    have "f AND (NOT EV_PublicWrite AND m) = (f AND NOT EV_PublicWrite) AND m" by (rule and.assoc [symmetric])
    then show ?thesis unfolding f that by simp
  qed
  from this [of EV_Scheduled] this [of EV_IsMainQueue]
  show ?thesis using assms
    by (auto simp: Event_new_def ev_ok_def scheduled_def isSet_def bit.conj_disj_distrib2 or_eq_0_iff split: if_splits)
qed

text \<open>A change of one event that stays inside or outside the bins.\<close>

lemma state_ok_upd:
  assumes "state_ok par q bs" "only_ev e q q'" "eq_head q' = eq_head q" "async_queue q' = async_queue q" "eq_curTick q' = eq_curTick q"
    "\<And>x. x \<in> set (concat bs) \<Longrightarrow> nextBin (ev_mem q' x) = nextBin (ev_mem q x) \<and> nextInBin (ev_mem q' x) = nextInBin (ev_mem q x) \<and>
       bkey (ev_mem q') x = bkey (ev_mem q) x"
    "ev_ok (e \<in> eq_members q bs) (ev_mem q' e)"
  shows "state_ok par q' bs"
proof -
  have inv: "eq_inv q bs" using assms(1) by (simp add: state_ok_def)
  have "eq_inv q' bs"
    using eq_rep_upd [OF eq_invD(1) [OF inv] assms(3,6)] assms(2,4,7) eq_invD(2,3) [OF inv]
    by (intro eq_invI [OF _ inv, of _ _ e]) (simp_all add: eq_members_def)
  moreover have "time_ok q' bs" if "time_ok q bs"
  proof (rule time_ok_step [OF that assms(2,4,5)])
    show "eq_curTick q \<le> ev_when (ev_mem q' e)" if "e \<in> set (concat bs)"
      using assms(6) [OF that] \<open>time_ok q bs\<close> that by (auto simp: time_ok_def bkey_def ev_key_def)
  qed blast
  ultimately show ?thesis using assms(1) by (simp add: state_ok_def)
qed

lemma state_ok_new:
  assumes "state_ok par q bs" "\<not> scheduled (ev_mem q e)" "Event_new p f = Inr v"
  shows "state_ok par (q\<lparr>ev_mem := (ev_mem q)(e := v)\<rparr>) bs"
proof -
  have "e \<notin> eq_members q bs" using assms(1,2) eq_invD(6) by (auto simp: state_ok_def)
  then show ?thesis using Event_new_ok [OF assms(3)]
    by (intro state_ok_upd [OF assms(1), of e]) (auto simp: only_ev_def eq_members_def bkey_def)
qed

lemma state_ok_squash:
  assumes "state_ok par q bs"
  shows "state_ok par (q\<lparr>ev_mem := (ev_mem q)(e := squash (ev_mem q e))\<rparr>) bs"
proof -
  have "ev_ok (e \<in> eq_members q bs) (squash (ev_mem q e))"
    using assms ev_ok_flags(4) [OF eq_invD(5)] by (simp add: state_ok_def squash_def)
  then show ?thesis
    by (intro state_ok_upd [OF assms, of e]) (auto simp: only_ev_def bkey_def ev_key_def squash_def)
qed

lemma state_ok_release:
  assumes "state_ok par q bs"
  shows "state_ok par (release e q) bs"
proof -
  have "eq_inv (release e q) bs" using assms release_inv by (simp add: state_ok_def)
  from eq_invD(5) [OF this, of e] show ?thesis
    by (intro state_ok_upd [OF assms, of e]) (auto simp: only_ev_def bkey_def ev_key_def eq_members_def)
qed

lemma state_ok_clear:
  assumes "state_ok par q bs"
  shows "state_ok par (upd_flags e (\<lambda>f. clearFlags f EV_Squashed) q) bs"
proof -
  have "ev_ok (e \<in> eq_members q bs) ((ev_mem q e)\<lparr>ev_flags := clearFlags (ev_flags (ev_mem q e)) EV_Squashed\<rparr>)"
    using assms ev_ok_flags(3) [OF eq_invD(5)] by (simp add: state_ok_def)
  then show ?thesis
    by (intro state_ok_upd [OF assms, of e]) (auto simp: only_ev_def bkey_def ev_key_def)
qed

lemma state_ok_end: "state_ok par q bs \<Longrightarrow> service_end e q = Inr (r, q') \<Longrightarrow> state_ok par q' bs"
  using state_ok_release by (auto simp: service_end_def sassert_def split: if_splits)

lemma state_ok_schedule:
  assumes "state_ok par q bs" "eq_schedule e t False q = Some (Inr q')"
  shows "state_ok par q' (bin_insert (bkey (ev_mem (setWhen e t q))) e bs)"
proof -
  have g: "\<not> scheduled (ev_mem q e)" "ev_live (ev_mem q e)" "initialized (ev_mem q e)" "eq_curTick q \<le> t"
    using assms(2) by (auto simp: eq_schedule_def eq_op_defs split: if_splits)
  have inv: "eq_inv q bs" using assms(1) by (simp add: state_ok_def)
  from schedule_inv [OF inv g] assms(2)
  have q': "eq_inv q' (bin_insert (bkey (ev_mem (setWhen e t q))) e bs)" "only_ev e q q'" "ev_when (ev_mem q' e) = t"
    "eq_curTick q' = eq_curTick q" "async_queue q' = async_queue q" by auto
  then have "time_ok q' (bin_insert (bkey (ev_mem (setWhen e t q))) e bs)" if "time_ok q bs"
    using g(4) by (intro time_ok_step [OF that q'(2)]) (auto simp: set_bin_insert simp del: set_concat)
  then show ?thesis using assms(1) q'(1) by (simp add: state_ok_def)
qed

lemma state_ok_deschedule:
  assumes "state_ok par q bs" "eq_deschedule e q = Some (Inr q')"
  shows "state_ok par q' (bin_remove e bs)"
proof -
  have inv: "eq_inv q bs" using assms(1) by (simp add: state_ok_def)
  have e: "e \<in> set (concat bs)" using deschedule_absent [OF inv] assms(2) by blast
  from deschedule_inv [OF inv e] assms(2)
  have q': "eq_inv q' (bin_remove e bs)" "only_ev e q q'" "eq_curTick q' = eq_curTick q" by auto
  have "async_queue q' = async_queue q"
    using assms(2) eq_remove_rep [OF eq_invD(1) [OF inv] e]
    by (auto simp: eq_deschedule_def eq_op_defs eq_frame_def split: if_splits)
  then have "time_ok q' (bin_remove e bs)" if "time_ok q bs"
    using q' by (intro time_ok_step [OF that q'(2)]) (auto simp: set_bin_remove [OF eq_invD(4) [OF inv]] simp del: set_concat)
  then show ?thesis using assms(1) q'(1) by (simp add: state_ok_def)
qed

lemma state_ok_reschedule:
  assumes "state_ok par q bs" "eq_reschedule e t al q = Some (Inr q')"
  shows "\<exists>bs'. state_ok par q' bs' \<and> set (concat bs') = insert e (set (concat bs))"
proof -
  have inv: "eq_inv q bs" using assms(1) by (simp add: state_ok_def)
  have t: "eq_curTick q \<le> t" using assms(2) by (auto simp: eq_reschedule_def eq_op_defs split: if_splits)
  obtain bs' where q': "eq_inv q' bs'" "set (concat bs') = insert e (set (concat bs))" "only_ev e q q'"
    "ev_when (ev_mem q' e) = t" "eq_curTick q' = eq_curTick q" "async_queue q' = async_queue q"
    using reschedule_inv [OF inv assms(2)] by blast
  have "time_ok q' bs'" if "time_ok q bs"
    using q' t by (intro time_ok_step [OF that q'(3)]) (auto simp del: set_concat)
  then show ?thesis using assms(1) q'(1,2) by (auto simp: state_ok_def)
qed

lemma state_ok_pop:
  assumes "state_ok par q bs" "service_pop q = Inr (e, q')"
  shows "state_ok par q' (bin_remove e bs) \<and> (\<not> par \<longrightarrow> eq_curTick q \<le> eq_curTick q')"
proof -
  have inv: "eq_inv q bs" using assms(1) by (simp add: state_ok_def)
  have "eq_head q \<noteq> None" using assms(2) by (auto simp: service_pop_def split: option.splits)
  then obtain b cs where bs: "bs = b # cs" using eq_invD(1) [OF inv] by (cases bs) (auto simp: eq_rep_def)
  from service_pop_inv [OF inv [unfolded bs]] assms(2)
  have q': "e = hd b" "eq_inv q' (bin_remove e bs)" "only_ev e q q'" "async_queue q' = async_queue q"
    "eq_curTick q' = (if squashed (ev_mem q e) then eq_curTick q else ev_when (ev_mem q e))" by (auto simp: bs)
  have ok: "bins_ok (ev_mem q) (b # cs)" using eq_invD(1) [OF inv] bs by (simp add: eq_rep_def)
  have e: "e \<in> set (concat bs)" using ok q'(1) by (simp add: bs bins_ok_def)
  have "time_ok q' (bin_remove e bs) \<and> eq_curTick q \<le> eq_curTick q'" if t: "time_ok q bs"
  proof
    show "eq_curTick q \<le> eq_curTick q'" using t e unfolding q'(5) time_ok_def by auto
    have "eq_curTick q' \<le> ev_when (ev_mem q' x)" if x: "x \<in> set (concat bs) - {e}" for x
    proof -
      have "ev_when (ev_mem q' x) = ev_when (ev_mem q x)" using q'(3) x ev_core_sel(1) by (metis only_ev_def Diff_iff singletonI)
      moreover have "ev_when (ev_mem q e) \<le> ev_when (ev_mem q x)" using head_when [OF ok] x q'(1) bs by blast
      moreover have "eq_curTick q \<le> ev_when (ev_mem q x)" using t x unfolding time_ok_def by blast
      ultimately show ?thesis using q'(5) by simp
    qed
    then show "time_ok q' (bin_remove e bs)"
      using t q'(4) unfolding time_ok_def set_bin_remove [OF eq_invD(4) [OF inv]] by (simp del: set_concat)
  qed
  then show ?thesis using assms(1) q'(2) by (auto simp: state_ok_def)
qed

lemma state_ok_advance:
  assumes "state_ok par q bs" "case eq_head q of None \<Rightarrow> True | Some h \<Rightarrow> t < ev_when (ev_mem q h)"
  shows "state_ok par (q\<lparr>eq_curTick := t\<rparr>) bs"
proof -
  have inv: "eq_inv q bs" using assms(1) by (simp add: state_ok_def)
  have "t \<le> ev_when (ev_mem q x)" if x: "x \<in> set (concat bs)" for x
  proof (cases bs)
    case (Cons b cs)
    then have ok: "bins_ok (ev_mem q) (b # cs)" "eq_head q = Some (hd b)"
      using eq_invD(1) [OF inv] by (cases b; auto simp: eq_rep_def)+
    have "ev_when (ev_mem q (hd b)) \<le> ev_when (ev_mem q x)" using head_when [OF ok(1)] x Cons by blast
    moreover have "t < ev_when (ev_mem q (hd b))" using assms(2) ok(2) by simp
    ultimately show ?thesis by simp
  qed (use x in simp)
  then have "time_ok (q\<lparr>eq_curTick := t\<rparr>) bs" if "time_ok q bs" using that by (simp add: time_ok_def)
  moreover have "eq_inv (q\<lparr>eq_curTick := t\<rparr>) bs"
    using inv eq_rep_simps(4) [OF eq_invD(1) [OF inv]] by (simp add: eq_inv_def eq_members_def)
  ultimately show ?thesis using assms(1) by (simp add: state_ok_def)
qed

lemma state_ok_step:
  assumes "eq_step par q q'" "state_ok par q bs"
  shows "\<exists>bs'. state_ok par q' bs'"
  using assms(1)
proof cases
  case (new e p f v)
  then show ?thesis using state_ok_new [OF assms(2)] by blast
next
  case (schedule e t)
  then show ?thesis using state_ok_schedule [OF assms(2)] by blast
next
  case (schedule_async e t)
  then have "state_ok par q' bs" using schedule_async_inv [of q bs e t q'] assms(2) by (simp add: state_ok_def)
  then show ?thesis by blast
next
  case (deschedule e)
  then show ?thesis using state_ok_deschedule [OF assms(2)] by blast
next
  case (reschedule e t al)
  then show ?thesis using state_ok_reschedule [OF assms(2)] by blast
next
  case (squash e)
  then show ?thesis using state_ok_squash [OF assms(2)] by blast
next
  case (pop e)
  then show ?thesis using state_ok_pop [OF assms(2)] by blast
next
  case (skip e)
  then show ?thesis using state_ok_release [OF state_ok_clear [OF assms(2)]] by blast
next
  case (finish e r)
  then show ?thesis using state_ok_end [OF assms(2)] by blast
next
  case (advance t)
  then show ?thesis using state_ok_advance [OF assms(2)] by blast
next
  case async
  then show ?thesis using async_inv [of q bs] assms(2) by (auto simp: state_ok_def)
qed

lemma eq_reach_ok: "eq_reach par q \<Longrightarrow> \<exists>bs. state_ok par q bs"
proof (induction rule: eq_reach.induct)
  case (init m)
  have "state_ok par (EventQueue_new m) []"
    using init by (auto simp: state_ok_def eq_inv_def eq_rep_def EventQueue_new_def eq_members_def time_ok_def ev_ok_def)
  then show ?case by blast
next
  case (step q q')
  then show ?case using state_ok_step by blast
qed

section \<open>Running the queue\<close>

text \<open>
  Taking events one after the other, as a client of any queue that gives its events in the order of a
  list sorted by key.
\<close>

fun drain :: "('q \<Rightarrow> ('e \<times> 'q) option) \<Rightarrow> nat \<Rightarrow> 'q \<Rightarrow> 'e list" where
  "drain pop 0 q = []"
| "drain pop (Suc n) q = (case pop q of None \<Rightarrow> [] | Some (e, q') \<Rightarrow> e # drain pop n q')"

locale service_order =
  fixes pop :: "'q \<Rightarrow> ('e \<times> 'q) option"
    and view :: "'q \<Rightarrow> 'e list \<Rightarrow> bool"
    and key :: "'q \<Rightarrow> 'e \<Rightarrow> 'k :: linorder"
  assumes pop_Nil: "view q [] \<Longrightarrow> pop q = None"
    and pop_Cons: "view q (e # es) \<Longrightarrow> \<exists>q'. pop q = Some (e, q') \<and> view q' es \<and> (\<forall>x\<in>set es. key q' x = key q x)"
    and view_sorted: "view q es \<Longrightarrow> sorted (map (key q) es) \<and> distinct es"
begin

lemma drain_view: "view q es \<Longrightarrow> length es \<le> n \<Longrightarrow> drain pop n q = es"
proof (induction es arbitrary: q n)
  case Nil
  then show ?case by (cases n) (simp_all add: pop_Nil)
next
  case (Cons e es)
  then obtain n' where n: "n = Suc n'" by (cases n) auto
  obtain q' where "pop q = Some (e, q')" "view q' es" using pop_Cons [OF Cons.prems(1)] by blast
  then show ?case using Cons n by simp
qed

lemma drain_complete:
  assumes "view q es" "length es \<le> n"
  shows "set (drain pop n q) = set es \<and> distinct (drain pop n q) \<and> sorted (map (key q) (drain pop n q))"
  using drain_view [OF assms] view_sorted [OF assms(1)] by simp

end

definition eq_pop :: "event_queue \<Rightarrow> (eptr \<times> event_queue) option" where
  "eq_pop q = (case service_pop q of Inl _ \<Rightarrow> None | Inr r \<Rightarrow> Some r)"

definition eq_view :: "event_queue \<Rightarrow> eptr list \<Rightarrow> bool" where
  "eq_view q es \<longleftrightarrow> (\<exists>bs. eq_inv q bs \<and> es = concat bs)"

lemma bin_remove_hd: "bins_ok m ((e # b) # bs) \<Longrightarrow> concat (bin_remove e ((e # b) # bs)) = b @ concat bs"
proof -
  assume ok: "bins_ok m ((e # b) # bs)"
  have "bin_remove e ([] @ (e # b) # bs) = [] @ bin_without e (e # b) @ bs"
    using ok by (intro bin_remove_split) (auto simp: bins_ok_def)
  then show ?thesis by (simp add: bin_without_def)
qed

lemma bins_sorted: "bins_ok m bs \<Longrightarrow> sorted (map (bkey m) (concat bs))"
proof (induction bs)
  case (Cons b bs)
  have ok: "bins_ok m bs" "one_key m b" using Cons.prems by (auto simp: bins_ok_def)
  have "sorted (map (bkey m) b)"
    using one_keyD [OF ok(2)] by (auto simp: sorted_iff_nth_mono)
  moreover have "bkey m x \<le> bkey m y" if "x \<in> set b" "y \<in> set (concat bs)" for x y
    using head_least [OF Cons.prems, of y] one_keyD [OF ok(2) that(1)] that(2) by simp
  ultimately show ?case using Cons.IH [OF ok(1)] by (simp add: sorted_append del: set_concat)
qed simp

interpretation evq: service_order eq_pop eq_view "\<lambda>q. bkey (ev_mem q)"
proof
  fix q assume "eq_view q []"
  then obtain bs where "eq_inv q bs" "concat bs = []" by (auto simp: eq_view_def)
  then have "eq_head q = None" using eq_invD(1) [of q bs] by (cases bs) (auto simp: eq_rep_def)
  then show "eq_pop q = None" by (simp add: eq_pop_def service_pop_def)
next
  fix q e es assume "eq_view q (e # es)"
  then obtain bs where bs: "eq_inv q bs" "e # es = concat bs" by (auto simp: eq_view_def)
  then obtain b cs where c: "bs = (e # b) # cs" "es = b @ concat cs"
    using eq_invD(1) [OF bs(1)] by (cases bs; cases "hd bs") (auto simp: eq_rep_def)
  obtain q' where q': "service_pop q = Inr (e, q')" "eq_inv q' (bin_remove e bs)" "only_ev e q q'"
    using service_pop_inv [of q "e # b" cs] bs(1) c(1) by auto
  have "bins_ok (ev_mem q) ((e # b) # cs)" using eq_invD(1) [OF bs(1)] c(1) by (simp add: eq_rep_def)
  from bin_remove_hd [OF this] have v: "eq_view q' es" using q'(2) c unfolding eq_view_def by metis
  have "e \<notin> set es" using eq_invD(4) [OF bs(1)] c by simp
  then have "bkey (ev_mem q') x = bkey (ev_mem q) x" if "x \<in> set es" for x
    using q'(3) ev_core_sel [of "ev_mem q' x" "ev_mem q x"] that by (cases "x = e") (auto simp: only_ev_def bkey_def ev_key_def)
  then show "\<exists>q'. eq_pop q = Some (e, q') \<and> eq_view q' es \<and> (\<forall>x\<in>set es. bkey (ev_mem q') x = bkey (ev_mem q) x)"
    using q'(1) v by (simp add: eq_pop_def)
next
  fix q es assume "eq_view q es"
  then obtain bs where bs: "eq_inv q bs" "es = concat bs" by (auto simp: eq_view_def)
  then show "sorted (map (bkey (ev_mem q)) es) \<and> distinct es"
    using eq_invD(1,4) [OF bs(1)] bins_sorted by (simp add: eq_rep_def)
qed

text \<open>The events that a window up to a time has to service.\<close>

definition pending :: "tick \<Rightarrow> event_queue \<Rightarrow> eptr list list \<Rightarrow> eptr set" where
  "pending t q bs = {e \<in> set (concat bs). ev_when (ev_mem q e) \<le> t}"

text \<open>An action that returns and adds no event to the window; it may schedule later ones and remove any.\<close>

definition stays_ahead :: "(eptr \<Rightarrow> event_queue \<Rightarrow> event_queue res option) \<Rightarrow> tick \<Rightarrow> bool" where
  "stays_ahead process t \<longleftrightarrow> (\<forall>e q bs. eq_inv q bs \<longrightarrow>
     (\<exists>q' bs'. process e q = Some (Inr q') \<and> eq_inv q' bs' \<and> pending t q' bs' \<subseteq> pending t q bs))"

lemma serviceOne_pending:
  assumes "eq_inv q (b # bs)" "stays_ahead process t"
  shows "\<exists>r q' bs'. serviceOne process q = Some (Inr (r, q')) \<and> eq_inv q' bs' \<and> pending t q' bs' \<subseteq> pending t q (b # bs) - {hd b}"
proof -
  let ?e = "hd b"
  obtain q1 where q1: "service_pop q = Inr (?e, q1)" "eq_inv q1 (bin_remove ?e (b # bs))" "only_ev ?e q q1"
    using service_pop_inv [OF assms(1)] by blast
  have st: "set (concat (bin_remove ?e (b # bs))) = set (concat (b # bs)) - {?e}" by (rule set_bin_remove [OF eq_invD(4) [OF assms(1)]])
  have "ev_when (ev_mem q1 x) = ev_when (ev_mem q x)" if "x \<noteq> ?e" for x
    using q1(3) that ev_core_sel(1) by (metis only_ev_def)
  then have p1: "pending t q1 (bin_remove ?e (b # bs)) \<subseteq> pending t q (b # bs) - {?e}"
    unfolding pending_def st by auto
  show ?thesis
  proof (cases "squashed (ev_mem q1 ?e)")
    case True
    let ?q = "release ?e (upd_flags ?e (\<lambda>f. clearFlags f EV_Squashed) q1)"
    have "state_ok True ?q (bin_remove ?e (b # bs))"
      using q1(2) by (intro state_ok_release state_ok_clear) (simp add: state_ok_def)
    moreover have "pending t ?q (bin_remove ?e (b # bs)) = pending t q1 (bin_remove ?e (b # bs))" by (auto simp: pending_def)
    moreover have "serviceOne process q = Some (Inr (None, ?q))" using q1(1) True by (simp add: serviceOne_def rbind_def)
    ultimately show ?thesis using p1 by (auto simp: state_ok_def)
  next
    case False
    obtain q2 bs2 where q2: "process ?e q1 = Some (Inr q2)" "eq_inv q2 bs2" "pending t q2 bs2 \<subseteq> pending t q1 (bin_remove ?e (b # bs))"
      using assms(2) q1(2) unfolding stays_ahead_def by blast
    have "\<not> isSet (ev_flags (ev_mem q2 ?e)) EV_IsMainQueue" using eq_invD(5) [OF q2(2)] by (simp add: ev_ok_def)
    then have "\<exists>r q3. service_end ?e q2 = Inr (r, q3) \<and> (q3 = q2 \<or> q3 = release ?e q2)"
      by (cases "isExitEvent (ev_mem q2 ?e)") (simp_all add: service_end_def sassert_def)
    then obtain r q3 where q3: "service_end ?e q2 = Inr (r, q3)" "q3 = q2 \<or> q3 = release ?e q2" by blast
    have "state_ok True q3 bs2" by (rule state_ok_end [OF _ q3(1)]) (simp add: state_ok_def q2(2))
    moreover have "pending t q3 bs2 = pending t q2 bs2" using q3(2) by (auto simp: pending_def)
    moreover have "serviceOne process q = Some (Inr (r, q3))" using q1(1) False q2(1) q3(1) by (simp add: serviceOne_def rbind_def)
    ultimately show ?thesis using p1 q2(3) by (auto simp: state_ok_def)
  qed
qed

lemma finite_pending [simp]: "finite (pending t q bs)"
  by (simp add: pending_def)

lemma serviceEvents_run:
  assumes "stays_ahead process t" "eq_inv q bs"
  shows "\<exists>q' bs'. serviceEvents process t q = Some (Inr q') \<and> eq_inv q' bs' \<and> pending t q' bs' = {} \<and> eq_curTick q' = t"
  using assms(2)
proof (induction "card (pending t q bs)" arbitrary: q bs rule: less_induct)
  case less
  have curT: "eq_inv (q\<lparr>eq_curTick := t\<rparr>) bs"
    using less.prems eq_rep_simps(4) [OF eq_invD(1) [OF less.prems]] by (simp add: eq_inv_def eq_members_def)
  show ?case
  proof (cases bs)
    case Nil
    then have "eq_head q = None" using eq_invD(1) [OF less.prems] by (simp add: eq_rep_def)
    then have "serviceEvents process t q = Some (Inr (q\<lparr>eq_curTick := t\<rparr>))" by (subst serviceEvents.simps) simp
    then show ?thesis using curT Nil by (auto simp: pending_def)
  next
    case (Cons b cs)
    have ok: "bins_ok (ev_mem q) (b # cs)" "eq_head q = Some (hd b)" "b \<noteq> []"
      using eq_invD(1) [OF less.prems] Cons by (cases b; auto simp: eq_rep_def)+
    show ?thesis
    proof (cases "t < ev_when (ev_mem q (hd b))")
      case True
      have "pending t q bs = {}" using head_when [OF ok(1)] True Cons unfolding pending_def by (fastforce simp del: set_concat)
      moreover have "serviceEvents process t q = Some (Inr (q\<lparr>eq_curTick := t\<rparr>))"
        using ok(2) True by (subst serviceEvents.simps) simp
      ultimately show ?thesis using curT by (auto simp: pending_def)
    next
      case False
      obtain r q' bs' where q': "serviceOne process q = Some (Inr (r, q'))" "eq_inv q' bs'"
        "pending t q' bs' \<subseteq> pending t q bs - {hd b}"
        using serviceOne_pending [of q b cs process t] less.prems Cons assms(1) by auto
      have "hd b \<in> pending t q bs" using False ok(3) Cons by (auto simp: pending_def)
      then have "pending t q' bs' \<subset> pending t q bs" using q'(3) by blast
      then have lt: "card (pending t q' bs') < card (pending t q bs)" by (simp add: psubset_card_mono)
      have "serviceEvents process t q = serviceEvents process t q'"
        using ok(2) False q'(1) by (subst serviceEvents.simps) simp
      then show ?thesis using less.hyps [OF lt q'(2)] by simp
    qed
  qed
qed

section \<open>The check of the structure accepts the queue\<close>

lemma verify_stack_step:
  "verify_stack m None t pr seen = Some (Some (t, pr, seen))"
  "verify_stack m (Some e) t pr seen =
     (if bkey m e < (t, pr) \<or> e \<in> set seen then Some None
      else verify_stack m (nextInBin (m e)) (fst (bkey m e)) (snd (bkey m e)) (e # seen))"
  by (subst verify_stack.simps, simp add: bkey_def ev_key_def less_prod_def)+

lemma verify_bins_step:
  "verify_bins m None t pr seen = Some True"
  "verify_bins m (Some e) t pr seen = Option.bind (verify_stack m (Some e) t pr seen) (\<lambda>r. case r of None \<Rightarrow> Some False
     | Some (t, pr, seen) \<Rightarrow> verify_bins m (nextBin (m e)) t pr seen)"
proof -
  show "verify_bins m None t pr seen = Some True" by (subst verify_bins.simps) simp
  show "verify_bins m (Some e) t pr seen = Option.bind (verify_stack m (Some e) t pr seen) (\<lambda>r. case r of None \<Rightarrow> Some False
     | Some (t, pr, seen) \<Rightarrow> verify_bins m (nextBin (m e)) t pr seen)"
  proof (cases "verify_stack m (Some e) t pr seen")
    case None
    then show ?thesis by (subst verify_bins.simps) simp
  next
    case (Some r)
    then show ?thesis by (subst verify_bins.simps, cases r) (simp_all split: prod.splits)
  qed
qed

lemma verify_stack_ok:
  assumes "stack m p xs None" "\<forall>x\<in>set xs. bkey m x = k" "k \<ge> (t, pr)" "distinct xs" "set xs \<inter> set seen = {}"
  shows "verify_stack m p t pr seen = Some (Some (if xs = [] then (t, pr, seen) else (fst k, snd k, rev xs @ seen)))"
  using assms
proof (induction xs arbitrary: p t pr seen)
  case Nil
  then show ?case by (simp add: verify_stack_step)
next
  case (Cons x xs)
  have IH: "verify_stack m (nextInBin (m x)) (fst k) (snd k) (x # seen) =
      Some (Some (if xs = [] then (fst k, snd k, x # seen) else (fst k, snd k, rev xs @ x # seen)))"
    using Cons.prems by (intro Cons.IH) auto
  have "p = Some x" "bkey m x = k" "x \<notin> set seen" "\<not> bkey m x < (t, pr)" using Cons.prems by auto
  then show ?case using IH by (simp add: verify_stack_step)
qed

lemma verify_bins_ok:
  assumes "segs m p bs None" "bins_ok m bs" "\<forall>b\<in>set bs. (t, pr) \<le> bkey m (hd b)" "set (concat bs) \<inter> set seen = {}"
  shows "verify_bins m p t pr seen = Some True"
  using assms
proof (induction bs arbitrary: p t pr seen)
  case Nil
  then show ?case by (simp add: verify_bins_step)
next
  case (Cons b bs)
  have b: "b \<noteq> []" "stack m p b None" "segs m (nextBin (m (hd b))) bs None" "one_key m b" "distinct b" "bins_ok m bs"
    "\<forall>c\<in>set bs. bkey m (hd b) < bkey m (hd c)" "set b \<inter> set (concat bs) = {}"
    using Cons.prems(1,2) by (auto simp: bins_ok_def)
  have p: "p = Some (hd b)" using b(1,2) by (cases b) auto
  have "\<forall>x\<in>set b. bkey m x = bkey m (hd b)" using one_keyD [OF b(4)] by blast
  from verify_stack_ok [OF b(2) this _ b(5)] have st: "verify_stack m p t pr seen =
      Some (Some (fst (bkey m (hd b)), snd (bkey m (hd b)), rev b @ seen))"
    using Cons.prems(3,4) b(1) by auto
  have "verify_bins m (nextBin (m (hd b))) (fst (bkey m (hd b))) (snd (bkey m (hd b))) (rev b @ seen) = Some True"
    using Cons.prems(4) b(7,8) by (intro Cons.IH [OF b(3,6)]) (auto simp: less_imp_le)
  then show ?case using st p by (simp add: verify_bins_step)
qed

lemma verify_early:
  assumes "eq_head q = Some h" "bkey (ev_mem q) h < (0, 0)"
  shows "debugVerify q = Some False"
  using assms by (simp add: debugVerify_def verify_bins_step verify_stack_step)

section \<open>Properties\<close>

lemma bin_remove_insert:
  assumes "e \<notin> set (concat bs)" "\<forall>b\<in>set bs. b \<noteq> []"
  shows "bin_remove e (bin_insert k e bs) = bs"
proof -
  have id: "map (remove1 e) cs = cs" if "e \<notin> set (concat cs)" for cs
    using that by (auto intro!: map_idI remove1_idem)
  show ?thesis using assms
  proof (induction bs)
    case (Cons b bs)
    then have "map (remove1 e) bs = bs" "remove1 e b = b" using id [of bs] by (auto intro: remove1_idem)
    then show ?case using Cons by (auto simp: bin_remove_def)
  qed (simp add: bin_remove_def)
qed

text \<open>A store of fresh events, and a queue with three of them.\<close>

definition fresh_ev :: event where
  "fresh_ev = \<lparr>nextBin = None, nextInBin = None, ev_when = 0, ev_priority = 0, ev_flags = EV_Initialized, ev_live = True\<rparr>"

definition fresh_queue :: event_queue where
  "fresh_queue = EventQueue_new (\<lambda>_. fresh_ev)"

lemma fresh_reach: "eq_reach par fresh_queue"
  unfolding fresh_queue_def by (rule eq_reach.init) (simp add: fresh_ev_def scheduled_def isSet_def)

lemma fresh_inv: "eq_inv fresh_queue []"
  by (simp add: eq_inv_def eq_rep_def fresh_queue_def EventQueue_new_def eq_members_def ev_ok_def fresh_ev_def scheduled_def isSet_def)

lemma fresh_sel [simp]:
  "\<not> scheduled (ev_mem fresh_queue e)" "ev_live (ev_mem fresh_queue e)" "initialized (ev_mem fresh_queue e)" "eq_curTick fresh_queue = 0"
  by (simp_all add: fresh_queue_def EventQueue_new_def fresh_ev_def scheduled_def isSet_def initialized_def)

definition one_event :: event_queue where
  "one_event = \<lparr>ev_mem = (\<lambda>_. fresh_ev)(3 := fresh_ev\<lparr>ev_when := 5, ev_flags := 0x7a42\<rparr>), eq_head = Some 3, eq_curTick = 0, async_queue = []\<rparr>"

lemma one_event_step: "eq_schedule 3 5 False fresh_queue = Some (Inr one_event)"
  by (simp add: eq_schedule_def eq_op_defs eq_insert_def insertBefore_def Let_def upd_flags_def setWhen_def fresh_queue_def
    EventQueue_new_def fresh_ev_def scheduled_def isSet_def initialized_def setFlags_def one_event_def)

lemma one_event_reach: "eq_reach par one_event"
  by (rule eq_reach.step [OF fresh_reach eq_step.schedule [OF one_event_step]])

text \<open>C3: In every reachable state of the event queue, in serial and in parallel mode, the bin and stack
  pointers from the head form bins of one time and priority each, in ascending order, with no event twice; an
  event has the scheduled flag exactly when it is in a bin or waits in the asynchronous queue, and is then
  initialised and not deleted.  In serial mode nothing waits and no queued event is in the past.\<close>

theorem reachable_queue_valid:
  assumes "eq_reach par q"
  shows "\<exists>bs. segs (ev_mem q) (eq_head q) bs None \<and> bins_ok (ev_mem q) bs \<and>
    set (concat bs) \<inter> set (async_queue q) = {} \<and>
    (\<forall>e. scheduled (ev_mem q e) \<longleftrightarrow> e \<in> set (concat bs) \<union> set (async_queue q)) \<and>
    (\<forall>e. scheduled (ev_mem q e) \<longrightarrow> ev_live (ev_mem q e) \<and> initialized (ev_mem q e)) \<and>
    (\<not> par \<longrightarrow> async_queue q = [] \<and> (\<forall>e\<in>set (concat bs). eq_curTick q \<le> ev_when (ev_mem q e)))"
proof -
  obtain bs where bs: "state_ok par q bs" using eq_reach_ok [OF assms] by blast
  then have inv: "eq_inv q bs" by (simp add: state_ok_def)
  have "ev_live (ev_mem q e) \<and> initialized (ev_mem q e)" if "scheduled (ev_mem q e)" for e
    using eq_invD(5) [OF inv, of e] that by (auto simp: ev_ok_def)
  then show ?thesis
    using bs eq_invD(1,3) [OF inv] eq_invD(6) [OF inv]
    by (intro exI [of _ bs]) (simp add: eq_rep_def state_ok_def time_ok_def eq_members_def del: set_concat)
qed

theorem reachable_queue_valid_witness:
  "eq_reach False one_event \<and> (\<exists>bs. segs (ev_mem one_event) (eq_head one_event) bs None \<and> 3 \<in> set (concat bs))"
  using reachable_queue_valid [OF one_event_reach, of False] one_event_reach
  by (auto simp: one_event_def scheduled_def isSet_def split: if_splits)

text \<open>C11: Scheduling an event that is not scheduled returns; the event goes to its time and priority, on top of
  the events of the same bin, with every other event where it was.  Descheduling it then gives back the bins of
  before.\<close>

theorem schedule_deschedule_roundtrip:
  assumes "eq_inv q bs" "\<not> scheduled (ev_mem q e)" "ev_live (ev_mem q e)" "initialized (ev_mem q e)" "eq_curTick q \<le> t"
  shows "\<exists>q' q''. eq_schedule e t False q = Some (Inr q') \<and>
    eq_inv q' (bin_insert (bkey (ev_mem (setWhen e t q))) e bs) \<and> ev_when (ev_mem q' e) = t \<and> only_ev e q q' \<and>
    eq_deschedule e q' = Some (Inr q'') \<and> eq_inv q'' bs"
proof -
  let ?bs = "bin_insert (bkey (ev_mem (setWhen e t q))) e bs"
  obtain q' where q': "eq_schedule e t False q = Some (Inr q')" "eq_inv q' ?bs" "only_ev e q q'" "ev_when (ev_mem q' e) = t"
    using schedule_inv [OF assms] by blast
  have out: "e \<notin> set (concat bs)" using eq_invD(6) [OF assms(1), of e] assms(2) by (auto simp: eq_members_def)
  have ne: "\<forall>b\<in>set bs. b \<noteq> []" using eq_invD(1) [OF assms(1)] by (auto simp: eq_rep_def bins_ok_def)
  have "e \<in> set (concat ?bs)" unfolding set_bin_insert by simp
  from deschedule_inv [OF q'(2) this] show ?thesis using q' unfolding bin_remove_insert [OF out ne] by blast
qed

theorem schedule_deschedule_roundtrip_witness:
  "\<exists>q' q''. eq_schedule 3 5 False fresh_queue = Some (Inr q') \<and> eq_inv q' [[3]] \<and>
    eq_deschedule 3 q' = Some (Inr q'') \<and> eq_inv q'' []"
  using schedule_deschedule_roundtrip [OF fresh_inv, of 3 5] by auto

text \<open>C23: In serial mode, taking events off a reachable queue one after the other gives every scheduled event
  exactly once, in the order of time and, at one time, of priority.\<close>

theorem service_in_order:
  assumes "eq_reach False q"
  shows "\<exists>es. (\<forall>n\<ge>length es. drain eq_pop n q = es) \<and> set es = {e. scheduled (ev_mem q e)} \<and> distinct es \<and>
    sorted (map (\<lambda>e. (ev_when (ev_mem q e), sint (ev_priority (ev_mem q e)))) es)"
proof -
  obtain bs where bs: "eq_inv q bs" "time_ok q bs" using eq_reach_ok [OF assms] by (auto simp: state_ok_def)
  have v: "eq_view q (concat bs)" using bs(1) by (auto simp: eq_view_def)
  have "set (concat bs) = {e. scheduled (ev_mem q e)}"
    using eq_invD(6) [OF bs(1)] bs(2) by (auto simp: eq_members_def time_ok_def)
  then show ?thesis
    using evq.drain_view [OF v] evq.view_sorted [OF v] by (intro exI [of _ "concat bs"]) (simp add: bkey_def [abs_def] ev_key_def del: set_concat)
qed

theorem service_in_order_witness:
  "\<exists>es. drain eq_pop (length es) one_event = es \<and> 3 \<in> set es"
proof -
  obtain es where "\<forall>n\<ge>length es. drain eq_pop n one_event = es" "set es = {e. scheduled (ev_mem one_event e)}"
    using service_in_order [OF one_event_reach] by blast
  moreover have "scheduled (ev_mem one_event 3)" by (simp add: one_event_def scheduled_def isSet_def)
  ultimately show ?thesis by (intro exI [of _ es]) simp
qed

text \<open>In serial mode no operation on a reachable queue moves the current tick back.\<close>

lemma time_never_goes_back:
  assumes "eq_reach False q" "eq_step False q q'"
  shows "eq_curTick q \<le> eq_curTick q'"
proof -
  obtain bs where bs: "state_ok False q bs" using eq_reach_ok [OF assms(1)] by blast
  then have inv: "eq_inv q bs" by (simp add: state_ok_def)
  show ?thesis using assms(2)
  proof cases
    case (schedule e t)
    then show ?thesis using schedule_inv [OF inv, of e t] by (auto simp: eq_schedule_def eq_op_defs split: if_splits)
  next
    case (deschedule e)
    then show ?thesis using deschedule_inv [OF inv, of e] deschedule_absent [OF inv, of e] by (cases "e \<in> set (concat bs)") auto
  next
    case (reschedule e t al)
    show ?thesis using reschedule_inv [OF inv reschedule] by auto
  next
    case (pop e)
    then show ?thesis using state_ok_pop [OF bs] by auto
  next
    case (finish e r)
    then show ?thesis by (auto simp: service_end_def sassert_def split: if_splits)
  qed auto
qed

lemma time_never_goes_back_witness:
  "eq_step False one_event (one_event\<lparr>eq_curTick := 4\<rparr>) \<and> eq_curTick one_event \<le> 4"
proof -
  have s: "eq_step False one_event (one_event\<lparr>eq_curTick := 4\<rparr>)" by (rule eq_step.advance) (simp_all add: one_event_def)
  show ?thesis using s time_never_goes_back [OF one_event_reach s] by simp
qed

text \<open>C24: Servicing the events up to a time returns, whatever the queue, if every action returns and adds no
  event to that window: no event of the window is then left, the queue is well formed and the current tick is the
  end of the window.\<close>

theorem serviceEvents_returns:
  assumes "stays_ahead process t" "eq_inv q bs"
  shows "\<exists>q' bs'. serviceEvents process t q = Some (Inr q') \<and> eq_inv q' bs' \<and>
    (\<forall>e\<in>set (concat bs'). t < ev_when (ev_mem q' e)) \<and> eq_curTick q' = t"
proof -
  obtain q' bs' where q': "serviceEvents process t q = Some (Inr q')" "eq_inv q' bs'" "pending t q' bs' = {}" "eq_curTick q' = t"
    using serviceEvents_run [OF assms] by blast
  have "t < ev_when (ev_mem q' e)" if "e \<in> set (concat bs')" for e
  proof -
    have "e \<notin> pending t q' bs'" using q'(3) by simp
    then show ?thesis using that unfolding pending_def mem_Collect_eq by (simp add: not_le del: set_concat)
  qed
  then show ?thesis using q' by blast
qed

lemma one_event_inv: "eq_inv one_event [[3]]"
  using schedule_inv [OF fresh_inv, of 3 5] one_event_step by auto

theorem serviceEvents_returns_witness:
  "\<exists>q' bs'. serviceEvents (\<lambda>_ q. Some (Inr q)) 9 one_event = Some (Inr q') \<and> eq_inv q' bs' \<and> eq_curTick q' = 9"
proof -
  have "stays_ahead (\<lambda>_ q. Some (Inr q)) 9" unfolding stays_ahead_def by blast
  from serviceEvents_returns [OF this one_event_inv] show ?thesis by blast
qed

text \<open>C32: Restoring an event from a checkpoint in which it was scheduled and not squashed clears its scheduled
  flag, so that the queue does not insert it again and the event is lost; an event that was scheduled and squashed
  is inserted.\<close>

theorem checkpoint_reinserts_only_squashed:
  assumes "scheduled v" "\<not> scheduled (ev_mem q e)" "initialized (ev_mem q e)" "eq_rep q bs" "e \<notin> set (concat bs)"
  shows "\<exists>q'. unserialize_event (ev_serialize v) e q = Some (Inr q') \<and>
    (\<exists>bs'. eq_rep q' bs' \<and> set (concat bs') = set (concat bs) \<union> (if squashed v then {e} else {})) \<and>
    (scheduled (ev_mem q' e) \<longleftrightarrow> squashed v)"
proof -
  let ?f = "setFlags (ev_flags v) EV_Initialized"
  have f: "isSet ?f EV_Scheduled" "isSet ?f EV_Squashed = squashed v"
    using assms(1) by (simp_all add: flag_simps scheduled_def squashed_def)
  let ?w = "(ev_mem q e)\<lparr>ev_when := ev_when v, ev_priority := ev_priority v,
    ev_flags := if squashed v then ?f else clearFlags ?f (EV_Squashed OR EV_Scheduled)\<rparr>"
  let ?q = "q\<lparr>ev_mem := (ev_mem q)(e := ?w)\<rparr>"
  have un: "ev_unserialize (ev_serialize v) (ev_mem q e) = Inr ?w"
    using assms(2,3) f by (simp add: ev_unserialize_def ev_serialize_def sassert_def Let_def)
  have rep: "eq_rep ?q bs" by (rule eq_rep_upd [OF assms(4)]) (use assms(5) in \<open>auto simp: bkey_def ev_key_def\<close>)
  have sc: "scheduled ?w = squashed v"
    using f by (auto simp: scheduled_def isSet_def clearFlags_def and.assoc)
  show ?thesis
  proof (cases "squashed v")
    case True
    obtain q' where q': "eq_insert e ?q = Some q'" "eq_rep q' (bin_insert (bkey (ev_mem ?q)) e bs)" "eq_frame ?q q'"
      using eq_insert_rep [OF rep assms(5)] by blast
    have "scheduled (ev_mem q' e) = scheduled ?w"
      using ev_core_sel(3) [OF eq_frameD(1) [OF q'(3), of e]] by (simp add: scheduled_def)
    moreover have "unserialize_event (ev_serialize v) e q = Some (Inr q')"
      using un sc True q'(1) by (simp add: unserialize_event_def rbind_def checkpointReschedule_def lift_run_def scheduled_def)
    ultimately show ?thesis using q'(2) sc True set_bin_insert [of "bkey (ev_mem ?q)" e bs] by auto
  next
    case False
    then have "unserialize_event (ev_serialize v) e q = Some (Inr ?q)"
      using un sc by (simp add: unserialize_event_def rbind_def checkpointReschedule_def lift_run_def scheduled_def)
    then show ?thesis using rep sc False by (auto intro!: exI [of _ bs])
  qed
qed

theorem checkpoint_reinserts_only_squashed_witness:
  "\<exists>q'. unserialize_event (ev_serialize (ev_mem one_event 3)) 3 fresh_queue = Some (Inr q') \<and> \<not> scheduled (ev_mem q' 3)"
proof -
  have "scheduled (ev_mem one_event 3)" "\<not> squashed (ev_mem one_event 3)"
    by (simp_all add: one_event_def scheduled_def squashed_def isSet_def)
  then show ?thesis
    using checkpoint_reinserts_only_squashed [of "ev_mem one_event 3" fresh_queue 3 "[]"] eq_invD(1) [OF fresh_inv] by auto
qed

text \<open>On a well-formed queue the debugging check returns and accepts the queue exactly when the first event is not
  at time zero with a negative priority; in that case it reports an inverted priority although the queue is sorted.\<close>

lemma debugVerify_exact:
  assumes "eq_inv q bs"
  shows "debugVerify q = Some (\<forall>h. eq_head q = Some h \<longrightarrow> \<not> (ev_when (ev_mem q h) = 0 \<and> sint (ev_priority (ev_mem q h)) < 0))"
proof -
  have rep: "segs (ev_mem q) (eq_head q) bs None" "bins_ok (ev_mem q) bs" using eq_invD(1) [OF assms] by (simp_all add: eq_rep_def)
  have key: "bkey (ev_mem q) h < (0, 0) \<longleftrightarrow> ev_when (ev_mem q h) = 0 \<and> sint (ev_priority (ev_mem q h)) < 0" for h
    by (simp add: bkey_def ev_key_def less_prod_def)
  show ?thesis
  proof (cases "\<exists>h. eq_head q = Some h \<and> bkey (ev_mem q) h < (0, 0)")
    case True
    then show ?thesis using verify_early key by auto
  next
    case False
    have "(0, 0) \<le> bkey (ev_mem q) (hd b)" if b: "b \<in> set bs" for b
    proof -
      obtain c cs where bs: "bs = c # cs" using b by (cases bs) auto
      then have "eq_head q = Some (hd c)" using segs_first [OF rep(1)] by (simp add: first_ptr_def)
      then have "(0, 0) \<le> bkey (ev_mem q) (hd c)" using False by (simp add: not_less)
      moreover have "b \<noteq> []" using rep(2) b by (simp add: bins_ok_def)
      then have "hd b \<in> set (concat (c # cs))" using hd_in_concat [OF b] unfolding bs by blast
      ultimately show ?thesis using head_least [of "ev_mem q" c cs "hd b"] rep(2) bs by (metis order_trans)
    qed
    then have "debugVerify q = Some True" unfolding debugVerify_def by (intro verify_bins_ok [OF rep]) simp_all
    then show ?thesis using False key by simp
  qed
qed

lemma debugVerify_exact_witness: "debugVerify one_event = Some True"
  using debugVerify_exact [OF one_event_inv] by (simp add: one_event_def)

end
