(* ===== verification/Abstract_Mem.thy ===== *)
theory Abstract_Mem
  imports Cxl_Memory
begin

text \<open>
  Model of the memory base class (\<^verbatim>\<open>src/gem5/src/mem/abstract_mem.hh\<close>, \<^verbatim>\<open>mem/abstract_mem.cc\<close>): accesses with
  load-locked and store-conditional tracking, functional accesses, the backing store and the backdoor.
  A null memory has no backing store.  The memory keeps the contract of a byte memory, and its list of
  locked addresses refines one monitor for each context.
\<close>

section \<open>Locked addresses\<close>

abbreviation (input) InvalidContextID :: int where "InvalidContextID \<equiv> -1"

record locked_addr =
  la_addr :: addr
  la_contextId :: int

definition la_mask :: "addr \<Rightarrow> addr" where
  "la_mask paddr = paddr AND NOT 0xf"

definition matchesContext :: "request \<Rightarrow> locked_addr \<Rightarrow> bool res" where
  "matchesContext req l =
     sbind (sassert (la_contextId l \<noteq> InvalidContextID)) (\<lambda>_.
     sbind (sassert (hasContextId req)) (\<lambda>_.
     sbind (contextId req) (\<lambda>cid. Inr (la_contextId l = cid))))"

definition LockedAddr_req :: "request \<Rightarrow> locked_addr res" where
  "LockedAddr_req req =
     sbind (req_getPaddr req) (\<lambda>a. sbind (contextId req) (\<lambda>cid. Inr \<lparr>la_addr = la_mask a, la_contextId = cid\<rparr>))"

section \<open>The memory\<close>

text \<open>
  The pointer of the backdoor counts only as set or not; invalidations of the backdoor are counted and
  the contexts whose exclusive monitors are cleared are collected.
\<close>

record abstract_mem =
  am_range :: addr_range
  am_pmem :: "u8 list option"
  am_backdoor :: bool
  am_writeable :: bool
  lockedAddrList :: "locked_addr list"
  am_invalidations :: nat
  am_cleared :: "int list"

definition AbstractMemory_new :: "addr_range \<Rightarrow> bool \<Rightarrow> abstract_mem res" where
  "AbstractMemory_new r w =
     (if \<not> valid r \<or> range_size r = 0 then Inl Panic
      else Inr \<lparr>am_range = r, am_pmem = None, am_backdoor = False, am_writeable = w, lockedAddrList = [],
                am_invalidations = 0, am_cleared = []\<rparr>)"

definition backdoor_invalidate :: "abstract_mem \<Rightarrow> abstract_mem" where
  "backdoor_invalidate m = m\<lparr>am_invalidations := am_invalidations m + 1\<rparr>"

definition setBackingStore :: "u8 list option \<Rightarrow> abstract_mem \<Rightarrow> abstract_mem" where
  "setBackingStore p m =
     (let m = (if am_backdoor m then backdoor_invalidate m else m) in
      m\<lparr>am_backdoor := \<not> interleaved (am_range m) \<and> p \<noteq> None, am_pmem := p\<rparr>)"

definition getBackdoor :: "abstract_mem \<Rightarrow> bool" where
  "getBackdoor m \<longleftrightarrow> lockedAddrList m = [] \<and> am_backdoor m"

definition addLockedAddr :: "locked_addr \<Rightarrow> abstract_mem \<Rightarrow> abstract_mem" where
  "addLockedAddr l m = (let m = backdoor_invalidate m in m\<lparr>lockedAddrList := lockedAddrList m @ [l]\<rparr>)"

definition am_toHostAddr :: "abstract_mem \<Rightarrow> addr \<Rightarrow> nat" where
  "am_toHostAddr m a = unat (a - r_start (am_range m))"

section \<open>Load locked and store conditional\<close>

text \<open>The record of the context gets the new address, if there is one.\<close>

fun update_lock :: "addr \<Rightarrow> request \<Rightarrow> locked_addr list \<Rightarrow> (bool \<times> locked_addr list) res" where
  "update_lock paddr req [] = Inr (False, [])"
| "update_lock paddr req (l # ls) =
     sbind (matchesContext req l) (\<lambda>mt.
       if mt then Inr (True, l\<lparr>la_addr := paddr\<rparr> # ls)
       else sbind (update_lock paddr req ls) (\<lambda>(found, ls). Inr (found, l # ls)))"

definition trackLoadLocked :: "packet \<Rightarrow> abstract_mem \<Rightarrow> abstract_mem res" where
  "trackLoadLocked pkt m =
     sbind (req_getPaddr (p_req pkt)) (\<lambda>a.
     sbind (update_lock (la_mask a) (p_req pkt) (lockedAddrList m)) (\<lambda>(found, ls).
       if found then Inr (m\<lparr>lockedAddrList := ls\<rparr>)
       else sbind (LockedAddr_req (p_req pkt)) (\<lambda>l.
         Inr (backdoor_invalidate (m\<lparr>lockedAddrList := l # lockedAddrList m\<rparr>)))))"

fun find_lock :: "addr \<Rightarrow> request \<Rightarrow> locked_addr list \<Rightarrow> bool res" where
  "find_lock paddr req [] = Inr False"
| "find_lock paddr req (l # ls) =
     (if la_addr l = paddr then sbind (matchesContext req l) (\<lambda>mt. if mt then Inr True else find_lock paddr req ls)
      else find_lock paddr req ls)"

text \<open>The records of an address are erased and the monitors of other contexts cleared.\<close>

fun erase_locks :: "addr \<Rightarrow> request \<Rightarrow> locked_addr list \<Rightarrow> (locked_addr list \<times> int list) res" where
  "erase_locks paddr req [] = Inr ([], [])"
| "erase_locks paddr req (l # ls) =
     (if la_addr l = paddr then
        sbind (sassert (la_contextId l \<noteq> InvalidContextID)) (\<lambda>_.
        sbind (erase_locks paddr req ls) (\<lambda>(ls, cs).
          (let requestor_cid = (if hasContextId req then r_contextId req else InvalidContextID) in
           Inr (ls, if la_contextId l \<noteq> requestor_cid then la_contextId l # cs else cs))))
      else sbind (erase_locks paddr req ls) (\<lambda>(ls, cs). Inr (l # ls, cs)))"

definition checkLockedAddrList :: "packet \<Rightarrow> abstract_mem \<Rightarrow> (bool \<times> packet \<times> abstract_mem) res" where
  "checkLockedAddrList pkt m =
     sbind (req_getPaddr (p_req pkt)) (\<lambda>a.
       (let paddr = la_mask a; llsc = isLLSC (p_cmd pkt) in
        sbind (if llsc then find_lock paddr (p_req pkt) (lockedAddrList m) else Inr True) (\<lambda>allowStore.
          (let pkt = (if llsc then pkt\<lparr>p_req := setExtraData (if allowStore then 1 else 0) (p_req pkt)\<rparr> else pkt) in
           if allowStore then
             sbind (erase_locks paddr (p_req pkt) (lockedAddrList m)) (\<lambda>(ls, cs).
             Inr (True, pkt, m\<lparr>lockedAddrList := ls, am_cleared := am_cleared m @ cs\<rparr>))
           else Inr (False, pkt, m)))))"

definition writeOK :: "packet \<Rightarrow> abstract_mem \<Rightarrow> (bool \<times> packet \<times> abstract_mem) res" where
  "writeOK pkt m =
     (if \<not> am_writeable m then Inr (False, pkt, m)
      else if lockedAddrList m = [] then
        (let llsc = isLLSC (p_cmd pkt) in
         Inr (\<not> llsc, if llsc then pkt\<lparr>p_req := setExtraData 0 (p_req pkt)\<rparr> else pkt, m))
      else checkLockedAddrList pkt m)"

section \<open>Accesses\<close>

definition am_swap :: "packet \<Rightarrow> nat \<Rightarrow> abstract_mem \<Rightarrow> (packet \<times> abstract_mem) res" where
  "am_swap pkt off m =
     (case am_pmem m of
        None \<Rightarrow> if req_isAtomic (p_req pkt) then Inr (pkt, m) else Inl Panic
      | Some bs \<Rightarrow> sbind (swap_access pkt off bs) (\<lambda>(pkt, bs). Inr (pkt, m\<lparr>am_pmem := Some bs\<rparr>)))"

definition am_load :: "packet \<Rightarrow> nat \<Rightarrow> abstract_mem \<Rightarrow> packet res" where
  "am_load pkt off m = (case am_pmem m of None \<Rightarrow> Inr pkt | Some bs \<Rightarrow> setData bs off pkt)"

definition am_store :: "packet \<Rightarrow> nat \<Rightarrow> abstract_mem \<Rightarrow> abstract_mem res" where
  "am_store pkt off m =
     (case am_pmem m of None \<Rightarrow> Inr m
      | Some bs \<Rightarrow> sbind (writeData pkt bs off) (\<lambda>bs. Inr (m\<lparr>am_pmem := Some bs\<rparr>)))"

definition am_dispatch :: "packet \<Rightarrow> nat \<Rightarrow> abstract_mem \<Rightarrow> (packet \<times> abstract_mem) res" where
  "am_dispatch pkt off m =
     (if p_cmd pkt = SwapReq then am_swap pkt off m
      else if isRead (p_cmd pkt) then
        sbind (sassert (\<not> isWrite (p_cmd pkt))) (\<lambda>_.
        sbind (if isLLSC (p_cmd pkt)
               then sbind (sassert (\<not> fromCache (p_cmd pkt))) (\<lambda>_. trackLoadLocked pkt m) else Inr m) (\<lambda>m.
        sbind (am_load pkt off m) (\<lambda>pkt. Inr (pkt, m))))
      else if isInvalidate (p_cmd pkt) \<or> isClean (p_cmd pkt) then
        sbind (sassert (\<not> isWrite (p_cmd pkt))) (\<lambda>_. Inr (pkt, m))
      else if isWrite (p_cmd pkt) then
        sbind (writeOK pkt m) (\<lambda>(ok, pkt, m).
          if ok then
            sbind (am_store pkt off m) (\<lambda>m.
            sbind (sassert (\<not> isSet (r_flags (p_req pkt)) R_INST_FETCH)) (\<lambda>_. Inr (pkt, m)))
          else Inr (pkt, m))
      else Inl Panic)"

definition am_access :: "packet \<Rightarrow> abstract_mem \<Rightarrow> (packet \<times> abstract_mem) res" where
  "am_access pkt m =
     (if cacheResponding pkt then Inr (pkt, m)
      else if p_cmd pkt = CleanEvict \<or> p_cmd pkt = WritebackClean then Inr (pkt, m)
      else
        sbind (getAddrRange pkt) (\<lambda>r.
        sbind (isSubset r (am_range m)) (\<lambda>sub.
        sbind (sassert sub) (\<lambda>_.
        sbind (getAddr pkt) (\<lambda>a.
        sbind (am_dispatch pkt (am_toHostAddr m a) m) (\<lambda>(pkt, m).
        sbind (if needsResponse (p_cmd pkt) then makeResponse pkt else Inr pkt) (\<lambda>pkt.
        Inr (pkt, m))))))))"

text \<open>
  A functional access.  A print request needs a sender state of its kind, which is an argument, and
  prints the byte at its address.
\<close>

definition functionalAccess :: "bool \<Rightarrow> packet \<Rightarrow> abstract_mem \<Rightarrow> (packet \<times> abstract_mem) res" where
  "functionalAccess prs pkt m =
     sbind (getAddrRange pkt) (\<lambda>r.
     sbind (isSubset r (am_range m)) (\<lambda>sub.
     sbind (sassert sub) (\<lambda>_.
     sbind (getAddr pkt) (\<lambda>a.
       (let off = am_toHostAddr m a in
        if isRead (p_cmd pkt) then
          sbind (am_load pkt off m) (\<lambda>pkt. sbind (makeResponse pkt) (\<lambda>pkt. Inr (pkt, m)))
        else if isWrite (p_cmd pkt) then
          sbind (am_store pkt off m) (\<lambda>m. sbind (makeResponse pkt) (\<lambda>pkt. Inr (pkt, m)))
        else if isPrint (p_cmd pkt) then
          sbind (sassert prs) (\<lambda>_.
          case am_pmem m of
            None \<Rightarrow> Inl Undefined_Behaviour
          | Some bs \<Rightarrow> sbind (memcpy_out bs off 1) (\<lambda>_. Inr (pkt, m)))
        else Inl Panic)))))"

section \<open>The list of locks as monitors\<close>

text \<open>One monitor for each context: a load locked sets it, a store clears all monitors of its granule.\<close>

type_synonym monitors = "int \<Rightarrow> addr option"

definition mon_of :: "locked_addr list \<Rightarrow> monitors" where
  "mon_of ls = map_of (map (\<lambda>l. (la_contextId l, la_addr l)) ls)"

definition locks_ok :: "locked_addr list \<Rightarrow> bool" where
  "locks_ok ls \<longleftrightarrow> distinct (map la_contextId ls) \<and> (\<forall>l\<in>set ls. la_contextId l \<noteq> InvalidContextID)"

definition mon_clear :: "addr \<Rightarrow> monitors \<Rightarrow> monitors" where
  "mon_clear g mon = (\<lambda>c. if mon c = Some g then None else mon c)"

lemma mon_of_simps [simp]: "mon_of [] = Map.empty" "mon_of (l # ls) = (mon_of ls)(la_contextId l \<mapsto> la_addr l)"
  by (simp_all add: mon_of_def)

lemma locks_ok_simps [simp]:
  "locks_ok []"
  "locks_ok (l # ls) \<longleftrightarrow> la_contextId l \<noteq> InvalidContextID \<and> la_contextId l \<notin> la_contextId ` set ls \<and> locks_ok ls"
  by (auto simp: locks_ok_def)

lemma mon_of_None [simp]: "mon_of ls c = None \<longleftrightarrow> c \<notin> la_contextId ` set ls"
  by (simp add: mon_of_def map_of_eq_None_iff image_image)

lemma matchesContext_eq [simp]:
  "la_contextId l \<noteq> InvalidContextID \<Longrightarrow> hasContextId req \<Longrightarrow> matchesContext req l = Inr (la_contextId l = r_contextId req)"
  by (simp add: matchesContext_def contextId_def)

lemma update_lock_spec:
  assumes "locks_ok ls" "hasContextId req"
  shows "\<exists>ls'. update_lock g req ls = Inr (r_contextId req \<in> la_contextId ` set ls, ls') \<and> locks_ok ls' \<and>
    la_contextId ` set ls' = la_contextId ` set ls \<and>
    mon_of ls' = (if r_contextId req \<in> la_contextId ` set ls then (mon_of ls)(r_contextId req \<mapsto> g) else mon_of ls)"
  using assms(1)
proof (induction ls)
  case (Cons l ls)
  show ?case
  proof (cases "la_contextId l = r_contextId req")
    case True
    then show ?thesis using Cons.prems assms(2) by (intro exI [of _ "l\<lparr>la_addr := g\<rparr> # ls"]) auto
  next
    case False
    obtain ls' where ls': "update_lock g req ls = Inr (r_contextId req \<in> la_contextId ` set ls, ls')" "locks_ok ls'"
      "la_contextId ` set ls' = la_contextId ` set ls"
      "mon_of ls' = (if r_contextId req \<in> la_contextId ` set ls then (mon_of ls)(r_contextId req \<mapsto> g) else mon_of ls)"
      using Cons by auto
    then show ?thesis using Cons.prems assms(2) False
      by (intro exI [of _ "l # ls'"]) (auto simp: fun_upd_twist)
  qed
qed simp

lemma find_lock_spec:
  "locks_ok ls \<Longrightarrow> hasContextId req \<Longrightarrow> find_lock g req ls = Inr (mon_of ls (r_contextId req) = Some g)"
proof (induction ls)
  case (Cons l ls)
  then have "mon_of ls (la_contextId l) \<noteq> Some g" using mon_of_None [of ls "la_contextId l"] by (auto simp del: mon_of_None)
  then show ?case using Cons by (cases "la_contextId l = r_contextId req") auto
qed simp

lemma erase_locks_spec:
  "locks_ok ls \<Longrightarrow> \<exists>cs. erase_locks g req ls = Inr (filter (\<lambda>l. la_addr l \<noteq> g) ls, cs)"
  by (induction ls) (auto simp: Let_def)

lemma locks_ok_filter [simp]: "locks_ok ls \<Longrightarrow> locks_ok (filter P ls)"
  by (auto simp: locks_ok_def distinct_map_filter)

lemma mon_of_filter: "locks_ok ls \<Longrightarrow> mon_of (filter (\<lambda>l. la_addr l \<noteq> g) ls) = mon_clear g (mon_of ls)"
proof (induction ls)
  case (Cons l ls)
  have nl: "la_contextId l \<notin> la_contextId ` set ls" using Cons.prems by simp
  show ?case
  proof
    fix c
    show "mon_of (filter (\<lambda>l. la_addr l \<noteq> g) (l # ls)) c = mon_clear g (mon_of (l # ls)) c"
      using Cons nl by (cases "c = la_contextId l"; cases "la_addr l = g") (auto simp: mon_clear_def)
  qed
qed (simp add: mon_clear_def)

section \<open>Memories with monitors\<close>

definition granule :: "packet \<Rightarrow> addr" where
  "granule p = la_mask (r_paddr (p_req p))"

definition ll_packet :: "packet \<Rightarrow> bool" where
  "ll_packet p \<longleftrightarrow> pkt_ok p \<and> p_cmd p = LoadLockedReq \<and> \<not> cacheResponding p \<and> 0 < unat (p_size p) \<and>
     hasContextId (p_req p) \<and> r_contextId (p_req p) \<noteq> InvalidContextID"

definition sc_packet :: "packet \<Rightarrow> bool" where
  "sc_packet p \<longleftrightarrow> pkt_ok p \<and> p_cmd p = StoreCondReq \<and> \<not> cacheResponding p \<and> 0 < unat (p_size p) \<and>
     hasContextId (p_req p) \<and> \<not> isSet (r_flags (p_req p)) R_INST_FETCH"

text \<open>A response that tells that the bytes of its request were stored.\<close>

definition stored :: "packet \<Rightarrow> packet \<Rightarrow> bool" where
  "stored p q \<longleftrightarrow> p_cmd p = WriteReq \<or> p_cmd p = StoreCondReq \<and> r_extraData (p_req q) = 1"

locale llsc_memory = byte_memory +
  fixes mon :: "'a \<Rightarrow> monitors"
  assumes ll_law: "inv s \<Longrightarrow> covers p s \<Longrightarrow> ll_packet p \<Longrightarrow>
      \<exists>q s'. access p s = Inr (q, s') \<and> inv s' \<and> (\<forall>r. covers r s' = covers r s) \<and> view s' = view s \<and>
        p_cmd q = ReadResp \<and> load_ok p q (view s) \<and> mon s' = (mon s)(r_contextId (p_req p) \<mapsto> granule p)"
    and sc_law: "inv s \<Longrightarrow> covers p s \<Longrightarrow> sc_packet p \<Longrightarrow>
      \<exists>q s'. access p s = Inr (q, s') \<and> inv s' \<and> (\<forall>r. covers r s' = covers r s) \<and> p_cmd q = StoreCondResp \<and>
        (if mon s (r_contextId (p_req p)) = Some (granule p)
         then r_extraData (p_req q) = 1 \<and> view s' = store_view p (view s) \<and> mon s' = mon_clear (granule p) (mon s)
         else r_extraData (p_req q) = 0 \<and> view s' = view s \<and> mon s' = mon s)"
    and read_mon: "inv s \<Longrightarrow> covers p s \<Longrightarrow> simple_read p \<Longrightarrow> access p s = Inr (q, s') \<Longrightarrow> mon s' = mon s"
    and write_mon: "inv s \<Longrightarrow> covers p s \<Longrightarrow> simple_write p \<Longrightarrow> access p s = Inr (q, s') \<Longrightarrow> mon s' = mon_clear (granule p) (mon s)"
begin

definition accepted :: "packet \<Rightarrow> 'a \<Rightarrow> bool" where
  "accepted p s \<longleftrightarrow> covers p s \<and> (simple_read p \<or> simple_write p \<or> ll_packet p \<or> sc_packet p)"

lemma access_monitor:
  assumes "inv s" "accepted p s" "\<not> (p_cmd p = LoadLockedReq \<and> r_contextId (p_req p) = c)"
  shows "\<exists>q s'. access p s = Inr (q, s') \<and> inv s' \<and> (\<forall>r. accepted r s' = accepted r s) \<and>
    (mon s' c = Some g \<longleftrightarrow> mon s c = Some g \<and> \<not> (granule p = g \<and> stored p q))"
proof -
  have cov: "covers p s" and kinds: "simple_read p \<or> simple_write p \<or> ll_packet p \<or> sc_packet p"
    using assms(2) by (auto simp: accepted_def)
  consider "simple_read p" | "simple_write p" | "ll_packet p" | "sc_packet p" using kinds by blast
  then show ?thesis
  proof cases
    case 1
    then obtain q s' where "access p s = Inr (q, s')" "inv s'" "\<forall>r. covers r s' = covers r s" using read_law [OF assms(1) cov] by blast
    moreover from this have "mon s' = mon s" using read_mon [OF assms(1) cov 1] by blast
    moreover have "\<not> stored p q" using 1 by (simp add: stored_def simple_read_def)
    ultimately show ?thesis by (auto simp: accepted_def)
  next
    case 2
    then obtain q s' where "access p s = Inr (q, s')" "inv s'" "\<forall>r. covers r s' = covers r s" using write_law [OF assms(1) cov] by blast
    moreover from this have "mon s' = mon_clear (granule p) (mon s)" using write_mon [OF assms(1) cov 2] by blast
    moreover have "stored p q" using 2 by (simp add: stored_def simple_write_def)
    ultimately show ?thesis by (auto simp: accepted_def mon_clear_def)
  next
    case 3
    then obtain q s' where "access p s = Inr (q, s')" "inv s'" "\<forall>r. covers r s' = covers r s"
      "mon s' = (mon s)(r_contextId (p_req p) \<mapsto> granule p)" using ll_law [OF assms(1) cov] by blast
    moreover have "\<not> stored p q" "r_contextId (p_req p) \<noteq> c" using 3 assms(3) by (simp_all add: stored_def ll_packet_def)
    ultimately show ?thesis by (auto simp: accepted_def)
  next
    case 4
    then obtain q s' where q: "access p s = Inr (q, s')" "inv s'" "\<forall>r. covers r s' = covers r s"
      "if mon s (r_contextId (p_req p)) = Some (granule p)
         then r_extraData (p_req q) = 1 \<and> view s' = store_view p (view s) \<and> mon s' = mon_clear (granule p) (mon s)
         else r_extraData (p_req q) = 0 \<and> view s' = view s \<and> mon s' = mon s" using sc_law [OF assms(1) cov] by blast
    have "stored p q \<longleftrightarrow> r_extraData (p_req q) = 1" using 4 by (simp add: stored_def sc_packet_def)
    then show ?thesis using q by (intro exI [of _ q] exI [of _ s']) (auto simp: accepted_def mon_clear_def split: if_splits)
  qed
qed

lemma run_monitor:
  assumes "inv s" "\<forall>p\<in>set ps. accepted p s" "\<forall>p\<in>set ps. \<not> (p_cmd p = LoadLockedReq \<and> r_contextId (p_req p) = c)"
  shows "\<exists>qs s'. run_access access ps s = Inr (qs, s') \<and> length qs = length ps \<and> inv s' \<and> (\<forall>r. accepted r s' = accepted r s) \<and>
    (mon s' c = Some g \<longleftrightarrow> mon s c = Some g \<and> (\<forall>(p, q)\<in>set (zip ps qs). \<not> (granule p = g \<and> stored p q)))"
  using assms
proof (induction ps arbitrary: s)
  case (Cons p ps)
  obtain q s1 where s1: "access p s = Inr (q, s1)" "inv s1" "\<forall>r. accepted r s1 = accepted r s"
    "mon s1 c = Some g \<longleftrightarrow> mon s c = Some g \<and> \<not> (granule p = g \<and> stored p q)"
    using access_monitor [of s p c g] Cons.prems by auto
  have "\<forall>p\<in>set ps. accepted p s1" "\<forall>p\<in>set ps. \<not> (p_cmd p = LoadLockedReq \<and> r_contextId (p_req p) = c)"
    using Cons.prems s1(3) by simp_all
  from Cons.IH [OF s1(2) this] obtain qs s' where
    "run_access access ps s1 = Inr (qs, s')" "length qs = length ps" "inv s'" "\<forall>r. accepted r s' = accepted r s1"
    "mon s' c = Some g \<longleftrightarrow> mon s1 c = Some g \<and> (\<forall>(p, q)\<in>set (zip ps qs). \<not> (granule p = g \<and> stored p q))" by blast
  then show ?case using s1 by (intro exI [of _ "q # qs"] exI [of _ s']) auto
qed simp

lemma run_access_append:
  "run_access access (ps @ rs) s =
     sbind (run_access access ps s) (\<lambda>(qs, s). sbind (run_access access rs s) (\<lambda>(qs', s). Inr (qs @ qs', s)))"
proof (induction ps arbitrary: s)
  case Nil
  show ?case by (cases "run_access access rs s") auto
next
  case (Cons p ps)
  show ?case
  proof (cases "access p s")
    case (Inr r)
    then show ?thesis using Cons.IH [of "snd r"]
      by (cases "run_access access ps (snd r)"; cases "run_access access rs (snd (projr (run_access access ps (snd r))))")
        (auto split: prod.splits)
  qed simp
qed

text \<open>A store conditional succeeds exactly when nothing was stored to the granule since the load.\<close>

lemma sc_atomic:
  assumes "inv s" "accepted ll s" "accepted sc s" "\<forall>p\<in>set mid. accepted p s"
    "ll_packet ll" "sc_packet sc" "granule sc = granule ll" "r_contextId (p_req sc) = r_contextId (p_req ll)"
    "\<forall>p\<in>set mid. \<not> (p_cmd p = LoadLockedReq \<and> r_contextId (p_req p) = r_contextId (p_req ll))"
  shows "\<exists>q0 qs q1 s'. run_access access (ll # mid @ [sc]) s = Inr (q0 # qs @ [q1], s') \<and> length qs = length mid \<and>
    (r_extraData (p_req q1) = 1 \<longleftrightarrow> (\<forall>(p, q)\<in>set (zip mid qs). \<not> (granule p = granule ll \<and> stored p q)))"
proof -
  let ?c = "r_contextId (p_req ll)" and ?g = "granule ll"
  have cov: "covers ll s" using assms(2) by (simp add: accepted_def)
  obtain q0 s1 where s1: "access ll s = Inr (q0, s1)" "inv s1" "\<forall>r. covers r s1 = covers r s" "mon s1 = (mon s)(?c \<mapsto> ?g)"
    using ll_law [OF assms(1) cov assms(5)] by blast
  have acc: "accepted r s1 = accepted r s" for r using s1(3) by (simp add: accepted_def)
  have "\<forall>p\<in>set mid. accepted p s1" using assms(4) acc by simp
  from run_monitor [OF s1(2) this assms(9), of ?g]
  obtain qs s2 where s2: "run_access access mid s1 = Inr (qs, s2)" "length qs = length mid" "inv s2" "\<forall>r. accepted r s2 = accepted r s1"
    "mon s2 ?c = Some ?g \<longleftrightarrow> mon s1 ?c = Some ?g \<and> (\<forall>(p, q)\<in>set (zip mid qs). \<not> (granule p = ?g \<and> stored p q))" by blast
  have now: "mon s1 ?c = Some ?g" using s1(4) by simp
  have "accepted sc s2" using s2(4) acc assms(3) by simp
  then have "covers sc s2" by (simp add: accepted_def)
  from sc_law [OF s2(3) this assms(6)] obtain q1 s3 where s3: "access sc s2 = Inr (q1, s3)"
    "r_extraData (p_req q1) = 1 \<longleftrightarrow> mon s2 ?c = Some ?g"
    using assms(7,8) by (auto split: if_splits)
  have "run_access access (ll # mid @ [sc]) s = Inr (q0 # qs @ [q1], s3)"
    using s1(1) s2(1) s3(1) by (simp add: run_access_append)
  then show ?thesis using s2(2,5) s3(2) now by blast
qed

end

section \<open>The contract of a byte memory\<close>

text \<open>A plain range that does not end at the top of the address space, and a backing store of its size.\<close>

definition am_base :: "abstract_mem \<Rightarrow> nat" where
  "am_base m = unat (r_start (am_range m))"

definition am_inv :: "abstract_mem \<Rightarrow> bool" where
  "am_inv m \<longleftrightarrow> plain (am_range m) \<and> am_pmem m \<noteq> None \<and> am_writeable m \<and>
     unat (r_end (am_range m)) = am_base m + length (the (am_pmem m)) \<and> locks_ok (lockedAddrList m)"

definition am_view :: "abstract_mem \<Rightarrow> addr \<Rightarrow> u8 option" where
  "am_view m = mem_view (am_base m) (the (am_pmem m))"

definition am_covers :: "packet \<Rightarrow> abstract_mem \<Rightarrow> bool" where
  "am_covers p m \<longleftrightarrow> am_base m \<le> unat (p_addr p) \<and> unat (p_addr p) + unat (p_size p) \<le> am_base m + length (the (am_pmem m)) \<and>
     hasPaddr (p_req p)"

lemma am_subset:
  assumes "am_inv m" "am_covers p m" "0 < unat (p_size p)"
  shows "isSubset (RangeSize (p_addr p) (ucast (p_size p))) (am_range m) = Inr True"
proof -
  have n: "unat (ucast (p_size p) :: addr) = unat (p_size p)" by (rule unat_ucast_up) simp
  have "unat (r_end (am_range m)) < 2 ^ 64" using unat_lt_exp [of "r_end (am_range m)"] by simp
  then have e: "unat (p_addr p + ucast (p_size p)) = unat (p_addr p) + unat (p_size p)"
    using assms n by (subst unat_add_no_wrap) (auto simp: am_inv_def am_covers_def)
  show ?thesis using assms e
    by (auto simp: isSubset_def RangeSize_def am_inv_def am_covers_def am_base_def word_le_nat_alt plain_def)
qed

lemma am_access_dispatch:
  assumes "am_inv m" "am_covers p m" "0 < unat (p_size p)" "pkt_ok p" "answers p"
    "am_dispatch p (unat (p_addr p) - am_base m) m = Inr (p', m')"
  shows "am_access p m = Inr (respond p', m')"
proof -
  have "am_toHostAddr m (p_addr p) = unat (p_addr p) - am_base m"
    using assms(2) by (simp add: am_toHostAddr_def am_base_def am_covers_def unat_sub word_le_nat_alt)
  then show ?thesis using am_subset [OF assms(1-3)] assms(4-6) respond_eq [of p']
    by (simp add: am_access_def answers_def getAddrRange_def)
qed

lemma am_load_ok:
  assumes "am_inv m" "am_covers p m" "pkt_ok p" "\<not> isMaskedWrite p"
  shows "\<exists>p'. am_load p (unat (p_addr p) - am_base m) m = Inr p' \<and> p_cmd p' = p_cmd p \<and> load_ok p p' (am_view m)"
proof -
  let ?off = "unat (p_addr p) - am_base m" and ?bs = "the (am_pmem m)"
  let ?p = "p\<lparr>p_data := Some (get_bytes ?bs ?off (unat (p_size p)))\<rparr>"
  have len: "?off + unat (p_size p) \<le> length ?bs" using assms(2) by (auto simp: am_covers_def)
  then have l: "length (get_bytes ?bs ?off (unat (p_size p))) = unat (p_size p)" by simp
  then have "put_bytes (the (p_data p)) 0 (get_bytes ?bs ?off (unat (p_size p))) = get_bytes ?bs ?off (unat (p_size p))"
    using assms(3) by (simp add: put_bytes_def)
  then have "am_load p ?off m = Inr ?p"
    using assms(1,3,4) len l by (auto simp: am_load_def am_inv_def setData_def)
  moreover have "load_ok p ?p (am_view m)"
    unfolding am_view_def using assms(2) by (intro mem_view_read) (auto simp: am_covers_def)
  ultimately show ?thesis by (intro exI [of _ ?p]) simp
qed

lemma am_store_ok:
  assumes "am_inv m" "am_covers p m" "pkt_ok p" "\<not> isMaskedWrite p"
  shows "\<exists>bs. am_store p (unat (p_addr p) - am_base m) m = Inr (m\<lparr>am_pmem := Some bs\<rparr>) \<and>
    length bs = length (the (am_pmem m)) \<and> am_view (m\<lparr>am_pmem := Some bs\<rparr>) = store_view p (am_view m)"
proof -
  obtain bs where "writeData p (the (am_pmem m)) (unat (p_addr p) - am_base m) = Inr bs" "length bs = length (the (am_pmem m))"
    "mem_view (am_base m) bs = store_view p (mem_view (am_base m) (the (am_pmem m)))"
    using mem_view_write [OF assms(3,4), of "am_base m" "the (am_pmem m)"] assms(2) by (auto simp: am_covers_def)
  then show ?thesis using assms(1)
    by (intro exI [of _ bs]) (auto simp: am_store_def am_inv_def am_view_def am_base_def)
qed

text \<open>The result of an access keeps the shape of the memory.\<close>

definition am_like :: "abstract_mem \<Rightarrow> abstract_mem \<Rightarrow> bool" where
  "am_like m m' \<longleftrightarrow> am_range m' = am_range m \<and> am_writeable m' = am_writeable m \<and>
     map_option length (am_pmem m') = map_option length (am_pmem m)"

lemma am_like_keeps:
  assumes "am_inv m" "am_like m m'" "locks_ok (lockedAddrList m')"
  shows "am_inv m'" "am_covers r m' = am_covers r m"
proof -
  obtain bs bs' where "am_pmem m = Some bs" "am_pmem m' = Some bs'" "length bs' = length bs"
    using assms(1,2) by (cases "am_pmem m'") (auto simp: am_inv_def am_like_def)
  then show "am_inv m'" "am_covers r m' = am_covers r m"
    using assms by (simp_all add: am_inv_def am_like_def am_covers_def am_base_def)
qed

definition am_mon :: "abstract_mem \<Rightarrow> monitors" where
  "am_mon m = mon_of (lockedAddrList m)"

lemma track_ok:
  assumes "am_inv m" "am_covers p m" "ll_packet p"
  shows "\<exists>m'. trackLoadLocked p m = Inr m' \<and> am_like m m' \<and> am_pmem m' = am_pmem m \<and> locks_ok (lockedAddrList m') \<and>
    am_mon m' = (am_mon m)(r_contextId (p_req p) \<mapsto> granule p)"
proof -
  have ok: "locks_ok (lockedAddrList m)" "hasPaddr (p_req p)" "hasContextId (p_req p)" "r_contextId (p_req p) \<noteq> InvalidContextID"
    using assms by (auto simp: am_inv_def am_covers_def ll_packet_def)
  obtain ls where ls: "update_lock (granule p) (p_req p) (lockedAddrList m) =
      Inr (r_contextId (p_req p) \<in> la_contextId ` set (lockedAddrList m), ls)" "locks_ok ls"
    "r_contextId (p_req p) \<in> la_contextId ` set (lockedAddrList m) \<Longrightarrow> mon_of ls = (mon_of (lockedAddrList m))(r_contextId (p_req p) \<mapsto> granule p)"
    using update_lock_spec [OF ok(1,3), of "granule p"] by auto
  show ?thesis
  proof (cases "r_contextId (p_req p) \<in> la_contextId ` set (lockedAddrList m)")
    case True
    then show ?thesis using ls ok
      by (simp add: trackLoadLocked_def req_getPaddr_def am_like_def am_mon_def granule_def)
  next
    case False
    then show ?thesis using ls ok
      by (simp add: trackLoadLocked_def req_getPaddr_def am_like_def am_mon_def granule_def LockedAddr_req_def contextId_def backdoor_invalidate_def)
  qed
qed

lemma writeOK_ok:
  assumes "am_inv m" "am_covers p m" "isLLSC (p_cmd p) \<Longrightarrow> hasContextId (p_req p)"
  shows "\<exists>m'. writeOK p m = Inr (isLLSC (p_cmd p) \<longrightarrow> am_mon m (r_contextId (p_req p)) = Some (granule p),
      if isLLSC (p_cmd p) then p\<lparr>p_req := setExtraData (if am_mon m (r_contextId (p_req p)) = Some (granule p) then 1 else 0) (p_req p)\<rparr> else p, m') \<and>
    am_like m m' \<and> am_pmem m' = am_pmem m \<and> locks_ok (lockedAddrList m') \<and>
    am_mon m' = (if isLLSC (p_cmd p) \<longrightarrow> am_mon m (r_contextId (p_req p)) = Some (granule p) then mon_clear (granule p) (am_mon m) else am_mon m)"
proof -
  have ok: "locks_ok (lockedAddrList m)" "hasPaddr (p_req p)" "am_writeable m" using assms by (auto simp: am_inv_def am_covers_def)
  show ?thesis
  proof (cases "lockedAddrList m = []")
    case True
    then show ?thesis using ok(3) by (auto simp: writeOK_def am_mon_def am_like_def mon_clear_def Let_def)
  next
    case False
    let ?b = "isLLSC (p_cmd p) \<longrightarrow> am_mon m (r_contextId (p_req p)) = Some (granule p)"
    let ?p = "if isLLSC (p_cmd p) then p\<lparr>p_req := setExtraData (if am_mon m (r_contextId (p_req p)) = Some (granule p) then 1 else 0) (p_req p)\<rparr> else p"
    obtain cs where cs: "erase_locks (granule p) (p_req ?p) (lockedAddrList m) = Inr (filter (\<lambda>l. la_addr l \<noteq> granule p) (lockedAddrList m), cs)"
      using erase_locks_spec [OF ok(1)] by blast
    have f: "(if isLLSC (p_cmd p) then find_lock (granule p) (p_req p) (lockedAddrList m) else Inr True) = Inr ?b"
      using find_lock_spec [OF ok(1), of "p_req p"] assms(3) by (simp add: am_mon_def)
    let ?m = "if ?b then m\<lparr>lockedAddrList := filter (\<lambda>l. la_addr l \<noteq> granule p) (lockedAddrList m), am_cleared := am_cleared m @ cs\<rparr> else m"
    have "writeOK p m = Inr (?b, ?p, ?m)"
      using False ok(2,3) cs f by (auto simp: writeOK_def checkLockedAddrList_def req_getPaddr_def granule_def [symmetric] Let_def)
    moreover have "am_mon ?m = (if ?b then mon_clear (granule p) (am_mon m) else am_mon m)"
      using mon_of_filter [OF ok(1)] by (simp add: am_mon_def)
    ultimately show ?thesis using ok(1) by (intro exI [of _ ?m]) (simp add: am_like_def)
  qed
qed

section \<open>The memory is a byte memory with monitors\<close>

lemma am_read_law:
  assumes "am_inv m" "am_covers p m" "simple_read p"
  shows "\<exists>q. am_access p m = Inr (q, m) \<and> p_cmd q = ReadResp \<and> load_ok p q (am_view m)"
proof -
  have p: "pkt_ok p" "p_cmd p = ReadReq" "answers p" "0 < unat (p_size p)" using assms(3) by (auto simp: simple_read_def answers_def)
  obtain p' where p': "am_load p (unat (p_addr p) - am_base m) m = Inr p'" "p_cmd p' = p_cmd p" "load_ok p p' (am_view m)"
    using am_load_ok [OF assms(1,2) p(1)] p(2) by (auto simp: isMaskedWrite_def)
  have "am_dispatch p (unat (p_addr p) - am_base m) m = Inr (p', m)"
    using p(2) p'(1) by (simp add: am_dispatch_def cmd_predicates)
  from am_access_dispatch [OF assms(1,2) p(4,1,3) this] show ?thesis
    using p(2) p'(2,3) by (auto simp: respond_def cmd_predicates responseCommand_def load_ok_def)
qed

lemma am_ll_law:
  assumes "am_inv m" "am_covers p m" "ll_packet p"
  shows "\<exists>q m'. am_access p m = Inr (q, m') \<and> am_inv m' \<and> (\<forall>r. am_covers r m' = am_covers r m) \<and> am_view m' = am_view m \<and>
    p_cmd q = ReadResp \<and> load_ok p q (am_view m) \<and> am_mon m' = (am_mon m)(r_contextId (p_req p) \<mapsto> granule p)"
proof -
  have p: "pkt_ok p" "p_cmd p = LoadLockedReq" "answers p" "0 < unat (p_size p)" using assms(3) by (auto simp: ll_packet_def answers_def)
  obtain m' where m': "trackLoadLocked p m = Inr m'" "am_like m m'" "am_pmem m' = am_pmem m" "locks_ok (lockedAddrList m')"
    "am_mon m' = (am_mon m)(r_contextId (p_req p) \<mapsto> granule p)" using track_ok [OF assms] by blast
  note keep = am_like_keeps [OF assms(1) m'(2,4)]
  have same: "am_base m' = am_base m" "am_view m' = am_view m" using m'(2,3) by (simp_all add: am_like_def am_base_def am_view_def)
  obtain p' where p': "am_load p (unat (p_addr p) - am_base m') m' = Inr p'" "p_cmd p' = p_cmd p" "load_ok p p' (am_view m')"
    using am_load_ok [OF keep(1) _ p(1)] keep(2) assms(2) p(2) by (auto simp: isMaskedWrite_def)
  have "am_dispatch p (unat (p_addr p) - am_base m) m = Inr (p', m')"
    using p(2) p'(1) m'(1) same by (simp add: am_dispatch_def cmd_predicates)
  from am_access_dispatch [OF assms(1,2) p(4,1,3) this] show ?thesis
    using p(2) p'(2,3) keep same m'(5) by (auto simp: respond_def cmd_predicates responseCommand_def load_ok_def)
qed

text \<open>Ordinary and conditional stores.\<close>

lemma am_store_law:
  assumes "am_inv m" "am_covers p m" "pkt_ok p" "answers p" "0 < unat (p_size p)" "\<not> isMaskedWrite p" "\<not> isSet (r_flags (p_req p)) R_INST_FETCH"
    "p_cmd p = WriteReq \<or> p_cmd p = StoreCondReq \<and> hasContextId (p_req p)"
  defines "b \<equiv> p_cmd p = StoreCondReq \<longrightarrow> am_mon m (r_contextId (p_req p)) = Some (granule p)"
  shows "\<exists>q m'. am_access p m = Inr (q, m') \<and> am_like m m' \<and> am_inv m' \<and> (\<forall>r. am_covers r m' = am_covers r m) \<and>
    p_cmd q = responseCommand (p_cmd p) \<and> (p_cmd p = StoreCondReq \<longrightarrow> r_extraData (p_req q) = (if b then 1 else 0)) \<and>
    am_view m' = (if b then store_view p (am_view m) else am_view m) \<and>
    am_mon m' = (if b then mon_clear (granule p) (am_mon m) else am_mon m)"
proof -
  let ?off = "unat (p_addr p) - am_base m"
  have ll: "isLLSC (p_cmd p) \<longleftrightarrow> p_cmd p = StoreCondReq" using assms(8) by (auto simp: cmd_predicates)
  let ?p = "if p_cmd p = StoreCondReq then p\<lparr>p_req := setExtraData (if am_mon m (r_contextId (p_req p)) = Some (granule p) then 1 else 0) (p_req p)\<rparr> else p"
  obtain m1 where m1: "writeOK p m = Inr (b, ?p, m1)" "am_like m m1" "am_pmem m1 = am_pmem m" "locks_ok (lockedAddrList m1)"
    "am_mon m1 = (if b then mon_clear (granule p) (am_mon m) else am_mon m)"
    using writeOK_ok [OF assms(1,2)] assms(8) unfolding ll b_def by auto
  note keep = am_like_keeps [OF assms(1) m1(2,4)]
  have same: "am_base m1 = am_base m" "am_view m1 = am_view m" using m1(2,3) by (simp_all add: am_like_def am_base_def am_view_def)
  have p: "pkt_ok ?p" "am_covers ?p m1" "\<not> isMaskedWrite ?p" "p_addr ?p = p_addr p" "p_cmd ?p = p_cmd p"
    "\<not> isSet (r_flags (p_req ?p)) R_INST_FETCH" "store_view ?p = store_view p"
    "p_cmd p = StoreCondReq \<longrightarrow> r_extraData (p_req ?p) = (if b then 1 else 0)"
    using assms(2,3,6,7,8) keep(2) by (auto simp: pkt_ok_def am_covers_def isMaskedWrite_def setExtraData_def hasPaddr_def
      flag_simps store_view_def pkt_covers_def fun_eq_iff b_def)
  obtain bs where bs: "am_store ?p ?off m1 = Inr (m1\<lparr>am_pmem := Some bs\<rparr>)" "length bs = length (the (am_pmem m1))"
    "am_view (m1\<lparr>am_pmem := Some bs\<rparr>) = store_view p (am_view m)"
    using am_store_ok [OF keep(1) p(2,1,3)] unfolding p(4,7) same by blast
  let ?m = "if b then m1\<lparr>am_pmem := Some bs\<rparr> else m1"
  have "am_dispatch p ?off m = Inr (?p, ?m)"
    using m1(1) bs(1) p(6) assms(8) by (auto simp: am_dispatch_def cmd_predicates)
  from am_access_dispatch [OF assms(1,2,5,3,4) this] have run: "am_access p m = Inr (respond ?p, ?m)" .
  have like: "am_like m1 ?m" using keep(1) bs(2) by (auto simp: am_like_def am_inv_def)
  have "am_like m ?m" using m1(2) like by (simp add: am_like_def)
  moreover from am_like_keeps [OF keep(1) like] m1(4) have "am_inv ?m" "\<forall>r. am_covers r ?m = am_covers r m" using keep(2) by simp_all
  moreover have "p_cmd (respond ?p) = responseCommand (p_cmd p)" "p_req (respond ?p) = p_req ?p"
    using assms(8) by (auto simp: respond_def cmd_predicates)
  moreover have "am_mon ?m = am_mon m1" by (simp add: am_mon_def)
  ultimately show ?thesis using run bs(3) m1(5) p(8) same by (intro exI conjI) auto
qed

lemma am_write_law:
  assumes "am_inv m" "am_covers p m" "simple_write p"
  shows "\<exists>q m'. am_access p m = Inr (q, m') \<and> am_like m m' \<and> am_inv m' \<and> (\<forall>r. am_covers r m' = am_covers r m) \<and>
    am_view m' = store_view p (am_view m) \<and> p_cmd q = WriteResp \<and> am_mon m' = mon_clear (granule p) (am_mon m)"
proof -
  have p: "pkt_ok p" "p_cmd p = WriteReq" "answers p" "0 < unat (p_size p)" "\<not> isMaskedWrite p" "\<not> isSet (r_flags (p_req p)) R_INST_FETCH"
    using assms(3) by (auto simp: simple_write_def answers_def)
  then show ?thesis using am_store_law [OF assms(1,2) p(1,3,4,5,6)] by (auto simp: responseCommand_def)
qed

interpretation am: llsc_memory am_access am_view am_inv am_covers am_mon
proof
  fix s p assume a: "am_inv s" "am_covers p s" "simple_read p"
  show "\<exists>q s'. am_access p s = Inr (q, s') \<and> am_inv s' \<and> (\<forall>r. am_covers r s' = am_covers r s) \<and> am_view s' = am_view s \<and>
      p_cmd q = ReadResp \<and> load_ok p q (am_view s)"
    using am_read_law [OF a] a(1) by blast
next
  fix s p assume a: "am_inv s" "am_covers p s" "simple_write p"
  show "\<exists>q s'. am_access p s = Inr (q, s') \<and> am_inv s' \<and> (\<forall>r. am_covers r s' = am_covers r s) \<and>
      am_view s' = store_view p (am_view s) \<and> p_cmd q = WriteResp"
    using am_write_law [OF a] by blast
next
  fix s p assume a: "am_inv s" "am_covers p s" "ll_packet p"
  show "\<exists>q s'. am_access p s = Inr (q, s') \<and> am_inv s' \<and> (\<forall>r. am_covers r s' = am_covers r s) \<and> am_view s' = am_view s \<and>
      p_cmd q = ReadResp \<and> load_ok p q (am_view s) \<and> am_mon s' = (am_mon s)(r_contextId (p_req p) \<mapsto> granule p)"
    by (rule am_ll_law [OF a])
next
  fix s p assume a: "am_inv s" "am_covers p s" "sc_packet p"
  then have p: "pkt_ok p" "p_cmd p = StoreCondReq" "answers p" "0 < unat (p_size p)" "\<not> isMaskedWrite p" "\<not> isSet (r_flags (p_req p)) R_INST_FETCH"
    "hasContextId (p_req p)" by (auto simp: sc_packet_def answers_def isMaskedWrite_def)
  show "\<exists>q s'. am_access p s = Inr (q, s') \<and> am_inv s' \<and> (\<forall>r. am_covers r s' = am_covers r s) \<and> p_cmd q = StoreCondResp \<and>
      (if am_mon s (r_contextId (p_req p)) = Some (granule p)
       then r_extraData (p_req q) = 1 \<and> am_view s' = store_view p (am_view s) \<and> am_mon s' = mon_clear (granule p) (am_mon s)
       else r_extraData (p_req q) = 0 \<and> am_view s' = am_view s \<and> am_mon s' = am_mon s)"
  proof -
    obtain q m' where "am_access p s = Inr (q, m')" "am_inv m'" "\<forall>r. am_covers r m' = am_covers r s" "p_cmd q = StoreCondResp"
      "r_extraData (p_req q) = (if am_mon s (r_contextId (p_req p)) = Some (granule p) then 1 else 0)"
      "am_view m' = (if am_mon s (r_contextId (p_req p)) = Some (granule p) then store_view p (am_view s) else am_view s)"
      "am_mon m' = (if am_mon s (r_contextId (p_req p)) = Some (granule p) then mon_clear (granule p) (am_mon s) else am_mon s)"
      using am_store_law [OF a(1,2) p(1,3,4,5,6)] p(2,7) by (auto simp: responseCommand_def)
    then show ?thesis by (intro exI [of _ q] exI [of _ m']) simp
  qed
next
  fix s p q s' assume a: "am_inv s" "am_covers p s" "simple_read p" "am_access p s = Inr (q, s')"
  then show "am_mon s' = am_mon s" using am_read_law [OF a(1-3)] by auto
next
  fix s p q s' assume a: "am_inv s" "am_covers p s" "simple_write p" "am_access p s = Inr (q, s')"
  then show "am_mon s' = mon_clear (granule p) (am_mon s)" using am_write_law [OF a(1-3)] by auto
qed

section \<open>Properties\<close>

text \<open>A memory of 256 bytes at 0x1000, and packets of a context.\<close>

definition sample_mem :: abstract_mem where
  "sample_mem = \<lparr>am_range = RangeSize 0x1000 0x100, am_pmem = Some (replicate 256 0), am_backdoor = True, am_writeable = True,
     lockedAddrList = [], am_invalidations = 0, am_cleared = []\<rparr>"

definition ctx_packet :: "int \<Rightarrow> command \<Rightarrow> addr \<Rightarrow> u8 list \<Rightarrow> packet" where
  "ctx_packet c cmd a bs = (data_packet cmd a bs)\<lparr>p_req := setContext c (p_req (data_packet cmd a bs))\<rparr>"

lemma sample_mem_inv: "am_inv sample_mem"
  by (simp add: sample_mem_def am_inv_def am_base_def RangeSize_def plain_def)

lemma sample_covers: "am_covers (data_packet cmd 0x1010 [1, 2, 3, 4]) sample_mem"
  by (simp add: am_covers_def am_base_def sample_mem_def RangeSize_def data_packet_def packet_init_def Request_phys_def Request_default_def
    hasPaddr_def isSet_def setFlags_def)

text \<open>C9: After a load locked of a context, with any reads, writes, load locked of other contexts and store conditionals
  in between, the store conditional of the context to the same granule succeeds exactly when none of the
  requests in between whose address is in the granule stored its bytes.\<close>

theorem store_conditional_atomic:
  assumes "am_inv m" "\<forall>p\<in>set (ll # mid @ [sc]). am_covers p m"
    "\<forall>p\<in>set mid. simple_read p \<or> simple_write p \<or> ll_packet p \<or> sc_packet p"
    "ll_packet ll" "sc_packet sc" "granule sc = granule ll" "r_contextId (p_req sc) = r_contextId (p_req ll)"
    "\<forall>p\<in>set mid. \<not> (p_cmd p = LoadLockedReq \<and> r_contextId (p_req p) = r_contextId (p_req ll))"
  shows "\<exists>q0 qs q1 m'. run_access am_access (ll # mid @ [sc]) m = Inr (q0 # qs @ [q1], m') \<and> length qs = length mid \<and>
    (r_extraData (p_req q1) = 1 \<longleftrightarrow> (\<forall>(p, q)\<in>set (zip mid qs). \<not> (granule p = granule ll \<and> stored p q)))"
  using assms by (intro am.sc_atomic) (auto simp: am.accepted_def)

lemma isSet_zero: "\<not> isSet (0 :: u64) m"
  by (simp add: isSet_def)

lemma ctx_packets:
  assumes "0 < length bs" "length bs < 2 ^ 32" "c \<noteq> InvalidContextID"
  shows "ll_packet (ctx_packet c LoadLockedReq a bs)" "sc_packet (ctx_packet c StoreCondReq a bs)"
  using assms data_packet_ok [of bs] isSet_zero data_packet_quiet [of LoadLockedReq a bs] data_packet_quiet [of StoreCondReq a bs]
  by (auto simp: ll_packet_def sc_packet_def ctx_packet_def setContext_def hasContextId_def flag_simps unat_of_nat
    take_bit_nat_eq_self cacheResponding_def pkt_ok_def)

lemma ctx_packet_sel [simp]:
  "p_cmd (ctx_packet c cmd a bs) = cmd" "r_contextId (p_req (ctx_packet c cmd a bs)) = c" "granule (ctx_packet c cmd a bs) = la_mask a"
  "granule (data_packet cmd a bs) = la_mask a" "p_addr (ctx_packet c cmd a bs) = a"
  by (simp_all add: ctx_packet_def setContext_def data_packet_def packet_init_def granule_def Request_phys_def Request_default_def)

lemma packet_covers:
  assumes "0x1000 \<le> unat a" "unat a + length bs \<le> 0x1100"
  shows "am_covers (ctx_packet c cmd a bs) sample_mem" "am_covers (data_packet cmd a bs) sample_mem"
  using assms by (simp_all add: am_covers_def am_base_def sample_mem_def RangeSize_def ctx_packet_def setContext_def data_packet_def packet_init_def
    Request_phys_def Request_default_def hasPaddr_def isSet_def setFlags_def unat_of_nat take_bit_nat_eq_self)

theorem store_conditional_atomic_witness:
  "\<exists>q0 qs q1 m'. run_access am_access (ctx_packet 0 LoadLockedReq 0x1010 [0, 0] # [data_packet WriteReq 0x1010 [7]] @ [ctx_packet 0 StoreCondReq 0x1010 [1, 2]])
     sample_mem = Inr (q0 # qs @ [q1], m') \<and> r_extraData (p_req q1) \<noteq> 1"
proof -
  let ?ll = "ctx_packet 0 LoadLockedReq 0x1010 [0, 0]" and ?w = "data_packet WriteReq 0x1010 [7]" and ?sc = "ctx_packet 0 StoreCondReq 0x1010 [1, 2]"
  have "\<exists>q0 qs q1 m'. run_access am_access (?ll # [?w] @ [?sc]) sample_mem = Inr (q0 # qs @ [q1], m') \<and> length qs = length [?w] \<and>
    (r_extraData (p_req q1) = 1 \<longleftrightarrow> (\<forall>(p, q)\<in>set (zip [?w] qs). \<not> (granule p = granule ?ll \<and> stored p q)))"
    by (rule store_conditional_atomic [OF sample_mem_inv]) (auto intro!: packet_covers ctx_packets simple_data_packets)
  then show ?thesis by (auto simp: stored_def length_Suc_conv)
qed

end
