(* ===== verification/Physical_Mem.thy ===== *)
theory Physical_Mem
  imports Abstract_Mem Addr_Range_Map
begin

text \<open>
  Model of the physical memory (\<^verbatim>\<open>src/gem5/src/mem/physical.hh\<close>, \<^verbatim>\<open>mem/physical.cc\<close>): the memories of a
  system behind one address map, with their backing stores.  Memories are indices into a list of
  objects; the memories of an interleaved range share one backing store, so the bytes live in the list
  of stores and a memory holds the index of its store.  The result of the host's \<^verbatim>\<open>mmap\<close> for a size is an
  argument, \<^term>\<open>None\<close> when it fails.  Backing stores shared with other processes are not modelled.
\<close>

section \<open>State\<close>

record phys_entry =
  pe_mem :: abstract_mem
  pe_null :: bool
  pe_conf :: bool
  pe_inMap :: bool
  pe_kvm :: bool
  pe_store :: "nat option"

record backing_store =
  bs_range :: addr_range
  bs_pmem :: "u8 list"
  bs_conf :: bool
  bs_inMap :: bool
  bs_kvm :: bool

record physical_memory =
  addrMap :: "nat range_map"
  memories :: "nat list"
  objects :: "phys_entry list"
  phys_size :: u64
  backingStore :: "backing_store list"

abbreviation (input) entry_range :: "phys_entry \<Rightarrow> addr_range" where
  "entry_range e \<equiv> am_range (pe_mem e)"

text \<open>The memory object as its operations see it, with the bytes of its store.\<close>

definition mem_at :: "physical_memory \<Rightarrow> nat \<Rightarrow> abstract_mem" where
  "mem_at ph i = (pe_mem (objects ph ! i))\<lparr>am_pmem := map_option (\<lambda>k. bs_pmem (backingStore ph ! k)) (pe_store (objects ph ! i))\<rparr>"

definition put_mem :: "nat \<Rightarrow> abstract_mem \<Rightarrow> physical_memory \<Rightarrow> physical_memory" where
  "put_mem i m ph =
     ph\<lparr>objects := (objects ph)[i := (objects ph ! i)\<lparr>pe_mem := m\<rparr>],
        backingStore := (case pe_store (objects ph ! i) of
           None \<Rightarrow> backingStore ph
         | Some k \<Rightarrow> (backingStore ph)[k := (backingStore ph ! k)\<lparr>bs_pmem := the (am_pmem m)\<rparr>])\<rparr>"

section \<open>Construction\<close>

definition createBackingStore ::
  "(addr \<Rightarrow> u8 list option) \<Rightarrow> addr_range \<Rightarrow> nat list \<Rightarrow> bool \<Rightarrow> bool \<Rightarrow> bool \<Rightarrow> physical_memory \<Rightarrow> physical_memory res" where
  "createBackingStore mm r ids conf inmap kvm ph =
     (if interleaved r then Inl Panic
      else case mm (range_size r) of
        None \<Rightarrow> Inl Fatal
      | Some pmem \<Rightarrow>
          Inr (ph\<lparr>objects := fold (\<lambda>i es. es[i := (es ! i)\<lparr>pe_mem := setBackingStore (Some pmem) (pe_mem (es ! i)),
                                         pe_store := Some (length (backingStore ph))\<rparr>]) ids (objects ph),
                  backingStore := backingStore ph @
                    [\<lparr>bs_range = r, bs_pmem = pmem, bs_conf = conf, bs_inMap = inmap, bs_kvm = kvm\<rparr>]\<rparr>))"

text \<open>The first loop of the constructor, over all memories.\<close>

definition add_memory :: "(addr \<Rightarrow> u8 list option) \<Rightarrow> nat \<Rightarrow> physical_memory \<Rightarrow> physical_memory res" where
  "add_memory mm i ph =
     (let e = objects ph ! i in
      if pe_inMap e then
        (let ph = ph\<lparr>memories := memories ph @ [i], phys_size := phys_size ph + range_size (entry_range e)\<rparr> in
         sbind (rm_insert 1 (entry_range e) i (addrMap ph)) (\<lambda>(hit, am).
           if hit = None then Inl Fatal else Inr (ph\<lparr>addrMap := am\<rparr>)))
      else if interleaved (entry_range e) then Inl Fatal
      else createBackingStore mm (entry_range e) [i] (pe_conf e) (pe_inMap e) (pe_kvm e) ph)"

text \<open>The backing store of the stripes collected so far.\<close>

definition flush_stripes :: "(addr \<Rightarrow> u8 list option) \<Rightarrow> addr_range list \<Rightarrow> nat list \<Rightarrow> physical_memory \<Rightarrow> physical_memory res" where
  "flush_stripes mm rs ids ph =
     sbind (AddrRange_merge rs) (\<lambda>merged_range.
       (let f = objects ph ! hd ids in
        if \<exists>c\<in>set ids. pe_conf (objects ph ! c) \<noteq> pe_conf f \<or> pe_inMap (objects ph ! c) \<noteq> pe_inMap f \<or> pe_kvm (objects ph ! c) \<noteq> pe_kvm f
        then Inl Fatal
        else createBackingStore mm merged_range ids (pe_conf f) (pe_inMap f) (pe_kvm f) ph))"

fun back_entries ::
  "(addr \<Rightarrow> u8 list option) \<Rightarrow> (addr_range \<times> nat) list \<Rightarrow> addr_range list \<Rightarrow> nat list \<Rightarrow> physical_memory \<Rightarrow> physical_memory res" where
  "back_entries mm [] rs ids ph = (if rs \<noteq> [] then flush_stripes mm rs ids ph else Inr ph)"
| "back_entries mm ((r, i) # es) rs ids ph =
     (let e = objects ph ! i in
      if pe_null e then back_entries mm es rs ids ph
      else if interleaved r then
        if rs \<noteq> [] \<and> \<not> mergesWith (last rs) r
        then sbind (flush_stripes mm rs ids ph) (back_entries mm es [r] [i])
        else back_entries mm es (rs @ [r]) (ids @ [i]) ph
      else sbind (createBackingStore mm r [i] (pe_conf e) (pe_inMap e) (pe_kvm e) ph) (back_entries mm es rs ids))"

definition PhysicalMemory_new :: "(addr \<Rightarrow> u8 list option) \<Rightarrow> phys_entry list \<Rightarrow> physical_memory res" where
  "PhysicalMemory_new mm es =
     sbind (sfoldl (\<lambda>ph i. add_memory mm i ph)
       \<lparr>addrMap = rm_empty, memories = [], objects = es, phys_size = 0, backingStore = []\<rparr> [0..<length es]) (\<lambda>ph.
     back_entries mm (tree (addrMap ph)) [] [] ph)"

section \<open>Accesses\<close>

definition isMemAddr :: "addr \<Rightarrow> physical_memory \<Rightarrow> (bool \<times> physical_memory) res" where
  "isMemAddr a ph = sbind (rm_contains_addr 1 a (addrMap ph)) (\<lambda>(hit, am). Inr (hit \<noteq> None, ph\<lparr>addrMap := am\<rparr>))"

fun conf_ranges :: "physical_memory \<Rightarrow> (addr_range \<times> nat) list \<Rightarrow> addr_range list \<Rightarrow> addr_range list res" where
  "conf_ranges ph [] rs = (if rs \<noteq> [] then sbind (AddrRange_merge rs) (\<lambda>r. Inr [r]) else Inr [])"
| "conf_ranges ph ((r, i) # es) rs =
     (if pe_conf (objects ph ! i) then
        if interleaved r then
          if rs \<noteq> [] \<and> \<not> mergesWith (last rs) r
          then sbind (AddrRange_merge rs) (\<lambda>m. sbind (conf_ranges ph es [r]) (\<lambda>ranges. Inr (m # ranges)))
          else conf_ranges ph es (rs @ [r])
        else sbind (conf_ranges ph es rs) (\<lambda>ranges. Inr (r # ranges))
      else conf_ranges ph es rs)"

definition getConfAddrRanges :: "physical_memory \<Rightarrow> addr_range list res" where
  "getConfAddrRanges ph = conf_ranges ph (tree (addrMap ph)) []"

definition find_memory :: "packet \<Rightarrow> physical_memory \<Rightarrow> (nat \<times> physical_memory) res" where
  "find_memory pkt ph =
     sbind (sassert (isRequest (p_cmd pkt))) (\<lambda>_.
     sbind (getAddrRange pkt) (\<lambda>r.
     sbind (rm_contains 1 r (addrMap ph)) (\<lambda>(hit, am).
       case hit of
         None \<Rightarrow> Inl Assert_Failed
       | Some k \<Rightarrow> Inr (the (map_of (tree am) k), ph\<lparr>addrMap := am\<rparr>))))"

definition phys_access :: "packet \<Rightarrow> physical_memory \<Rightarrow> (packet \<times> physical_memory) res" where
  "phys_access pkt ph =
     sbind (find_memory pkt ph) (\<lambda>(i, ph).
     sbind (am_access pkt (mem_at ph i)) (\<lambda>(pkt, m). Inr (pkt, put_mem i m ph)))"

definition phys_functionalAccess :: "bool \<Rightarrow> packet \<Rightarrow> physical_memory \<Rightarrow> (packet \<times> physical_memory) res" where
  "phys_functionalAccess prs pkt ph =
     sbind (find_memory pkt ph) (\<lambda>(i, ph).
     sbind (functionalAccess prs pkt (mem_at ph i)) (\<lambda>(pkt, m). Inr (pkt, put_mem i m ph)))"

section \<open>Checkpoints\<close>

record phys_ckpt =
  lal_addr :: "addr list"
  lal_cid :: "int list"
  ck_stores :: "(addr \<times> u8 list) list"

definition phys_serialize :: "physical_memory \<Rightarrow> phys_ckpt" where
  "phys_serialize ph =
     (let ls = concat (map (\<lambda>i. lockedAddrList (pe_mem (objects ph ! i))) (memories ph)) in
      \<lparr>lal_addr = map la_addr ls, lal_cid = map la_contextId ls, 
        ck_stores = map (\<lambda>s. (range_size (bs_range s), bs_pmem s)) (backingStore ph)\<rparr>)"

text \<open>
  The bytes of a file are copied in units of eight, and units of zeros are skipped; a size that
  is not a multiple of eight fails the assertion on the number of bytes read.
\<close>

fun copy_longs :: "u8 list \<Rightarrow> u8 list \<Rightarrow> u8 list" where
  "copy_longs (a # b # c # d # e # f # g # h # xs) ys =
     (let u = [a, b, c, d, e, f, g, h] in
      (if u \<noteq> replicate 8 0 then u else take 8 ys) @ copy_longs xs (drop 8 ys))"
| "copy_longs xs ys = ys"

text \<open>The file is read in chunks until it ends or as many bytes as the store has were read.\<close>

function restore_chunks :: "nat \<Rightarrow> u8 list \<Rightarrow> u8 list \<Rightarrow> u8 list res" where
  "restore_chunks sz file pmem =
     (if sz = 0 \<or> file = [] then Inr pmem
      else
        (let chunk = take 16384 file; bytes_read = length chunk in
         if bytes_read mod 8 \<noteq> 0 then Inl Assert_Failed
         else if length pmem < bytes_read then Inl Undefined_Behaviour
         else sbind (restore_chunks (sz - bytes_read) (drop bytes_read file) (drop bytes_read pmem)) (\<lambda>rest.
              Inr (copy_longs chunk (take bytes_read pmem) @ rest))))"
  by auto
termination by (relation "measure (\<lambda>(sz, file, pmem). length file)") auto

declare restore_chunks.simps [simp del]

text \<open>A store has as many bytes as its range.\<close>

definition unserializeStore :: "addr \<times> u8 list \<Rightarrow> backing_store \<Rightarrow> backing_store res" where
  "unserializeStore saved s =
     (if fst saved \<noteq> range_size (bs_range s) then Inl Fatal
      else sbind (restore_chunks (length (bs_pmem s)) (snd saved) (bs_pmem s)) (\<lambda>pmem. Inr (s\<lparr>bs_pmem := pmem\<rparr>)))"

definition restore_lock :: "physical_memory \<Rightarrow> addr \<times> int \<Rightarrow> physical_memory res" where
  "restore_lock ph l =
     sbind (rm_contains_addr 1 (fst l) (addrMap ph)) (\<lambda>(hit, am).
       case hit of
         None \<Rightarrow> Inl Undefined_Behaviour
       | Some k \<Rightarrow>
           (let i = the (map_of (tree am) k); e = objects ph ! i in
            Inr (ph\<lparr>addrMap := am,
                    objects := (objects ph)[i := e\<lparr>pe_mem := addLockedAddr \<lparr>la_addr = fst l, la_contextId = snd l\<rparr> (pe_mem e)\<rparr>]\<rparr>)))"

fun restore_stores :: "(addr \<times> u8 list) list \<Rightarrow> backing_store list \<Rightarrow> backing_store list res" where
  "restore_stores [] ss = Inr ss"
| "restore_stores (f # fs) [] = Inl Undefined_Behaviour"
| "restore_stores (f # fs) (s # ss) =
     sbind (unserializeStore f s) (\<lambda>s. sbind (restore_stores fs ss) (\<lambda>ss. Inr (s # ss)))"

definition phys_unserialize :: "phys_ckpt \<Rightarrow> physical_memory \<Rightarrow> physical_memory res" where
  "phys_unserialize c ph =
     sbind (sfoldl restore_lock ph (zip (lal_addr c) (lal_cid c))) (\<lambda>ph.
     sbind (restore_stores (ck_stores c) (backingStore ph)) (\<lambda>ss. Inr (ph\<lparr>backingStore := ss\<rparr>)))"

section \<open>The memories as one byte memory\<close>

text \<open>Every mapped memory has its range as key and a backing store of its own, and keeps its invariant.\<close>

definition phys_inv :: "physical_memory \<Rightarrow> bool" where
  "phys_inv ph \<longleftrightarrow> rm_inv (addrMap ph) \<and>
     (\<forall>(k, i)\<in>set (tree (addrMap ph)). i < length (objects ph) \<and> entry_range (objects ph ! i) = k \<and> am_inv (mem_at ph i) \<and>
        (\<exists>s < length (backingStore ph). pe_store (objects ph ! i) = Some s)) \<and>
     inj_on (\<lambda>i. pe_store (objects ph ! i)) (snd ` set (tree (addrMap ph)))"

definition phys_covers :: "packet \<Rightarrow> physical_memory \<Rightarrow> bool" where
  "phys_covers p ph \<longleftrightarrow> (\<exists>i\<in>snd ` set (tree (addrMap ph)). am_covers p (mem_at ph i))"

definition phys_view :: "physical_memory \<Rightarrow> addr \<Rightarrow> u8 option" where
  "phys_view ph a = Option.bind (rm_lookup (addrMap ph) a) (\<lambda>i. am_view (mem_at ph i) a)"

lemma phys_invD:
  assumes "phys_inv ph" "(k, i) \<in> set (tree (addrMap ph))"
  shows "i < length (objects ph)" "entry_range (objects ph ! i) = k" "am_inv (mem_at ph i)" "am_range (mem_at ph i) = k"
    "\<exists>s < length (backingStore ph). pe_store (objects ph ! i) = Some s"
  using assms by (auto simp: phys_inv_def mem_at_def)

lemma mem_at_map [simp]: "mem_at (ph\<lparr>addrMap := m\<rparr>) i = mem_at ph i"
  by (simp add: mem_at_def)

text \<open>Storing a memory back changes this memory only.\<close>

lemma put_mem_same:
  assumes "phys_inv ph" "(k, i) \<in> set (tree (addrMap ph))" "am_pmem m \<noteq> None"
  shows "mem_at (put_mem i m ph) i = m"
proof -
  obtain s where s: "s < length (backingStore ph)" "pe_store (objects ph ! i) = Some s" using phys_invD(5) [OF assms(1,2)] by blast
  obtain bs where "am_pmem m = Some bs" using assms(3) by blast
  moreover have "m\<lparr>am_pmem := am_pmem m\<rparr> = m" by simp
  ultimately show ?thesis using s phys_invD(1) [OF assms(1,2)] by (simp add: mem_at_def put_mem_def)
qed

lemma put_mem_other:
  assumes "phys_inv ph" "(k, i) \<in> set (tree (addrMap ph))" "(l, j) \<in> set (tree (addrMap ph))" "j \<noteq> i"
  shows "mem_at (put_mem i m ph) j = mem_at ph j"
proof -
  obtain s where s: "s < length (backingStore ph)" "pe_store (objects ph ! i) = Some s" using phys_invD(5) [OF assms(1,2)] by blast
  obtain t where t: "t < length (backingStore ph)" "pe_store (objects ph ! j) = Some t" using phys_invD(5) [OF assms(1,3)] by blast
  have inj: "inj_on (\<lambda>i. pe_store (objects ph ! i)) (snd ` set (tree (addrMap ph)))" using assms(1) by (simp add: phys_inv_def)
  have ij: "i \<in> snd ` set (tree (addrMap ph))" "j \<in> snd ` set (tree (addrMap ph))" using assms(2,3) by force+
  have "s \<noteq> t" using inj_onD [OF inj _ ij] s(2) t(2) assms(4) by auto
  then show ?thesis using s t assms(4) by (simp add: mem_at_def put_mem_def)
qed

lemma put_mem_inv:
  assumes "phys_inv ph" "(k, i) \<in> set (tree (addrMap ph))" "am_inv m" "am_like (mem_at ph i) m"
  shows "phys_inv (put_mem i m ph)" "phys_covers r (put_mem i m ph) = phys_covers r ph"
proof -
  have pm: "am_pmem m \<noteq> None" using assms(3) by (simp add: am_inv_def)
  obtain s where s: "s < length (backingStore ph)" "pe_store (objects ph ! i) = Some s" using phys_invD(5) [OF assms(1,2)] by blast
  have sel: "addrMap (put_mem i m ph) = addrMap ph" "length (objects (put_mem i m ph)) = length (objects ph)"
    "length (backingStore (put_mem i m ph)) = length (backingStore ph)" using s by (simp_all add: put_mem_def)
  have st: "pe_store (objects (put_mem i m ph) ! j) = pe_store (objects ph ! j)" for j
    using phys_invD(1) [OF assms(1,2)] by (cases "j = i") (simp_all add: put_mem_def)
  have rng: "entry_range (objects (put_mem i m ph) ! j) = entry_range (objects ph ! j)" for j
    using phys_invD(1,2,4) [OF assms(1,2)] assms(4) by (cases "j = i") (simp_all add: put_mem_def am_like_def)
  have inv: "am_inv (mem_at (put_mem i m ph) j)" if "(l, j) \<in> set (tree (addrMap ph))" for l j
    using put_mem_same [OF assms(1,2) pm] put_mem_other [OF assms(1,2) that] phys_invD(3) [OF assms(1) that] assms(3)
    by (cases "j = i") simp_all
  have body: "j < length (objects (put_mem i m ph)) \<and> entry_range (objects (put_mem i m ph) ! j) = l \<and> am_inv (mem_at (put_mem i m ph) j) \<and>
      (\<exists>t < length (backingStore (put_mem i m ph)). pe_store (objects (put_mem i m ph) ! j) = Some t)"
    if "(l, j) \<in> set (tree (addrMap ph))" for l j
    using phys_invD(1,2,5) [OF assms(1) that] inv [OF that] unfolding sel st rng by blast
  show "phys_inv (put_mem i m ph)"
    using assms(1) body unfolding phys_inv_def sel(1) st by blast
  have "am_covers r (mem_at (put_mem i m ph) j) = am_covers r (mem_at ph j)" if "(l, j) \<in> set (tree (addrMap ph))" for l j
    using put_mem_same [OF assms(1,2) pm] put_mem_other [OF assms(1,2) that] am_like_keeps(2) [OF phys_invD(3) [OF assms(1,2)] assms(4)] assms(3)
    by (cases "j = i") (simp_all add: am_inv_def)
  then have "\<forall>j\<in>snd ` set (tree (addrMap ph)). am_covers r (mem_at (put_mem i m ph) j) = am_covers r (mem_at ph j)" by auto
  then show "phys_covers r (put_mem i m ph) = phys_covers r ph" unfolding phys_covers_def sel(1) by (simp cong: bex_cong)
qed

lemma phys_inv_map:
  assumes "phys_inv ph" "tree m = tree (addrMap ph)" "rm_inv m"
  shows "phys_inv (ph\<lparr>addrMap := m\<rparr>)" "phys_covers r (ph\<lparr>addrMap := m\<rparr>) = phys_covers r ph" "phys_view (ph\<lparr>addrMap := m\<rparr>) = phys_view ph"
  using assms by (simp_all add: phys_inv_def phys_covers_def phys_view_def rm_lookup_def fun_eq_iff)

text \<open>The address map finds the memory that covers a packet.\<close>

lemma find_memory_ok:
  assumes "phys_inv ph" "(k, i) \<in> set (tree (addrMap ph))" "am_covers p (mem_at ph i)" "pkt_ok p" "0 < unat (p_size p)" "isRequest (p_cmd p)"
  shows "\<exists>m. find_memory p ph = Inr (i, ph\<lparr>addrMap := m\<rparr>) \<and> tree m = tree (addrMap ph) \<and> rm_inv m"
proof -
  let ?r = "RangeSize (p_addr p) (ucast (p_size p))"
  note inv = phys_invD [OF assms(1,2)]
  have rm: "rm_inv (addrMap ph)" using assms(1) by (simp add: phys_inv_def)
  have sub: "isSubset ?r k = Inr True" using am_subset [OF inv(3) assms(3,5)] inv(4) by simp
  have n: "unat (ucast (p_size p) :: addr) = unat (p_size p)" by (rule unat_ucast_up) simp
  have "unat (r_end (am_range (mem_at ph i))) < 2 ^ 64" using unat_lt_exp [of "r_end (am_range (mem_at ph i))"] by simp
  then have "unat (p_addr p + ucast (p_size p)) = unat (p_addr p) + unat (p_size p)"
    using inv(3) assms(3) n by (subst unat_add_no_wrap) (auto simp: am_inv_def am_covers_def)
  then have r: "\<not> interleaved ?r" "r_start ?r < r_end ?r" using assms(5) by (simp_all add: RangeSize_def interleaved_def word_less_nat_alt)
  have k: "k \<in> set (rm_keys (addrMap ph))" using assms(2) by (force simp: rm_keys_def)
  obtain res m where m: "rm_contains 1 ?r (addrMap ph) = Inr (res, m)" "tree m = tree (addrMap ph)" "rm_inv m"
    "\<forall>k. res = Some k \<longleftrightarrow> k \<in> set (rm_keys (addrMap ph)) \<and> isSubset ?r k = Inr True"
    using rm_contains_correct [OF rm r, of 1] by blast
  have "res = Some k" using m(4) k sub by blast
  moreover have "map_of (tree m) k = Some i"
    using rm_distinct [OF rm] assms(2) unfolding m(2) rm_keys_def by simp
  ultimately show ?thesis using m(1-3) assms(4,6) by (intro exI [of _ m]) (simp add: find_memory_def getAddrRange_def)
qed

lemma phys_lookup:
  assumes "phys_inv ph" "(k, i) \<in> set (tree (addrMap ph))" "contains k a"
  shows "rm_lookup (addrMap ph) a = Some i"
proof -
  have rm: "rm_inv (addrMap ph)" using assms(1) by (simp add: phys_inv_def)
  have "k \<in> set (rm_keys (addrMap ph))" using assms(2) by (force simp: rm_keys_def)
  from rm_lookup_eq [OF rm this assms(3)] show ?thesis using rm_distinct [OF rm] assms(2) by (simp add: rm_keys_def)
qed

lemma am_contains:
  assumes "am_inv m"
  shows "contains (am_range m) a \<longleftrightarrow> am_base m \<le> unat a \<and> unat a < am_base m + length (the (am_pmem m))"
proof -
  have "plain (am_range m)" and e: "unat (r_end (am_range m)) = am_base m + length (the (am_pmem m))"
    using assms by (simp_all add: am_inv_def)
  then have "a \<in> addrs (am_range m) \<longleftrightarrow> r_start (am_range m) \<le> a \<and> a < r_end (am_range m)" by (simp add: addrs_plain)
  then show ?thesis unfolding addrs_def mem_Collect_eq word_le_nat_alt word_less_nat_alt e by (simp add: am_base_def)
qed

lemma view_outside: "am_inv m \<Longrightarrow> \<not> contains (am_range m) a \<Longrightarrow> am_view m a = None"
  using am_contains [of m a] by (auto simp: am_view_def mem_view_def)

text \<open>The view of the whole memory after one of its memories has changed.\<close>

lemma phys_view_put:
  assumes "phys_inv ph" "(k, i) \<in> set (tree (addrMap ph))" "am_inv m" "am_like (mem_at ph i) m"
  shows "phys_view (put_mem i m ph) a = (if contains k a then am_view m a else phys_view ph a)"
proof -
  have pm: "am_pmem m \<noteq> None" using assms(3) by (simp add: am_inv_def)
  have map: "addrMap (put_mem i m ph) = addrMap ph" by (simp add: put_mem_def)
  show ?thesis
  proof (cases "contains k a")
    case True
    then show ?thesis using phys_lookup [OF assms(1,2)] put_mem_same [OF assms(1,2) pm] by (simp add: phys_view_def map)
  next
    case False
    have "mem_at (put_mem i m ph) j = mem_at ph j" if look: "rm_lookup (addrMap ph) a = Some j" for j
    proof -
      obtain x where "find (\<lambda>e. contains (fst e) a) (tree (addrMap ph)) = Some x" "snd x = j"
        using look by (auto simp: rm_lookup_def)
      then have "(fst x, j) \<in> set (tree (addrMap ph))" "contains (fst x) a" by (auto simp: find_Some_iff)
      then obtain l where l: "(l, j) \<in> set (tree (addrMap ph))" "contains l a" by blast
      then have "j \<noteq> i" using False phys_invD(2) [OF assms(1) l(1)] phys_invD(2) [OF assms(1,2)] by auto
      then show ?thesis using put_mem_other [OF assms(1,2) l(1)] by blast
    qed
    then show ?thesis using False by (cases "rm_lookup (addrMap ph) a") (simp_all add: phys_view_def map)
  qed
qed

lemma phys_view_at:
  assumes "phys_inv ph" "(k, i) \<in> set (tree (addrMap ph))" "am_covers p (mem_at ph i)" "pkt_covers p a"
  shows "contains k a" "phys_view ph a = am_view (mem_at ph i) a"
proof -
  have "am_base (mem_at ph i) \<le> unat a \<and> unat a < am_base (mem_at ph i) + length (the (am_pmem (mem_at ph i)))"
    using assms(3,4) by (auto simp: am_covers_def pkt_covers_def)
  then show c: "contains k a" using am_contains [OF phys_invD(3) [OF assms(1,2)]] phys_invD(4) [OF assms(1,2)] by simp
  show "phys_view ph a = am_view (mem_at ph i) a" using phys_lookup [OF assms(1,2) c] by (simp add: phys_view_def)
qed

text \<open>An access that one memory answers is the access of the whole.\<close>

lemma phys_access_ok:
  assumes "phys_inv ph" "(k, i) \<in> set (tree (addrMap ph))" "am_covers p (mem_at ph i)" "pkt_ok p" "0 < unat (p_size p)" "isRequest (p_cmd p)"
    "am_access p (mem_at ph i) = Inr (q, m)" "am_inv m" "am_like (mem_at ph i) m"
  shows "\<exists>ph'. phys_access p ph = Inr (q, ph') \<and> phys_inv ph' \<and> (\<forall>r. phys_covers r ph' = phys_covers r ph) \<and>
    phys_view ph' = (\<lambda>a. if contains k a then am_view m a else phys_view ph a)"
proof -
  obtain am where am: "find_memory p ph = Inr (i, ph\<lparr>addrMap := am\<rparr>)" "tree am = tree (addrMap ph)" "rm_inv am"
    using find_memory_ok [OF assms(1-6)] by blast
  let ?ph = "ph\<lparr>addrMap := am\<rparr>"
  note map = phys_inv_map [OF assms(1) am(2,3)]
  have i: "(k, i) \<in> set (tree (addrMap ?ph))" "am_like (mem_at ?ph i) m" using assms(2,9) am(2) by simp_all
  have "phys_access p ph = Inr (q, put_mem i m ?ph)" using am(1) assms(7) by (simp add: phys_access_def)
  moreover have "phys_inv (put_mem i m ?ph)" "\<forall>r. phys_covers r (put_mem i m ?ph) = phys_covers r ph"
    using put_mem_inv [OF map(1) i(1) assms(8) i(2)] map(2) by simp_all
  moreover have "phys_view (put_mem i m ?ph) = (\<lambda>a. if contains k a then am_view m a else phys_view ph a)"
    using phys_view_put [OF map(1) i(1) assms(8) i(2)] map(3) by (simp add: fun_eq_iff)
  ultimately show ?thesis by blast
qed

lemma phys_read_law:
  assumes "phys_inv ph" "phys_covers p ph" "simple_read p"
  shows "\<exists>q ph'. phys_access p ph = Inr (q, ph') \<and> phys_inv ph' \<and> (\<forall>r. phys_covers r ph' = phys_covers r ph) \<and>
    phys_view ph' = phys_view ph \<and> p_cmd q = ReadResp \<and> load_ok p q (phys_view ph)"
proof -
  obtain k i where i: "(k, i) \<in> set (tree (addrMap ph))" "am_covers p (mem_at ph i)" using assms(2) by (auto simp: phys_covers_def)
  note inv = phys_invD [OF assms(1) i(1)]
  have p: "pkt_ok p" "0 < unat (p_size p)" "isRequest (p_cmd p)" using assms(3) by (auto simp: simple_read_def cmd_predicates)
  obtain q where q: "am_access p (mem_at ph i) = Inr (q, mem_at ph i)" "p_cmd q = ReadResp" "load_ok p q (am_view (mem_at ph i))"
    using am_read_law [OF inv(3) i(2) assms(3)] by blast
  obtain ph' where ph': "phys_access p ph = Inr (q, ph')" "phys_inv ph'" "\<forall>r. phys_covers r ph' = phys_covers r ph"
    "phys_view ph' = (\<lambda>a. if contains k a then am_view (mem_at ph i) a else phys_view ph a)"
    using phys_access_ok [OF assms(1) i p q(1) inv(3)] by (auto simp: am_like_def)
  have "phys_view ph' = phys_view ph"
    using phys_lookup [OF assms(1) i(1)] unfolding ph'(4) by (auto simp: phys_view_def fun_eq_iff)
  moreover have "load_ok p q (phys_view ph)" using q(3) phys_view_at(2) [OF assms(1) i] by (auto simp: load_ok_def)
  ultimately show ?thesis using ph'(1-3) q(2) by blast
qed

lemma phys_write_law:
  assumes "phys_inv ph" "phys_covers p ph" "simple_write p"
  shows "\<exists>q ph'. phys_access p ph = Inr (q, ph') \<and> phys_inv ph' \<and> (\<forall>r. phys_covers r ph' = phys_covers r ph) \<and>
    phys_view ph' = store_view p (phys_view ph) \<and> p_cmd q = WriteResp"
proof -
  obtain k i where i: "(k, i) \<in> set (tree (addrMap ph))" "am_covers p (mem_at ph i)" using assms(2) by (auto simp: phys_covers_def)
  note inv = phys_invD [OF assms(1) i(1)]
  have p: "pkt_ok p" "0 < unat (p_size p)" "isRequest (p_cmd p)" using assms(3) by (auto simp: simple_write_def cmd_predicates)
  obtain q m where q: "am_access p (mem_at ph i) = Inr (q, m)" "am_like (mem_at ph i) m" "am_inv m"
    "am_view m = store_view p (am_view (mem_at ph i))" "p_cmd q = WriteResp"
    using am_write_law [OF inv(3) i(2) assms(3)] by blast
  obtain ph' where ph': "phys_access p ph = Inr (q, ph')" "phys_inv ph'" "\<forall>r. phys_covers r ph' = phys_covers r ph"
    "phys_view ph' = (\<lambda>a. if contains k a then am_view m a else phys_view ph a)"
    using phys_access_ok [OF assms(1) i p q(1,3,2)] by blast
  have "phys_view ph' a = store_view p (phys_view ph) a" for a
  proof (cases "pkt_covers p a")
    case True
    then show ?thesis using phys_view_at(1) [OF assms(1) i True] by (simp add: ph'(4) q(4) store_view_def)
  next
    case False
    then show ?thesis using phys_lookup [OF assms(1) i(1), of a] by (simp add: ph'(4) q(4) store_view_def phys_view_def)
  qed
  then show ?thesis using ph'(1-3) q(5) by blast
qed

interpretation phys: byte_memory phys_access phys_view phys_inv phys_covers
proof
  fix ph p assume a: "phys_inv ph" "phys_covers p ph" "simple_read p"
  show "\<exists>q ph'. phys_access p ph = Inr (q, ph') \<and> phys_inv ph' \<and> (\<forall>r. phys_covers r ph' = phys_covers r ph) \<and>
      phys_view ph' = phys_view ph \<and> p_cmd q = ReadResp \<and> load_ok p q (phys_view ph)"
    by (rule phys_read_law [OF a])
next
  fix ph p assume a: "phys_inv ph" "phys_covers p ph" "simple_write p"
  show "\<exists>q ph'. phys_access p ph = Inr (q, ph') \<and> phys_inv ph' \<and> (\<forall>r. phys_covers r ph' = phys_covers r ph) \<and>
      phys_view ph' = store_view p (phys_view ph) \<and> p_cmd q = WriteResp"
    by (rule phys_write_law [OF a])
qed

section \<open>Construction establishes the invariant\<close>

text \<open>Memories in the address map with plain ranges, before and after they get a store of the right size.\<close>

definition plain_object :: "phys_entry \<Rightarrow> bool" where
  "plain_object e \<longleftrightarrow> pe_inMap e \<and> \<not> pe_null e \<and> plain (entry_range e) \<and> r_start (entry_range e) < r_end (entry_range e) \<and>
     am_writeable (pe_mem e) \<and> lockedAddrList (pe_mem e) = []"

definition backed :: "physical_memory \<Rightarrow> nat \<Rightarrow> bool" where
  "backed ph i \<longleftrightarrow> am_inv (mem_at ph i) \<and> (\<exists>s < length (backingStore ph). pe_store (objects ph ! i) = Some s)"

definition mmap_ok :: "(addr \<Rightarrow> u8 list option) \<Rightarrow> bool" where
  "mmap_ok mm \<longleftrightarrow> (\<forall>n bs. mm n = Some bs \<longrightarrow> length bs = unat n)"

lemma set_map_insert: "set (map_insert r d es) \<subseteq> insert (r, d) (set es)"
  by (induction r d es rule: map_insert.induct) auto

lemma rm_insert_tree:
  assumes "rm_insert mcs r d m = Inr (Some k, m')"
  shows "set (tree m') \<subseteq> insert (r, d) (set (tree m))"
proof -
  obtain m1 where "rm_find mcs r (intersects r) m = Inr (None, m1)" "m' = m1\<lparr>tree := map_insert r d (tree m1)\<rparr>"
    using assms by (auto simp: rm_insert_def rm_intersects_def res_simps split: if_splits)
  then show ?thesis using rm_find_None(1) [of mcs r "intersects r" m m1] set_map_insert [of r d "tree m"] by simp
qed

definition mapped :: "phys_entry list \<Rightarrow> nat \<Rightarrow> physical_memory \<Rightarrow> bool" where
  "mapped es n ph \<longleftrightarrow> rm_inv (addrMap ph) \<and> objects ph = es \<and> backingStore ph = [] \<and>
     (\<forall>(k, i)\<in>set (tree (addrMap ph)). i < n \<and> entry_range (es ! i) = k)"

lemma add_memory_mapped:
  assumes "mapped es n ph" "plain_object (es ! n)" "add_memory mm n ph = Inr ph'"
  shows "mapped es (Suc n) ph'"
proof -
  let ?r = "entry_range (es ! n)"
  have o: "objects ph = es" "rm_inv (addrMap ph)" using assms(1) by (simp_all add: mapped_def)
  have r: "entry_ok ?r" "\<not> interleaved ?r" using assms(2) by (auto simp: plain_object_def entry_ok_def plain_def interleaved_def)
  obtain k m where ins: "rm_insert 1 ?r n (addrMap ph) = Inr (Some k, m)"
    and ph': "addrMap ph' = m" "objects ph' = es" "backingStore ph' = backingStore ph"
    using assms(2,3) o(1) by (auto simp: add_memory_def plain_object_def Let_def res_simps split: if_splits)
  have "rm_inv m" using rm_insert_correct(2) [OF o(2) r(1) _ ins] r(2) by blast
  then show ?thesis using assms(1) rm_insert_tree [OF ins] ph' by (fastforce simp: mapped_def)
qed

lemma add_memories_mapped:
  "mapped es n ph \<Longrightarrow> \<forall>e\<in>set es. plain_object e \<Longrightarrow> n + k \<le> length es \<Longrightarrow>
   sfoldl (\<lambda>ph i. add_memory mm i ph) ph [n..<n + k] = Inr ph' \<Longrightarrow> mapped es (n + k) ph'"
proof (induction k arbitrary: n ph)
  case (Suc k)
  have up: "[n..<n + Suc k] = n # [Suc n..<Suc n + k]" by (simp add: upt_conv_Cons)
  obtain ph1 where ph1: "add_memory mm n ph = Inr ph1" "sfoldl (\<lambda>ph i. add_memory mm i ph) ph1 [Suc n..<Suc n + k] = Inr ph'"
    using Suc.prems(4) unfolding up by (auto simp: res_simps)
  have "plain_object (es ! n)" using Suc.prems(2,3) by simp
  from add_memory_mapped [OF Suc.prems(1) this ph1(1)] show ?case
    using Suc.IH [OF _ Suc.prems(2) _ ph1(2)] Suc.prems(3) by simp
qed simp

lemma createBackingStore_backed:
  assumes "mmap_ok mm" "i < length (objects ph)" "plain_object (objects ph ! i)"
    "createBackingStore mm (entry_range (objects ph ! i)) [i] c a v ph = Inr ph'"
  shows "addrMap ph' = addrMap ph" "length (objects ph') = length (objects ph)" "backed ph' i"
    "pe_store (objects ph' ! i) = Some (length (backingStore ph))"
    "\<And>j. entry_range (objects ph' ! j) = entry_range (objects ph ! j) \<and> plain_object (objects ph' ! j) = plain_object (objects ph ! j)"
    "\<And>j. j \<noteq> i \<Longrightarrow> pe_store (objects ph' ! j) = pe_store (objects ph ! j) \<and> (backed ph j \<longrightarrow> backed ph' j)"
proof -
  let ?e = "objects ph ! i" and ?n = "length (backingStore ph)"
  obtain bs where bs: "mm (range_size (entry_range ?e)) = Some bs"
    and ph': "objects ph' = (objects ph)[i := ?e\<lparr>pe_mem := setBackingStore (Some bs) (pe_mem ?e), pe_store := Some ?n\<rparr>]"
      "backingStore ph' = backingStore ph @ [\<lparr>bs_range = entry_range ?e, bs_pmem = bs, bs_conf = c, bs_inMap = a, bs_kvm = v\<rparr>]"
      "addrMap ph' = addrMap ph"
    using assms(4) by (auto simp: createBackingStore_def split: if_splits option.splits)
  have keep: "am_range (setBackingStore p m) = am_range m" "am_writeable (setBackingStore p m) = am_writeable m"
    "lockedAddrList (setBackingStore p m) = lockedAddrList m" for p m
    by (simp_all add: setBackingStore_def backdoor_invalidate_def Let_def)
  show "addrMap ph' = addrMap ph" "length (objects ph') = length (objects ph)" by (simp_all add: ph')
  show st: "pe_store (objects ph' ! i) = Some ?n" using assms(2) by (simp add: ph')
  have "length bs = unat (r_end (entry_range ?e) - r_start (entry_range ?e))"
    using assms(1,3) bs by (auto simp: mmap_ok_def plain_object_def plain_def range_size_def)
  moreover have le: "r_start (entry_range ?e) < r_end (entry_range ?e)" using assms(3) by (simp add: plain_object_def)
  ultimately have "unat (r_end (entry_range ?e)) = unat (r_start (entry_range ?e)) + length bs"
    using unat_sub [OF less_imp_le [OF le]] by (simp add: word_less_nat_alt)
  then show "backed ph' i"
    using assms(2,3) keep by (simp add: backed_def am_inv_def mem_at_def ph' plain_object_def am_base_def)
  show "entry_range (objects ph' ! j) = entry_range (objects ph ! j) \<and> plain_object (objects ph' ! j) = plain_object (objects ph ! j)" for j
    using assms(2) keep by (cases "j = i") (simp_all add: ph' plain_object_def)
  show "pe_store (objects ph' ! j) = pe_store (objects ph ! j) \<and> (backed ph j \<longrightarrow> backed ph' j)" if "j \<noteq> i" for j
    using that by (auto simp: ph' backed_def mem_at_def nth_append)
qed

lemma back_entries_backed:
  assumes "mmap_ok mm" "back_entries mm td [] [] ph = Inr ph'" "distinct (map snd (dn @ td))"
    "\<forall>(k, i)\<in>set (dn @ td). i < length (objects ph) \<and> entry_range (objects ph ! i) = k \<and> plain_object (objects ph ! i)"
    "\<forall>i\<in>snd ` set dn. backed ph i" "inj_on (\<lambda>i. pe_store (objects ph ! i)) (snd ` set dn)"
  shows "addrMap ph' = addrMap ph \<and> inj_on (\<lambda>i. pe_store (objects ph' ! i)) (snd ` set (dn @ td)) \<and>
    (\<forall>(k, i)\<in>set (dn @ td). i < length (objects ph') \<and> entry_range (objects ph' ! i) = k \<and> backed ph' i)"
  using assms(2-)
proof (induction td arbitrary: dn ph)
  case Nil
  then show ?case by fastforce
next
  case (Cons x td)
  obtain k i where x: "x = (k, i)" by (cases x)
  have i: "i < length (objects ph)" "entry_range (objects ph ! i) = k" "plain_object (objects ph ! i)" using Cons.prems(3) x by auto
  then have ni: "\<not> interleaved k" "\<not> pe_null (objects ph ! i)" by (auto simp: plain_object_def plain_def interleaved_def)
  obtain ph1 where ph1: "createBackingStore mm (entry_range (objects ph ! i)) [i] (pe_conf (objects ph ! i)) (pe_inMap (objects ph ! i)) (pe_kvm (objects ph ! i)) ph = Inr ph1"
    "back_entries mm td [] [] ph1 = Inr ph'"
    using Cons.prems(1) ni i(2) by (auto simp: x Let_def res_simps)
  note b = createBackingStore_backed [OF assms(1) i(1,3) ph1(1)]
  have nd: "i \<notin> snd ` set dn" using Cons.prems(2) x by auto
  have old: "pe_store (objects ph1 ! j) = pe_store (objects ph ! j)" "backed ph1 j" "pe_store (objects ph ! j) \<noteq> Some (length (backingStore ph))"
    if "j \<in> snd ` set dn" for j
    using b(6) [of j] that nd Cons.prems(4) by (auto simp: backed_def)
  have inj: "inj_on (\<lambda>i. pe_store (objects ph1 ! i)) (snd ` set (dn @ [x]))"
  proof -
    have "inj_on (\<lambda>i. pe_store (objects ph1 ! i)) (snd ` set dn)"
      using Cons.prems(5) old(1) by (simp add: inj_on_def)
    moreover have "pe_store (objects ph1 ! i) \<notin> (\<lambda>i. pe_store (objects ph1 ! i)) ` (snd ` set dn)"
      using b(4) old(1,3) by (metis (no_types, lifting) imageE)
    ultimately show ?thesis using nd by (simp add: x)
  qed
  have "\<forall>(k, i)\<in>set ((dn @ [x]) @ td). i < length (objects ph1) \<and> entry_range (objects ph1 ! i) = k \<and> plain_object (objects ph1 ! i)"
    using Cons.prems(3) b(2,5) by auto
  moreover have "\<forall>j\<in>snd ` set (dn @ [x]). backed ph1 j" using old(2) b(3) x by auto
  ultimately show ?case using Cons.IH [OF ph1(2), of "dn @ [x]"] Cons.prems(2) inj b(1) by simp
qed

lemma construction_inv:
  assumes "mmap_ok mm" "\<forall>e\<in>set es. plain_object e" "PhysicalMemory_new mm es = Inr ph"
  shows "phys_inv ph"
proof -
  obtain ph1 where ph1: "sfoldl (\<lambda>ph i. add_memory mm i ph)
       \<lparr>addrMap = rm_empty, memories = [], objects = es, phys_size = 0, backingStore = []\<rparr> [0..<0 + length es] = Inr ph1"
    "back_entries mm (tree (addrMap ph1)) [] [] ph1 = Inr ph"
    using assms(3) by (auto simp: PhysicalMemory_new_def res_simps)
  have "mapped es 0 \<lparr>addrMap = rm_empty, memories = [], objects = es, phys_size = 0, backingStore = []\<rparr>"
    by (simp add: mapped_def) (simp add: rm_empty_def)
  from add_memories_mapped [OF this assms(2) _ ph1(1)]
  have m: "rm_inv (addrMap ph1)" "objects ph1 = es" "\<forall>(k, i)\<in>set (tree (addrMap ph1)). i < length es \<and> entry_range (es ! i) = k"
    by (simp_all add: mapped_def)
  have "distinct (map snd (tree (addrMap ph1)))"
  proof -
    have "map fst (tree (addrMap ph1)) = map (\<lambda>i. entry_range (es ! i)) (map snd (tree (addrMap ph1)))" using m(3) by auto
    then show ?thesis using rm_distinct [OF m(1)] by (metis distinct_map rm_keys_def)
  qed
  moreover have "\<forall>(k, i)\<in>set ([] @ tree (addrMap ph1)). i < length (objects ph1) \<and> entry_range (objects ph1 ! i) = k \<and> plain_object (objects ph1 ! i)"
    using m(2,3) assms(2) by auto
  ultimately have "addrMap ph = addrMap ph1 \<and> inj_on (\<lambda>i. pe_store (objects ph ! i)) (snd ` set ([] @ tree (addrMap ph1))) \<and>
    (\<forall>(k, i)\<in>set ([] @ tree (addrMap ph1)). i < length (objects ph) \<and> entry_range (objects ph ! i) = k \<and> backed ph i)"
    using back_entries_backed [OF assms(1) ph1(2), of "[]"] by simp
  then show ?thesis using m(1) by (auto simp: phys_inv_def backed_def)
qed

section \<open>Checkpoints restore the bytes\<close>

lemma copy_longs_unit:
  assumes "length u = 8"
  shows "copy_longs (u @ xs) ys = (if u \<noteq> replicate 8 0 then u else take 8 ys) @ copy_longs xs (drop 8 ys)"
proof -
  obtain a b c d e f g h where "u = [a, b, c, d, e, f, g, h]"
    using assms by (auto simp: numeral_eq_Suc length_Suc_conv)
  then show ?thesis by (simp add: Let_def)
qed

lemma copy_longs_zero: "length xs = 8 * n \<Longrightarrow> copy_longs xs (replicate (length xs) 0) = xs"
proof (induction n arbitrary: xs)
  case (Suc n)
  let ?u = "take 8 xs" and ?v = "drop 8 xs"
  have l: "length ?u = 8" "length ?v = 8 * n" "length xs = 8 + length ?v" using Suc.prems by simp_all
  have "copy_longs (?u @ ?v) (replicate (length xs) 0) = ?u @ copy_longs ?v (replicate (length ?v) 0)"
    unfolding copy_longs_unit [OF l(1)] l(3) by (auto simp: replicate_add)
  then show ?case using Suc.IH [OF l(2)] by simp
qed simp

lemma copy_longs_append:
  "length xs = 8 * n \<Longrightarrow> copy_longs (xs @ xs') ys = copy_longs xs (take (8 * n) ys) @ copy_longs xs' (drop (8 * n) ys)"
proof (induction n arbitrary: xs ys)
  case (Suc n)
  let ?u = "take 8 xs" and ?v = "drop 8 xs"
  have l: "length ?u = 8" "length ?v = 8 * n" using Suc.prems by simp_all
  have "copy_longs (?u @ ?v @ xs') ys = copy_longs (?u @ ?v) (take (8 * Suc n) ys) @ copy_longs xs' (drop (8 * Suc n) ys)"
    unfolding copy_longs_unit [OF l(1)] Suc.IH [OF l(2)] by (simp add: drop_take add.commute)
  then show ?case by (simp add: append_assoc [symmetric] del: append_assoc)
qed simp

lemma mod8_split: "n = a + b \<Longrightarrow> a mod 8 = 0 \<Longrightarrow> n mod 8 = 0 \<longleftrightarrow> b mod 8 = 0" for n :: nat
  by presburger

text \<open>The chunks together copy the whole file.\<close>

lemma restore_chunks_whole:
  "length xs = length ys \<Longrightarrow>
     restore_chunks (length xs) xs ys = (if length xs mod 8 = 0 then Inr (copy_longs xs ys) else Inl Assert_Failed)"
proof (induction "length xs" arbitrary: xs ys rule: less_induct)
  case less
  show ?case
  proof (cases "xs = []")
    case True
    then show ?thesis using less.prems by (simp add: restore_chunks.simps)
  next
    case False
    let ?c = "take 16384 xs" and ?d = "drop (length (take 16384 xs)) xs"
    let ?n = "length ?c"
    have split: "length xs = ?n + length ?d" "?n \<le> length ys" "xs = ?c @ ?d"
      using less.prems by (auto simp: min_def)
    have "length xs mod 8 = 0 \<longleftrightarrow> ?n mod 8 = 0 \<and> length ?d mod 8 = 0"
    proof (cases "length xs \<le> 16384")
      case False
      then have "?n mod 8 = 0" by simp
      from mod8_split [OF split(1) this] this show ?thesis by (simp only: simp_thms)
    qed simp
    moreover have "restore_chunks (length ?d) ?d (drop ?n ys) =
        (if length ?d mod 8 = 0 then Inr (copy_longs ?d (drop ?n ys)) else Inl Assert_Failed)"
    proof (rule less.hyps)
      have "0 < length ys" using False less.prems by (metis length_greater_0_conv)
      then show "length ?d < length xs" using less.prems by (simp add: min_def)
    qed (use less.prems in simp)
    moreover have "copy_longs xs ys = copy_longs ?c (take ?n ys) @ copy_longs ?d (drop ?n ys)" if m: "?n mod 8 = 0"
    proof -
      obtain k where k: "?n = 8 * k" using m unfolding mod_eq_0_iff_dvd by (elim dvdE)
      from copy_longs_append [OF this, of ?d ys] show ?thesis unfolding k [symmetric] split(3) [symmetric] .
    qed
    moreover have "restore_chunks (length xs) xs ys =
        (if ?n mod 8 \<noteq> 0 then Inl Assert_Failed
         else sbind (restore_chunks (length ?d) ?d (drop ?n ys)) (\<lambda>rest. Inr (copy_longs ?c (take ?n ys) @ rest)))"
      using False split(1,2) by (subst restore_chunks.simps) (simp add: Let_def del: length_take)
    ultimately show ?thesis by (simp del: length_take length_drop)
  qed
qed

text \<open>A memory of the same layout, with zeroed stores as the host maps them.\<close>

definition blank :: "backing_store \<Rightarrow> backing_store" where
  "blank s = s\<lparr>bs_pmem := replicate (length (bs_pmem s)) 0\<rparr>"

lemma unserializeStore_blank:
  "unserializeStore (range_size (bs_range s), bs_pmem s) (blank s) = (if length (bs_pmem s) mod 8 = 0 then Inr s else Inl Assert_Failed)"
proof -
  have "restore_chunks (length (bs_pmem (blank s))) (bs_pmem s) (bs_pmem (blank s)) =
      (if length (bs_pmem s) mod 8 = 0 then Inr (bs_pmem s) else Inl Assert_Failed)"
  proof (cases "length (bs_pmem s) mod 8 = 0")
    case True
    then obtain n where "length (bs_pmem s) = 8 * n" by (auto elim: dvdE)
    from copy_longs_zero [OF this] True show ?thesis
      using restore_chunks_whole [of "bs_pmem s" "bs_pmem (blank s)"] by (simp add: blank_def)
  next
    case False
    then show ?thesis using restore_chunks_whole [of "bs_pmem s" "bs_pmem (blank s)"] by (simp add: blank_def)
  qed
  then show ?thesis by (simp add: unserializeStore_def) (simp add: blank_def)
qed

lemma restore_stores_blank:
  "restore_stores (map (\<lambda>s. (range_size (bs_range s), bs_pmem s)) ss) (map blank ss) =
     (if \<forall>s\<in>set ss. length (bs_pmem s) mod 8 = 0 then Inr ss else Inl Assert_Failed)"
  by (induction ss) (auto simp: unserializeStore_blank)

section \<open>Properties\<close>

text \<open>Two memories of 256 bytes with a gap between them.\<close>

definition sample_object :: "addr \<Rightarrow> nat \<Rightarrow> phys_entry" where
  "sample_object a k = \<lparr>pe_mem = \<lparr>am_range = RangeSize a 0x100, am_pmem = None, am_backdoor = True, am_writeable = True,
     lockedAddrList = [], am_invalidations = 0, am_cleared = []\<rparr>, pe_null = False, pe_conf = True, pe_inMap = True, pe_kvm = True,
     pe_store = Some k\<rparr>"

definition sample_store :: "addr \<Rightarrow> backing_store" where
  "sample_store a = \<lparr>bs_range = RangeSize a 0x100, bs_pmem = replicate 256 7, bs_conf = True, bs_inMap = True, bs_kvm = True\<rparr>"

definition sample_phys :: physical_memory where
  "sample_phys = \<lparr>addrMap = \<lparr>tree = [(RangeSize 0x1000 0x100, 0), (RangeSize 0x2000 0x100, 1)], cache = []\<rparr>, memories = [0, 1],
     objects = [sample_object 0x1000 0, sample_object 0x2000 1], phys_size = 0x200,
     backingStore = [sample_store 0x1000, sample_store 0x2000]\<rparr>"

text \<open>C4: A physical memory constructed from memories with plain ranges, where the host maps stores of the size asked
  for, is well formed, and any sequence of reads and writes, each inside one of its memories, gives the responses of
  one ideal memory: the address map, with its cache, sends every packet to the memory that holds its bytes, and a
  write to one memory leaves the others as they are.\<close>

theorem physical_memory_refines_ideal:
  assumes "mmap_ok mm" "\<forall>e\<in>set es. plain_object e" "PhysicalMemory_new mm es = Inr ph"
  shows "phys_inv ph \<and> (\<forall>ps. (\<forall>p\<in>set ps. phys_covers p ph \<and> (simple_read p \<or> simple_write p)) \<longrightarrow>
    (\<exists>qs ph'. run_access phys_access ps ph = Inr (qs, ph') \<and> phys_inv ph' \<and> ideal_run ps qs (phys_view ph) (phys_view ph')))"
  using construction_inv [OF assms] phys.run_refines_ideal by blast

definition host_mmap :: "addr \<Rightarrow> u8 list option" where
  "host_mmap n = Some (replicate (unat n) 0)"

definition fresh_objects :: "phys_entry list" where
  "fresh_objects = map (\<lambda>a. \<lparr>pe_mem = \<lparr>am_range = RangeSize a 16, am_pmem = None, am_backdoor = False, am_writeable = True,
     lockedAddrList = [], am_invalidations = 0, am_cleared = []\<rparr>, pe_null = False, pe_conf = True, pe_inMap = True, pe_kvm = True,
     pe_store = None\<rparr>) [0x2000, 0x1000]"

definition fresh_phys :: physical_memory where
  "fresh_phys = (case PhysicalMemory_new host_mmap fresh_objects of Inr ph \<Rightarrow> ph | Inl _ \<Rightarrow> sample_phys)"

lemma fresh_phys_new: "PhysicalMemory_new host_mmap fresh_objects = Inr fresh_phys"
proof -
  have "is_ok (PhysicalMemory_new host_mmap fresh_objects)" by code_simp
  then show ?thesis by (auto simp: fresh_phys_def is_ok_iff)
qed

lemma fresh_phys_covers: "phys_covers (data_packet cmd 0x2004 [1, 2, 3, 4]) fresh_phys"
proof -
  have "map (\<lambda>e. snd e = 0) (tree (addrMap fresh_phys)) = [False, True]" "am_range (mem_at fresh_phys 0) = RangeSize 0x2000 16"
    "map_option length (am_pmem (mem_at fresh_phys 0)) = Some 16" by code_simp+
  moreover from this(1) have "0 \<in> snd ` set (tree (addrMap fresh_phys))" by (auto simp: map_eq_Cons_conv image_iff)
  ultimately show ?thesis unfolding phys_covers_def
    by (intro bexI [of _ 0]) (auto simp: am_covers_def am_base_def RangeSize_def data_packet_def
      packet_init_def Request_phys_def Request_default_def hasPaddr_def isSet_def setFlags_def)
qed

theorem physical_memory_refines_ideal_witness:
  "phys_inv fresh_phys \<and>
   (\<exists>qs ph'. run_access phys_access [data_packet WriteReq 0x2004 [1, 2, 3, 4], data_packet ReadReq 0x2004 [1, 2, 3, 4]] fresh_phys = Inr (qs, ph'))"
proof -
  let ?ps = "[data_packet WriteReq 0x2004 [1, 2, 3, 4], data_packet ReadReq 0x2004 [1, 2, 3, 4]]"
  have c: "\<forall>p\<in>set ?ps. phys_covers p fresh_phys \<and> (simple_read p \<or> simple_write p)"
    using fresh_phys_covers simple_data_packets by auto
  have m: "mmap_ok host_mmap" "\<forall>e\<in>set fresh_objects. plain_object e"
    by (simp_all add: mmap_ok_def host_mmap_def fresh_objects_def plain_object_def plain_def RangeSize_def)
  from physical_memory_refines_ideal [OF m fresh_phys_new] show ?thesis using c by blast
qed

text \<open>C30: A checkpoint of the physical memory, with no addresses locked, restores every byte into a memory of the same
  layout whose stores are zero, if all stores have sizes that are multiples of eight; otherwise the restore stops
  at an assertion.\<close>

theorem checkpoint_restores_memory:
  assumes "\<forall>i\<in>set (memories ph). lockedAddrList (pe_mem (objects ph ! i)) = []"
  shows "phys_unserialize (phys_serialize ph) (ph\<lparr>backingStore := map blank (backingStore ph)\<rparr>) =
    (if \<forall>s\<in>set (backingStore ph). length (bs_pmem s) mod 8 = 0 then Inr ph else Inl Assert_Failed)"
proof -
  have "concat (map (\<lambda>i. lockedAddrList (pe_mem (objects ph ! i))) (memories ph)) = []" using assms by simp
  then have "phys_serialize ph = \<lparr>lal_addr = [], lal_cid = [], ck_stores = map (\<lambda>s. (range_size (bs_range s), bs_pmem s)) (backingStore ph)\<rparr>"
    by (simp only: phys_serialize_def Let_def list.map)
  then show ?thesis using restore_stores_blank [of "backingStore ph"] by (simp add: phys_unserialize_def)
qed

theorem checkpoint_restores_memory_witness:
  "phys_unserialize (phys_serialize sample_phys) (sample_phys\<lparr>backingStore := map blank (backingStore sample_phys)\<rparr>) = Inr sample_phys"
  by (subst checkpoint_restores_memory) (simp_all add: sample_phys_def sample_object_def sample_store_def)

end
