(* ===== verification/Packet_Queue.thy ===== *)
theory Packet_Queue
  imports Deferred_Queue
begin

text \<open>
  Model of the queue a port sends its packets from (\<^verbatim>\<open>src/gem5/src/mem/packet_queue.cc\<close>, \<^verbatim>\<open>packet_queue.hh\<close>).
  Sending a packet calls the peer, which may call back into the queue before it answers.  The operation
  that sends is therefore split at the call: one part runs up to the call, one part runs with the answer,
  and the step relation lets other operations happen in between.  Labels for printed packets are left out.
\<close>

section \<open>State\<close>

record packet_queue =
  transmitList :: deferred
  sendEvent :: "tick option"
  pq_disableSanityCheck :: bool
  forceOrder :: bool
  waitingOnRetry :: bool
  pq_drainState :: drain_state
  pq_tick :: tick

definition PacketQueue_new :: "bool \<Rightarrow> bool \<Rightarrow> tick \<Rightarrow> packet_queue" where
  "PacketQueue_new force_order disable_sanity_check now =
     \<lparr>transmitList = [], sendEvent = None, pq_disableSanityCheck = disable_sanity_check, forceOrder = force_order,
      waitingOnRetry = False, pq_drainState = Running, pq_tick = now\<rparr>"

section \<open>Operations\<close>

definition isExpressSnoop :: "packet \<Rightarrow> bool" where
  "isExpressSnoop p = isSet (p_flags p) P_EXPRESS_SNOOP"

definition deferredPacketReady :: "packet_queue \<Rightarrow> bool" where
  "deferredPacketReady q \<longleftrightarrow> transmitList q \<noteq> [] \<and> fst (hd (transmitList q)) \<le> pq_tick q"

definition deferredPacketReadyTime :: "packet_queue \<Rightarrow> tick" where
  "deferredPacketReadyTime q = (if transmitList q = [] then MaxTick else fst (hd (transmitList q)))"

fun conflict_in :: "packet \<Rightarrow> u32 \<Rightarrow> deferred \<Rightarrow> bool res" where
  "conflict_in p blk_size [] = Inr False"
| "conflict_in p blk_size ((t, x) # q) =
     sbind (matchBlockAddr_pkt p blk_size x) (\<lambda>m. if m then Inr True else conflict_in p blk_size q)"

definition checkConflict :: "packet \<Rightarrow> u32 \<Rightarrow> packet_queue \<Rightarrow> bool res" where
  "checkConflict p blk_size q = conflict_in p blk_size (transmitList q)"

definition pq_trySatisfyFunctional :: "packet \<Rightarrow> packet_queue \<Rightarrow> (bool \<times> packet \<times> packet_queue) res" where
  "pq_trySatisfyFunctional p q =
     sbind (satisfy_from p (transmitList q)) (\<lambda>(found, p, l). Inr (found, p, q\<lparr>transmitList := l\<rparr>))"

definition schedSendEvent :: "tick \<Rightarrow> packet_queue \<Rightarrow> packet_queue res" where
  "schedSendEvent t q =
     (if waitingOnRetry q then sbind (sassert (sendEvent q = None)) (\<lambda>_. Inr q)
      else if t \<noteq> MaxTick then
        (let t = max t (pq_tick q + 1) in
         case sendEvent q of
           None \<Rightarrow> sbind (schedule_at (sendEvent q) (pq_tick q) t) (\<lambda>ev. Inr (q\<lparr>sendEvent := ev\<rparr>))
         | Some w \<Rightarrow>
             if t < w then sbind (reschedule_at (sendEvent q) (pq_tick q) t False) (\<lambda>ev. Inr (q\<lparr>sendEvent := ev\<rparr>))
             else Inr q)
      else if pq_drainState q = Draining \<and> transmitList q = [] \<and> sendEvent q = None
        then Inr (q\<lparr>pq_drainState := signalDrainDone (pq_drainState q)\<rparr>)
      else Inr q)"

text \<open>
  The search for the place of a packet runs over the list from its end.  The flag tells that the packet
  went in front of all others.
\<close>

fun insert_from_back :: "bool \<Rightarrow> tick \<Rightarrow> packet \<Rightarrow> deferred \<Rightarrow> (bool \<times> deferred) res" where
  "insert_from_back fo w p [] = Inr (True, [(w, p)])"
| "insert_from_back fo w p ((t, x) # rq) =
     sbind (if fo then matchAddr_pkt p x else Inr False) (\<lambda>m.
       if m \<or> t \<le> w then Inr (False, (w, p) # (t, x) # rq)
       else sbind (insert_from_back fo w p rq) (\<lambda>(front, rq). Inr (front, (t, x) # rq)))"

definition schedSendTiming :: "packet \<Rightarrow> tick \<Rightarrow> packet_queue \<Rightarrow> packet_queue res" where
  "schedSendTiming p t q =
     sbind (sassert (pq_tick q \<le> t)) (\<lambda>_.
     sbind (sassert (\<not> isExpressSnoop p)) (\<lambda>_.
     if \<not> pq_disableSanityCheck q \<and> length (transmitList q) > 128 then Inl Panic
     else
       sbind (insert_from_back (forceOrder q) t p (rev (transmitList q))) (\<lambda>(front, rq).
         (let q = q\<lparr>transmitList := rev rq\<rparr> in if front then schedSendEvent t q else Inr q))))"

text \<open>The packet leaves the list before it is sent and returns to its front if the peer refuses it.\<close>

definition sendDeferred_call :: "packet_queue \<Rightarrow> ((tick \<times> packet) \<times> packet_queue) res" where
  "sendDeferred_call q =
     sbind (sassert (\<not> waitingOnRetry q)) (\<lambda>_.
     sbind (sassert (deferredPacketReady q)) (\<lambda>_.
     Inr (hd (transmitList q), q\<lparr>transmitList := tl (transmitList q)\<rparr>)))"

definition sendDeferred_return :: "tick \<times> packet \<Rightarrow> bool \<Rightarrow> packet_queue \<Rightarrow> packet_queue res" where
  "sendDeferred_return dp accepted q =
     (let q = q\<lparr>waitingOnRetry := \<not> accepted\<rparr> in
      if accepted then schedSendEvent (deferredPacketReadyTime q) q
      else Inr (q\<lparr>transmitList := dp # transmitList q\<rparr>))"

definition retry_call :: "packet_queue \<Rightarrow> ((tick \<times> packet) \<times> packet_queue) res" where
  "retry_call q = sbind (sassert (waitingOnRetry q)) (\<lambda>_. sendDeferred_call (q\<lparr>waitingOnRetry := False\<rparr>))"

definition processSendEvent_call :: "packet_queue \<Rightarrow> ((tick \<times> packet) \<times> packet_queue) res" where
  "processSendEvent_call q = sbind (sassert (\<not> waitingOnRetry q)) (\<lambda>_. sendDeferred_call q)"

definition pq_drain :: "packet_queue \<Rightarrow> drain_state" where
  "pq_drain q = (if transmitList q = [] then Drained else Draining)"

definition disableSanityCheck :: "packet_queue \<Rightarrow> packet_queue" where
  "disableSanityCheck q = q\<lparr>pq_disableSanityCheck := True\<rparr>"

section \<open>Runs\<close>

text \<open>
  A queue in a simulation: the packet whose sending is under way, the packets that were queued and the
  packets the peer has accepted, whether the peer ever queued a packet while it was being called, and the
  error that stopped the simulator.  Time never passes an event that is due.  An operation that fails stops the simulator.
\<close>

record pq_run =
  pq :: packet_queue
  sending :: "(tick \<times> packet) option"
  queued :: "packet list"
  sent :: "packet list"
  called_back :: bool
  stopped :: "sim_error option"

inductive pq_step :: "pq_run \<Rightarrow> pq_run \<Rightarrow> bool" where
  enqueue: "stopped c = None \<Longrightarrow> schedSendTiming p t (pq c) = Inr q \<Longrightarrow>
    pq_step c (c\<lparr>pq := q, queued := queued c @ [p], called_back := called_back c \<or> sending c \<noteq> None\<rparr>)"
| time: "stopped c = None \<Longrightarrow> sending c = None \<Longrightarrow> pq_tick (pq c) \<le> t \<Longrightarrow> (\<And>w. sendEvent (pq c) = Some w \<Longrightarrow> t \<le> w) \<Longrightarrow>
    pq_step c (c\<lparr>pq := (pq c)\<lparr>pq_tick := t\<rparr>\<rparr>)"
| event: "stopped c = None \<Longrightarrow> sending c = None \<Longrightarrow> sendEvent (pq c) = Some (pq_tick (pq c)) \<Longrightarrow>
    processSendEvent_call ((pq c)\<lparr>sendEvent := None\<rparr>) = Inr (dp, q) \<Longrightarrow> pq_step c (c\<lparr>pq := q, sending := Some dp\<rparr>)"
| retry: "stopped c = None \<Longrightarrow> sending c = None \<Longrightarrow> retry_call (pq c) = Inr (dp, q) \<Longrightarrow>
    pq_step c (c\<lparr>pq := q, sending := Some dp\<rparr>)"
| answer: "stopped c = None \<Longrightarrow> sending c = Some dp \<Longrightarrow> sendDeferred_return dp accepted (pq c) = Inr q \<Longrightarrow>
    pq_step c (c\<lparr>pq := q, sending := None, sent := sent c @ (if accepted then [snd dp] else [])\<rparr>)"
| enqueue_stops: "stopped c = None \<Longrightarrow> schedSendTiming p t (pq c) = Inl e \<Longrightarrow> pq_step c (c\<lparr>stopped := Some e\<rparr>)"
| event_stops: "stopped c = None \<Longrightarrow> sending c = None \<Longrightarrow> sendEvent (pq c) = Some (pq_tick (pq c)) \<Longrightarrow>
    processSendEvent_call ((pq c)\<lparr>sendEvent := None\<rparr>) = Inl e \<Longrightarrow> pq_step c (c\<lparr>stopped := Some e\<rparr>)"
| retry_stops: "stopped c = None \<Longrightarrow> sending c = None \<Longrightarrow> retry_call (pq c) = Inl e \<Longrightarrow> pq_step c (c\<lparr>stopped := Some e\<rparr>)"
| answer_stops: "stopped c = None \<Longrightarrow> sending c = Some dp \<Longrightarrow> sendDeferred_return dp accepted (pq c) = Inl e \<Longrightarrow>
    pq_step c (c\<lparr>stopped := Some e\<rparr>)"

definition pq_start :: "bool \<Rightarrow> bool \<Rightarrow> tick \<Rightarrow> pq_run" where
  "pq_start force_order disable_sanity_check now =
     \<lparr>pq = PacketQueue_new force_order disable_sanity_check now, sending = None, queued = [], sent = [],
      called_back = False, stopped = None\<rparr>"

section \<open>Insertion\<close>

lemma insert_from_back_place:
  assumes "insert_from_back fo w p rq = Inr (front, rq')"
  shows "\<exists>post pre. rq = post @ pre \<and> rq' = post @ (w, p) # pre \<and> (front \<longleftrightarrow> pre = []) \<and>
    (\<forall>y\<in>set post. w < fst y \<and> (fo \<longrightarrow> match_key (snd y) \<noteq> match_key p)) \<and>
    (pre \<noteq> [] \<longrightarrow> fst (hd pre) \<le> w \<or> fo)"
  using assms
proof (induction fo w p rq arbitrary: front rq' rule: insert_from_back.induct)
  case (2 fo w p t x rq)
  from "2.prems" obtain m where m: "(if fo then matchAddr_pkt p x else Inr False) = Inr m"
    and r: "(if m \<or> t \<le> w then Inr (False, (w, p) # (t, x) # rq)
      else sbind (insert_from_back fo w p rq) (\<lambda>(front, rq). Inr (front, (t, x) # rq))) = Inr (front, rq')"
    by (auto simp: res_simps)
  show ?case
  proof (cases "m \<or> t \<le> w")
    case True
    with r m show ?thesis by (intro exI [of _ "[]"] exI [of _ "(t, x) # rq"]) (auto split: if_splits)
  next
    case False
    with r obtain rq1 where rq1: "insert_from_back fo w p rq = Inr (front, rq1)" "rq' = (t, x) # rq1" by (auto simp: res_simps)
    from "2.IH" [OF False rq1(1)] obtain post pre where
      h: "rq = post @ pre" "rq1 = post @ (w, p) # pre" "front \<longleftrightarrow> pre = []"
        "\<forall>y\<in>set post. w < fst y \<and> (fo \<longrightarrow> match_key (snd y) \<noteq> match_key p)"
        "pre \<noteq> [] \<longrightarrow> fst (hd pre) \<le> w \<or> fo" by blast
    have "fo \<longrightarrow> match_key x \<noteq> match_key p" using m False matchAddr_pkt_key [of p x] by auto
    then show ?thesis using h rq1(2) False by (intro exI [of _ "(t, x) # post"] exI [of _ pre]) auto
  qed
qed auto

definition pq_insert :: "bool \<Rightarrow> tick \<Rightarrow> packet \<Rightarrow> deferred \<Rightarrow> deferred res" where
  "pq_insert fo w p q = sbind (insert_from_back fo w p (rev q)) (\<lambda>(front, rq). Inr (rev rq))"

lemma pq_insert_place:
  assumes "insert_from_back fo w p (rev q) = Inr (front, rq)"
  shows "\<exists>pre post. q = pre @ post \<and> rev rq = pre @ (w, p) # post \<and> (front \<longleftrightarrow> pre = []) \<and>
    (\<forall>y\<in>set post. w < fst y \<and> (fo \<longrightarrow> match_key (snd y) \<noteq> match_key p)) \<and>
    (pre \<noteq> [] \<longrightarrow> fst (last pre) \<le> w \<or> fo)"
proof -
  from insert_from_back_place [OF assms] obtain post pre where
    h: "rev q = post @ pre" "rq = post @ (w, p) # pre" "front \<longleftrightarrow> pre = []"
      "\<forall>y\<in>set post. w < fst y \<and> (fo \<longrightarrow> match_key (snd y) \<noteq> match_key p)"
      "pre \<noteq> [] \<longrightarrow> fst (hd pre) \<le> w \<or> fo" by blast
  have "q = rev pre @ rev post" using arg_cong [OF h(1), of rev] by simp
  then show ?thesis using h(2-) by (intro exI [of _ "rev pre"] exI [of _ "rev post"]) (auto simp: last_rev)
qed

interpretation pqi: keyed_insertion "pq_insert True"
proof
  fix t p q q' assume "pq_insert True t p q = Inr q'"
  then obtain front rq where r: "insert_from_back True t p (rev q) = Inr (front, rq)" "q' = rev rq"
    by (auto simp: pq_insert_def res_simps)
  from pq_insert_place [OF r(1)] show "\<exists>pre post. q = pre @ post \<and> q' = pre @ (t, p) # post \<and>
    (\<forall>y\<in>set post. match_key (snd y) \<noteq> match_key p)" unfolding r(2) by blast
qed

lemma insert_sorted:
  assumes "sorted (map fst (pre @ post))" "\<forall>y\<in>set post. w < fst y" "pre \<noteq> [] \<longrightarrow> fst (last pre) \<le> w"
  shows "sorted (map fst (pre @ (w, p) # post))"
proof -
  have "\<forall>x\<in>set pre. fst x \<le> w"
  proof (cases pre rule: rev_cases)
    case (snoc ys y)
    then show ?thesis using assms(1,3) by (auto simp: sorted_append)
  qed simp
  then show ?thesis using assms(1,2) by (auto simp: sorted_append less_imp_le)
qed

section \<open>What a run keeps\<close>

text \<open>The packet being sent counts as the first one.\<close>

definition all_waiting :: "pq_run \<Rightarrow> deferred" where
  "all_waiting c = (case sending c of None \<Rightarrow> transmitList (pq c) | Some dp \<Rightarrow> dp # transmitList (pq c))"

text \<open>The packets the next event is for: a packet that waits for a retry is not one of them.\<close>

definition event_list :: "pq_run \<Rightarrow> deferred" where
  "event_list c = (if waitingOnRetry (pq c) then tl (transmitList (pq c)) else transmitList (pq c))"

definition pq_inv :: "pq_run \<Rightarrow> bool" where
  "pq_inv c \<longleftrightarrow>
     (\<forall>w. sendEvent (pq c) = Some w \<longrightarrow> pq_tick (pq c) \<le> w \<and> event_list c \<noteq> [] \<and> fst (hd (event_list c)) \<le> w) \<and>
     (sending c = None \<longrightarrow> transmitList (pq c) \<noteq> [] \<longrightarrow>
        waitingOnRetry (pq c) \<or> sendEvent (pq c) \<noteq> None \<or> fst (hd (transmitList (pq c))) = MaxTick) \<and>
     (waitingOnRetry (pq c) \<longrightarrow> sending c = None \<and> deferredPacketReady (pq c)) \<and>
     (\<forall>dp. sending c = Some dp \<longrightarrow> fst dp \<le> pq_tick (pq c)) \<and>
     (\<not> forceOrder (pq c) \<longrightarrow> sorted (map fst (all_waiting c))) \<and>
     (\<not> pq_disableSanityCheck (pq c) \<longrightarrow> length (all_waiting c) \<le> 130) \<and>
     (waitingOnRetry (pq c) \<or> sending c \<noteq> None \<longrightarrow> \<not> called_back c \<longrightarrow> sendEvent (pq c) = None)"

definition same_setup :: "packet_queue \<Rightarrow> packet_queue \<Rightarrow> bool" where
  "same_setup q q' \<longleftrightarrow> pq_tick q' = pq_tick q \<and> forceOrder q' = forceOrder q \<and>
     pq_disableSanityCheck q' = pq_disableSanityCheck q"

lemma schedSendEvent_ok:
  assumes "schedSendEvent t q = Inr q'" "\<forall>v. sendEvent q = Some v \<longrightarrow> pq_tick q \<le> v \<and> t \<le> v"
  shows "same_setup q q'" "transmitList q' = transmitList q" "waitingOnRetry q' = waitingOnRetry q"
    "\<forall>w. sendEvent q' = Some w \<longrightarrow> pq_tick q \<le> w \<and> t \<le> w"
    "\<not> waitingOnRetry q \<Longrightarrow> t \<noteq> MaxTick \<Longrightarrow> sendEvent q' \<noteq> None"
    "waitingOnRetry q \<or> t = MaxTick \<Longrightarrow> sendEvent q' = sendEvent q"
  using assms
  by (auto simp: schedSendEvent_def same_setup_def Let_def res_simps split: if_splits option.splits)

lemma schedSendTiming_place:
  assumes "schedSendTiming p t q = Inr q'"
  obtains pre post front where "transmitList q = pre @ post" "pq_tick q \<le> t" "front \<longleftrightarrow> pre = []"
    "\<forall>y\<in>set post. t < fst y" "forceOrder q \<longrightarrow> pq_insert True t p (transmitList q) = Inr (pre @ (t, p) # post)"
    "\<not> forceOrder q \<longrightarrow> pre \<noteq> [] \<longrightarrow> fst (last pre) \<le> t"
    "\<not> pq_disableSanityCheck q \<longrightarrow> length (transmitList q) \<le> 128"
    "(if front then schedSendEvent t (q\<lparr>transmitList := pre @ (t, p) # post\<rparr>)
      else Inr (q\<lparr>transmitList := pre @ (t, p) # post\<rparr>)) = Inr q'"
proof -
  from assms obtain front rq where r: "insert_from_back (forceOrder q) t p (rev (transmitList q)) = Inr (front, rq)"
    "pq_tick q \<le> t" "\<not> pq_disableSanityCheck q \<longrightarrow> length (transmitList q) \<le> 128"
    and e: "(if front then schedSendEvent t (q\<lparr>transmitList := rev rq\<rparr>) else Inr (q\<lparr>transmitList := rev rq\<rparr>)) = Inr q'"
    by (auto simp: schedSendTiming_def res_simps Let_def split: if_splits)
  from pq_insert_place [OF r(1)] obtain pre post where
    h: "transmitList q = pre @ post" "rev rq = pre @ (t, p) # post" "front \<longleftrightarrow> pre = []"
      "\<forall>y\<in>set post. t < fst y \<and> (forceOrder q \<longrightarrow> match_key (snd y) \<noteq> match_key p)"
      "pre \<noteq> [] \<longrightarrow> fst (last pre) \<le> t \<or> forceOrder q" by blast
  have "pq_insert True t p (transmitList q) = Inr (pre @ (t, p) # post)" if "forceOrder q"
    using r(1) that h(2) by (simp add: pq_insert_def)
  then show thesis using that [OF h(1) r(2) h(3) _ _ _ r(3) e [unfolded h(2)]] h(4,5) by blast
qed

lemma pq_invD:
  assumes "pq_inv c"
  shows "sendEvent (pq c) = Some w \<Longrightarrow> pq_tick (pq c) \<le> w \<and> event_list c \<noteq> [] \<and> fst (hd (event_list c)) \<le> w"
    "sending c = None \<Longrightarrow> transmitList (pq c) \<noteq> [] \<Longrightarrow>
        waitingOnRetry (pq c) \<or> sendEvent (pq c) \<noteq> None \<or> fst (hd (transmitList (pq c))) = MaxTick"
    "waitingOnRetry (pq c) \<Longrightarrow> sending c = None \<and> deferredPacketReady (pq c)"
    "sending c = Some dp \<Longrightarrow> fst dp \<le> pq_tick (pq c)"
    "\<not> forceOrder (pq c) \<Longrightarrow> sorted (map fst (all_waiting c))"
    "\<not> pq_disableSanityCheck (pq c) \<Longrightarrow> length (all_waiting c) \<le> 130"
    "waitingOnRetry (pq c) \<or> sending c \<noteq> None \<Longrightarrow> \<not> called_back c \<Longrightarrow> sendEvent (pq c) = None"
  using assms unfolding pq_inv_def by blast+

lemma enqueue_inv:
  assumes "pq_inv c" "schedSendTiming p t (pq c) = Inr q"
  shows "pq_inv (c\<lparr>pq := q, queued := queued c @ [p], called_back := called_back c \<or> sending c \<noteq> None\<rparr>)"
proof -
  let ?q = "pq c" and ?c = "c\<lparr>pq := q, queued := queued c @ [p], called_back := called_back c \<or> sending c \<noteq> None\<rparr>"
  note inv = pq_invD [OF assms(1)]
  from schedSendTiming_place [OF assms(2)] obtain pre post front where
    h: "transmitList ?q = pre @ post" "pq_tick ?q \<le> t" "front \<longleftrightarrow> pre = []" "\<forall>y\<in>set post. t < fst y"
      "\<not> forceOrder ?q \<longrightarrow> pre \<noteq> [] \<longrightarrow> fst (last pre) \<le> t"
      "\<not> pq_disableSanityCheck ?q \<longrightarrow> length (transmitList ?q) \<le> 128"
    and e: "(if front then schedSendEvent t (?q\<lparr>transmitList := pre @ (t, p) # post\<rparr>)
      else Inr (?q\<lparr>transmitList := pre @ (t, p) # post\<rparr>)) = Inr q" by metis
  let ?q1 = "?q\<lparr>transmitList := pre @ (t, p) # post\<rparr>"
  have hdpost: "post \<noteq> [] \<Longrightarrow> t < fst (hd post)" using h(4) by simp
  have pre: "pre \<noteq> []" if "waitingOnRetry ?q"
  proof
    assume "pre = []"
    then have "post \<noteq> []" "fst (hd post) \<le> pq_tick ?q" using inv(3) [OF that] h(1) by (auto simp: deferredPacketReady_def)
    then show False using hdpost h(2) by simp
  qed
  have ev: "\<forall>v. sendEvent ?q1 = Some v \<longrightarrow> pq_tick ?q1 \<le> v \<and> t \<le> v" if "pre = []"
  proof (intro allI impI)
    have nw: "\<not> waitingOnRetry ?q" using pre that by blast
    fix v assume "sendEvent ?q1 = Some v"
    with nw have "pq_tick ?q \<le> v" "post \<noteq> []" "fst (hd post) \<le> v" using inv(1) [of v] that h(1) by (auto simp: event_list_def)
    then show "pq_tick ?q1 \<le> v \<and> t \<le> v" using hdpost by simp
  qed
  have q: "same_setup ?q1 q" "transmitList q = pre @ (t, p) # post" "waitingOnRetry q = waitingOnRetry ?q"
    using e schedSendEvent_ok(1-3) [of t ?q1 q] ev h(3) by (auto simp: same_setup_def split: if_splits)
  have len: "length (all_waiting ?c) \<le> 130" if "\<not> pq_disableSanityCheck ?q"
    using that h(1,6) q(2) by (auto simp: all_waiting_def split: option.splits)
  have srt: "sorted (map fst (all_waiting ?c))" if nf: "\<not> forceOrder ?q"
  proof -
    have "sorted (map fst (pre @ post))" using inv(5) [OF nf] h(1) by (auto simp: all_waiting_def split: option.splits)
    then have "sorted (map fst (pre @ (t, p) # post))" using h(5) nf by (intro insert_sorted [OF _ h(4)]) simp_all
    then show ?thesis
    proof (cases "sending c")
      case (Some dp)
      have "\<forall>x\<in>set (map fst (pre @ post)). fst dp \<le> x" using inv(5) [OF nf] h(1) Some by (simp add: all_waiting_def)
      moreover have "fst dp \<le> t" using inv(4) [OF Some] h(2) by simp
      ultimately have "\<forall>x\<in>set (map fst (pre @ (t, p) # post)). fst dp \<le> x" by simp
      then show ?thesis using \<open>sorted (map fst (pre @ (t, p) # post))\<close> Some q(2) by (simp add: all_waiting_def)
    qed (simp add: all_waiting_def q(2))
  qed
  have rdy: "deferredPacketReady q" if "waitingOnRetry ?q"
    using inv(3) [OF that] pre [OF that] h(1) q(1,2) by (auto simp: deferredPacketReady_def same_setup_def)
  have ev1: "pq_tick q \<le> w \<and> event_list ?c \<noteq> [] \<and> fst (hd (event_list ?c)) \<le> w" if sw: "sendEvent q = Some w" for w
  proof (cases "pre = []")
    case True
    then have "schedSendEvent t ?q1 = Inr q" "\<not> waitingOnRetry ?q" using e h(3) pre by auto
    then show ?thesis using schedSendEvent_ok(4) [OF _ ev [OF True]] sw q True by (auto simp: event_list_def same_setup_def)
  next
    case False
    then have "q = ?q1" using e h(3) by simp
    then have "pq_tick q \<le> w" "event_list c \<noteq> []" "fst (hd (event_list c)) \<le> w" using inv(1) [of w] sw by auto
    moreover obtain x pre' where "pre = x # pre'" using False by (cases pre) auto
    ultimately show ?thesis using h(1) q hdpost by (cases pre') (auto simp: event_list_def)
  qed
  have live: "waitingOnRetry q \<or> sendEvent q \<noteq> None \<or> fst (hd (transmitList q)) = MaxTick" if sn: "sending c = None"
  proof (cases "pre = []")
    case True
    then have "schedSendEvent t ?q1 = Inr q" using e h(3) by auto
    then show ?thesis using schedSendEvent_ok(5) [OF _ ev [OF True]] q True by auto
  next
    case False
    then have "q = ?q1" using e h(3) by simp
    then show ?thesis using inv(2) [OF sn] h(1) False by auto
  qed
  have noev: "sendEvent q = None" if "waitingOnRetry ?q" "\<not> called_back c"
    using inv(7) that pre [OF that(1)] e h(3) by auto
  show ?thesis using len srt rdy ev1 live noev inv(3,4) q(1,3)
    unfolding pq_inv_def by (auto simp: same_setup_def)
qed

lemma sendDeferred_call_Inr:
  "sendDeferred_call q = Inr (dp, q') \<longleftrightarrow> \<not> waitingOnRetry q \<and> fst dp \<le> pq_tick q \<and> transmitList q = dp # transmitList q' \<and>
     q' = q\<lparr>transmitList := transmitList q'\<rparr>"
  by (cases "transmitList q") (auto simp: sendDeferred_call_def deferredPacketReady_def res_simps)

lemma call_inv:
  assumes "pq_inv c" "sending c = None" "sendDeferred_call q = Inr (dp, q')"
    "q = (pq c)\<lparr>sendEvent := None\<rparr> \<and> \<not> waitingOnRetry (pq c) \<or> q = (pq c)\<lparr>waitingOnRetry := False\<rparr> \<and> waitingOnRetry (pq c)"
  shows "pq_inv (c\<lparr>pq := q', sending := Some dp\<rparr>)"
proof -
  note inv = pq_invD [OF assms(1)]
  obtain l where l: "transmitList (pq c) = dp # l" "q' = q\<lparr>transmitList := l\<rparr>" "fst dp \<le> pq_tick (pq c)"
    using assms(3,4) by (auto simp: sendDeferred_call_Inr)
  then have aw: "all_waiting (c\<lparr>pq := q', sending := Some dp\<rparr>) = all_waiting c"
    using assms(2) by (simp add: all_waiting_def)
  show ?thesis unfolding pq_inv_def aw using assms(4) l inv(1,5,6,7)
    by (auto simp: event_list_def)
qed

lemma return_inv:
  assumes "pq_inv c" "sending c = Some dp" "sendDeferred_return dp accepted (pq c) = Inr q"
  shows "pq_inv (c\<lparr>pq := q, sending := None, sent := s\<rparr>)"
proof -
  note inv = pq_invD [OF assms(1)]
  have nw: "\<not> waitingOnRetry (pq c)" using inv(3) assms(2) by auto
  show ?thesis
  proof (cases accepted)
    case True
    let ?t = "deferredPacketReadyTime (pq c)"
    have "(pq c)\<lparr>waitingOnRetry := False\<rparr> = pq c" using nw by (cases "pq c") simp
    then have r: "schedSendEvent ?t (pq c) = Inr q" using assms(3) True by (simp add: sendDeferred_return_def Let_def)
    have "\<forall>v. sendEvent (pq c) = Some v \<longrightarrow> pq_tick (pq c) \<le> v \<and> ?t \<le> v"
      using inv(1) nw by (auto simp: event_list_def deferredPacketReadyTime_def)
    note s = schedSendEvent_ok [OF r this]
    have ev: "pq_tick q \<le> w \<and> transmitList q \<noteq> [] \<and> fst (hd (transmitList q)) \<le> w" if "sendEvent q = Some w" for w
    proof (cases "transmitList (pq c) = []")
      case True
      then have "sendEvent (pq c) = None" using inv(1) nw by (cases "sendEvent (pq c)") (auto simp: event_list_def)
      then show ?thesis using s(6) that True by (simp add: deferredPacketReadyTime_def)
    next
      case False
      then show ?thesis using s(1,2,4) that by (simp add: deferredPacketReadyTime_def same_setup_def)
    qed
    have live: "transmitList q \<noteq> [] \<Longrightarrow> sendEvent q \<noteq> None \<or> fst (hd (transmitList q)) = MaxTick"
      using s(2,5) nw by (auto simp: deferredPacketReadyTime_def)
    show ?thesis using ev live s(1-3) nw inv(5,6) assms(2) unfolding pq_inv_def
      by (auto simp: event_list_def all_waiting_def same_setup_def)
  next
    case False
    then have q: "q = (pq c)\<lparr>waitingOnRetry := True, transmitList := dp # transmitList (pq c)\<rparr>"
      using assms(3) by (simp add: sendDeferred_return_def)
    show ?thesis using inv(1,4,5,6,7) assms(2) nw unfolding pq_inv_def q
      by (auto simp: event_list_def all_waiting_def deferredPacketReady_def)
  qed
qed

lemma stopped_waiting:
  "all_waiting (c\<lparr>stopped := e\<rparr>) = all_waiting c" "event_list (c\<lparr>stopped := e\<rparr>) = event_list c"
  by (simp_all add: all_waiting_def event_list_def split: option.split)

lemma stopped_inv: "pq_inv (c\<lparr>stopped := e\<rparr>) = pq_inv c"
  by (simp add: pq_inv_def stopped_waiting)

lemma pq_step_inv: "pq_step c c' \<Longrightarrow> pq_inv c \<Longrightarrow> pq_inv c'"
proof (induction rule: pq_step.induct)
  case (enqueue c p t q)
  show ?case by (rule enqueue_inv [OF enqueue.prems enqueue.hyps(2)])
next
  case (time c t)
  note inv = pq_invD [OF time.prems]
  show ?case using inv time.hyps unfolding pq_inv_def
    by (auto simp: event_list_def all_waiting_def deferredPacketReady_def intro: order_trans)
next
  case (event c dp q)
  then show ?case by (intro call_inv [where q = "(pq c)\<lparr>sendEvent := None\<rparr>"]) (auto simp: processSendEvent_call_def res_simps)
next
  case (retry c dp q)
  then show ?case by (intro call_inv [where q = "(pq c)\<lparr>waitingOnRetry := False\<rparr>"]) (auto simp: retry_call_def res_simps)
qed (simp_all add: return_inv stopped_inv)

lemma pq_start_inv: "pq_inv (pq_start fo dis now)"
  by (simp add: pq_inv_def pq_start_def PacketQueue_new_def all_waiting_def)

lemma pq_reachable_inv: "pq_step\<^sup>*\<^sup>* (pq_start fo dis now) c \<Longrightarrow> pq_inv c"
  by (induction rule: rtranclp_induct) (auto intro: pq_start_inv pq_step_inv)

section \<open>What becomes of the packets\<close>

definition pq_history :: "pq_run \<Rightarrow> bool" where
  "pq_history c \<longleftrightarrow> (forceOrder (pq c) \<longrightarrow> accepted_in_order (queued c) (sent c) (all_waiting c)) \<and>
     (\<forall>p. count_list (queued c) p = count_list (sent c @ map snd (all_waiting c)) p)"

lemma enqueue_history:
  assumes "pq_inv c" "pq_history c" "schedSendTiming p t (pq c) = Inr q"
  shows "pq_history (c\<lparr>pq := q, queued := queued c @ [p], called_back := b\<rparr>)"
proof -
  from schedSendTiming_place [OF assms(3)] obtain pre post front where
    h: "transmitList (pq c) = pre @ post" "forceOrder (pq c) \<longrightarrow> pq_insert True t p (transmitList (pq c)) = Inr (pre @ (t, p) # post)"
    and e: "(if front then schedSendEvent t ((pq c)\<lparr>transmitList := pre @ (t, p) # post\<rparr>)
      else Inr ((pq c)\<lparr>transmitList := pre @ (t, p) # post\<rparr>)) = Inr q" by metis
  have q: "transmitList q = pre @ (t, p) # post" "forceOrder q = forceOrder (pq c)"
    using e by (auto simp: schedSendEvent_def Let_def res_simps split: if_splits option.splits)
  define s where "s = (case sending c of None \<Rightarrow> sent c | Some dp \<Rightarrow> sent c @ [snd dp])"
  have aw: "accepted_in_order acc (sent c) (all_waiting (c\<lparr>pq := r, queued := acc', called_back := b'\<rparr>)) \<longleftrightarrow> accepted_in_order acc s (transmitList r)"
    for acc acc' r b'
    by (auto simp: all_waiting_def s_def accepted_in_order_def split: option.splits)
  have "accepted_in_order (queued c @ [p]) (sent c) (all_waiting (c\<lparr>pq := q, queued := queued c @ [p], called_back := b\<rparr>))" if f: "forceOrder (pq c)"
  proof -
    have "accepted_in_order (queued c) s (transmitList (pq c))"
      using assms(2) f aw [where acc = "queued c" and r = "pq c" and acc' = "queued c" and b' = "called_back c"] by (simp add: pq_history_def)
    then have "accepted_in_order (queued c @ [p]) s (transmitList q)" using pqi.ins_keeps_order h(2) f q(1) by auto
    then show ?thesis unfolding aw .
  qed
  then show ?thesis using assms(2) h(1) q by (auto simp: pq_history_def all_waiting_def split: option.splits)
qed

lemma call_history:
  assumes "pq_history c" "sending c = None" "sendDeferred_call q = Inr (dp, q')"
    "transmitList q = transmitList (pq c)" "forceOrder q = forceOrder (pq c)"
  shows "pq_history (c\<lparr>pq := q', sending := Some dp\<rparr>)"
proof -
  have h: "transmitList (pq c) = dp # transmitList q'" "forceOrder q' = forceOrder (pq c)"
    using assms(3-) by (cases "transmitList q"; auto simp: sendDeferred_call_def deferredPacketReady_def res_simps)+
  then show ?thesis using assms(1,2) by (simp add: pq_history_def all_waiting_def)
qed

lemma return_history:
  assumes "pq_history c" "sending c = Some dp" "sendDeferred_return dp accepted (pq c) = Inr q"
  shows "pq_history (c\<lparr>pq := q, sending := None, sent := sent c @ (if accepted then [snd dp] else [])\<rparr>)"
proof -
  have "forceOrder q = forceOrder (pq c) \<and>
    transmitList q = (if accepted then transmitList (pq c) else dp # transmitList (pq c))"
    using assms(3) by (auto simp: sendDeferred_return_def schedSendEvent_def Let_def res_simps split: if_splits option.splits)
  then show ?thesis using assms(1,2) by (cases dp) (auto simp: pq_history_def all_waiting_def accepted_in_order_def)
qed

lemma stopped_history: "pq_history (c\<lparr>stopped := e\<rparr>) = pq_history c"
  by (simp add: pq_history_def stopped_waiting)

lemma pq_step_history: "pq_step c c' \<Longrightarrow> pq_inv c \<Longrightarrow> pq_history c \<Longrightarrow> pq_history c'"
proof (induction rule: pq_step.induct)
  case (event c dp q)
  then show ?case by (intro call_history [where q = "(pq c)\<lparr>sendEvent := None\<rparr>"]) (auto simp: processSendEvent_call_def res_simps)
next
  case (retry c dp q)
  then show ?case by (intro call_history [where q = "(pq c)\<lparr>waitingOnRetry := False\<rparr>"]) (auto simp: retry_call_def res_simps)
qed (simp_all add: enqueue_history return_history stopped_history, simp add: pq_history_def all_waiting_def)

lemma pq_reachable_history:
  assumes "pq_step\<^sup>*\<^sup>* (pq_start fo dis now) c"
  shows "pq_history c"
  using assms
proof (induction rule: rtranclp_induct)
  case base
  show ?case by (simp add: pq_history_def pq_start_def PacketQueue_new_def all_waiting_def accepted_in_order_def)
next
  case (step c c')
  then show ?case using pq_step_history pq_reachable_inv by blast
qed

lemma pq_step_setup:
  "pq_step c c' \<Longrightarrow> forceOrder (pq c') = forceOrder (pq c) \<and> pq_disableSanityCheck (pq c') = pq_disableSanityCheck (pq c)"
  by (induction rule: pq_step.induct)
    (auto simp: schedSendTiming_def schedSendEvent_def sendDeferred_call_def sendDeferred_return_def processSendEvent_call_def
      retry_call_def Let_def res_simps split: if_splits option.splits)

lemma pq_reachable_setup:
  "pq_step\<^sup>*\<^sup>* (pq_start fo dis now) c \<Longrightarrow> forceOrder (pq c) = fo \<and> pq_disableSanityCheck (pq c) = dis"
  by (induction rule: rtranclp_induct) (simp_all add: pq_start_def PacketQueue_new_def pq_step_setup)

text \<open>A packet that waits for a retry is still the first one after any packet was queued.\<close>

lemma retried_packet_stays_first:
  assumes "pq_inv c" "waitingOnRetry (pq c)" "schedSendTiming p t (pq c) = Inr q"
  shows "hd (transmitList q) = hd (transmitList (pq c))"
proof -
  from schedSendTiming_place [OF assms(3)] obtain pre post front where
    h: "transmitList (pq c) = pre @ post" "pq_tick (pq c) \<le> t" "front \<longleftrightarrow> pre = []" "\<forall>y\<in>set post. t < fst y"
    and e: "(if front then schedSendEvent t ((pq c)\<lparr>transmitList := pre @ (t, p) # post\<rparr>)
      else Inr ((pq c)\<lparr>transmitList := pre @ (t, p) # post\<rparr>)) = Inr q" by metis
  have "transmitList (pq c) \<noteq> []" "fst (hd (transmitList (pq c))) \<le> t"
    using pq_invD(3) [OF assms(1,2)] h(2) by (auto simp: deferredPacketReady_def)
  then have "pre \<noteq> []" using h(1,4) by (cases post) auto
  then show ?thesis using e h(1,3) by auto
qed

section \<open>Properties\<close>

text \<open>A run for the examples: a read that is due at tick 5 and another one that overtakes it with tick 3.\<close>

definition two_reads :: "bool \<Rightarrow> pq_run" where
  "two_reads fo =
     (let p1 = data_packet ReadReq 0x40 [0, 0]; p2 = data_packet ReadReq 0x80 [0, 0] in
      \<lparr>pq = (PacketQueue_new fo False 0)\<lparr>transmitList := [(3, p2), (5, p1)], sendEvent := Some 3\<rparr>,
       sending = None, queued = [p1, p2], sent = [], called_back = False, stopped = None\<rparr>)"

lemma data_packet_queueable [simp]:
  "addr_ok (data_packet c a bs)" "\<not> isExpressSnoop (data_packet c a bs)" "match_key (data_packet c a bs) = (a, False)"
  by (simp_all add: addr_ok_def isExpressSnoop_def match_key_def data_packet_def packet_init_def isSet_def)

lemma two_reads_reachable: "pq_step\<^sup>*\<^sup>* (pq_start fo False 0) (two_reads fo)"
proof -
  let ?p1 = "data_packet ReadReq 0x40 [0, 0]" and ?p2 = "data_packet ReadReq 0x80 [0, 0]"
  let ?q1 = "(PacketQueue_new fo False 0)\<lparr>transmitList := [(5, ?p1)], sendEvent := Some 5\<rparr>"
  let ?q2 = "(PacketQueue_new fo False 0)\<lparr>transmitList := [(3, ?p2), (5, ?p1)], sendEvent := Some 3\<rparr>"
  have 1: "schedSendTiming ?p1 5 (PacketQueue_new fo False 0) = Inr ?q1"
    by (simp add: schedSendTiming_def schedSendEvent_def PacketQueue_new_def schedule_at_def Let_def max_def word_le_nat_alt)
  have 2: "schedSendTiming ?p2 3 ?q1 = Inr ?q2"
    by (simp add: schedSendTiming_def schedSendEvent_def PacketQueue_new_def reschedule_at_def Let_def matchAddr_pkt_ok max_def word_le_nat_alt word_less_nat_alt)
  let ?c0 = "pq_start fo False 0"
  let ?c1 = "?c0\<lparr>pq := ?q1, queued := [?p1]\<rparr>"
  have "pq_step ?c0 ?c1" using enqueue [of ?c0 ?p1 5 ?q1] 1 by (simp add: pq_start_def)
  moreover have "pq_step ?c1 (two_reads fo)" using enqueue [of ?c1 ?p2 3 ?q2] 2 by (simp add: pq_start_def two_reads_def Let_def)
  ultimately show ?thesis by (simp add: rtranclp.rtrancl_into_rtrancl)
qed

text \<open>
  C21: The transmit list of a packet queue whose sanity check is on never holds more than 130 packets,
  whatever is queued, sent, refused or retried in whatever order, also when the peer queues packets while
  it is being called.
\<close>

theorem packet_queue_bounded:
  assumes "pq_step\<^sup>*\<^sup>* (pq_start fo False now) c"
  shows "length (transmitList (pq c)) \<le> 130"
  using pq_invD(6) [OF pq_reachable_inv [OF assms]] pq_reachable_setup [OF assms]
  by (auto simp: all_waiting_def split: option.splits)

theorem packet_queue_bounded_witness: "length (transmitList (pq (two_reads False))) \<le> 130"
  by (rule packet_queue_bounded [OF two_reads_reachable])

text \<open>A run in which the peer queues a packet while it is being called and then refuses the packet it was called with.\<close>

definition refused_read :: pq_run where
  "refused_read =
     (let p1 = data_packet ReadReq 0x40 [0, 0]; p2 = data_packet ReadReq 0x80 [0, 0] in
      \<lparr>pq = (PacketQueue_new False False 5)\<lparr>transmitList := [(5, p1), (5, p2)], sendEvent := Some 6, waitingOnRetry := True\<rparr>,
       sending = None, queued = [p1, p2], sent = [], called_back = True, stopped = None\<rparr>)"

text \<open>The state of that run in which the peer is being called and has not queued anything yet.\<close>

definition called_read :: pq_run where
  "called_read = \<lparr>pq = PacketQueue_new False False 5, sending = Some (5, data_packet ReadReq 0x40 [0, 0]),
     queued = [data_packet ReadReq 0x40 [0, 0]], sent = [], called_back = False, stopped = None\<rparr>"

lemma called_read_reachable: "pq_step\<^sup>*\<^sup>* (pq_start False False 0) called_read"
proof -
  let ?p1 = "data_packet ReadReq 0x40 [0, 0]" and ?c0 = "pq_start False False 0"
  let ?q1 = "(PacketQueue_new False False 0)\<lparr>transmitList := [(5, ?p1)], sendEvent := Some 5\<rparr>"
  let ?c1 = "?c0\<lparr>pq := ?q1, queued := [?p1]\<rparr>"
  let ?c2 = "?c1\<lparr>pq := ?q1\<lparr>pq_tick := 5\<rparr>\<rparr>"
  have "schedSendTiming ?p1 5 (PacketQueue_new False False 0) = Inr ?q1"
    by (simp add: schedSendTiming_def schedSendEvent_def PacketQueue_new_def schedule_at_def Let_def max_def word_le_nat_alt)
  then have "pq_step ?c0 ?c1" using enqueue [of ?c0 ?p1 5 ?q1] by (simp add: pq_start_def)
  moreover have "pq_step ?c1 ?c2" using time [of ?c1 5] by (simp add: pq_start_def PacketQueue_new_def)
  moreover have "pq_step ?c2 called_read"
    using event [of ?c2 "(5, ?p1)" "PacketQueue_new False False 5"]
    by (simp add: pq_start_def PacketQueue_new_def called_read_def processSendEvent_call_def sendDeferred_call_def deferredPacketReady_def)
  ultimately show ?thesis by (meson converse_rtranclp_into_rtranclp rtranclp.rtrancl_refl)
qed

lemma called_read_queues:
  "schedSendTiming (data_packet ReadReq 0x80 [0, 0]) 5 (PacketQueue_new False False 5) =
     Inr ((PacketQueue_new False False 5)\<lparr>transmitList := [(5, data_packet ReadReq 0x80 [0, 0])], sendEvent := Some 6\<rparr>)"
  by (simp add: schedSendTiming_def schedSendEvent_def PacketQueue_new_def schedule_at_def Let_def max_def word_le_nat_alt)

lemma refused_read_reachable: "pq_step\<^sup>*\<^sup>* (pq_start False False 0) refused_read"
proof -
  let ?p2 = "data_packet ReadReq 0x80 [0, 0]"
  let ?q = "(PacketQueue_new False False 5)\<lparr>transmitList := [(5, ?p2)], sendEvent := Some 6\<rparr>"
  let ?c = "called_read\<lparr>pq := ?q, queued := queued called_read @ [?p2], called_back := True\<rparr>"
  have "pq_step called_read ?c" using enqueue [of called_read ?p2 5 ?q] called_read_queues by (simp add: called_read_def)
  moreover have "pq_step ?c refused_read"
    using answer [of ?c "(5, data_packet ReadReq 0x40 [0, 0])" False]
    by (simp add: called_read_def refused_read_def PacketQueue_new_def sendDeferred_return_def Let_def)
  ultimately show ?thesis using called_read_reachable by (simp add: rtranclp.rtrancl_into_rtrancl)
qed

text \<open>
  C20: A packet queue never stalls, and its assertions hold except in one case.  When no packet is being sent and the list is not
  empty, either the queue waits for a retry and a retry sends its first packet, or a send event is scheduled, now or later, and
  when it comes the first packet is due and is sent.  A queue that waits for a retry has a send event scheduled only
  if the peer queued a packet while it was being called; the assertion of that event fails if it comes before the retry.
  Packets queued for the largest tick are left out: no event is scheduled for them.
\<close>

theorem packet_queue_never_stalls:
  assumes "pq_step\<^sup>*\<^sup>* (pq_start fo dis now) c" "sending c = None" "transmitList (pq c) \<noteq> []"
    "fst (hd (transmitList (pq c))) \<noteq> MaxTick"
  shows "if waitingOnRetry (pq c)
    then (\<exists>q. retry_call (pq c) = Inr (hd (transmitList (pq c)), q)) \<and>
      (\<forall>w. sendEvent (pq c) = Some w \<longrightarrow> called_back c \<and> pq_tick (pq c) \<le> w \<and>
        processSendEvent_call ((pq c)\<lparr>sendEvent := None, pq_tick := w\<rparr>) = Inl Assert_Failed)
    else \<exists>w q. sendEvent (pq c) = Some w \<and> pq_tick (pq c) \<le> w \<and>
      processSendEvent_call ((pq c)\<lparr>sendEvent := None, pq_tick := w\<rparr>) = Inr (hd (transmitList (pq c)), q)"
proof -
  note inv = pq_invD [OF pq_reachable_inv [OF assms(1)]]
  show ?thesis
  proof (cases "waitingOnRetry (pq c)")
    case True
    then have "\<exists>q. retry_call (pq c) = Inr (hd (transmitList (pq c)), q)"
      using inv(3) by (simp add: retry_call_def sendDeferred_call_def deferredPacketReady_def)
    moreover have "called_back c \<and> pq_tick (pq c) \<le> w" if "sendEvent (pq c) = Some w" for w
      using inv(1) [OF that] inv(7) True that by auto
    ultimately show ?thesis using True by (simp add: processSendEvent_call_def)
  next
    case False
    then obtain w where w: "sendEvent (pq c) = Some w" using inv(2) [OF assms(2,3)] assms(4) by auto
    then have "pq_tick (pq c) \<le> w" "fst (hd (transmitList (pq c))) \<le> w" using inv(1) [OF w] False by (simp_all add: event_list_def)
    then show ?thesis using w False assms(3) by (simp add: processSendEvent_call_def sendDeferred_call_def deferredPacketReady_def)
  qed
qed

theorem packet_queue_never_stalls_witness:
  "(\<exists>q. processSendEvent_call ((pq (two_reads True))\<lparr>sendEvent := None, pq_tick := 3\<rparr>) =
      Inr ((3, data_packet ReadReq 0x80 [0, 0]), q)) \<and>
   (\<exists>q. retry_call (pq refused_read) = Inr ((5, data_packet ReadReq 0x40 [0, 0]), q)) \<and>
   processSendEvent_call ((pq refused_read)\<lparr>sendEvent := None, pq_tick := 6\<rparr>) = Inl Assert_Failed"
  using packet_queue_never_stalls [OF two_reads_reachable, of True] packet_queue_never_stalls [OF refused_read_reachable]
  by (simp add: two_reads_def refused_read_def PacketQueue_new_def Let_def)



text \<open>
  C8: Every packet that was queued was sent or still waits, exactly once.  A queue that forces the order
  sends the packets of one address in the order they were queued; any other queue keeps its packets
  sorted by their ticks.
\<close>

theorem packet_queue_order:
  assumes "pq_step\<^sup>*\<^sup>* (pq_start fo dis now) c"
  shows "(\<forall>p. count_list (queued c) p = count_list (sent c @ map snd (all_waiting c)) p) \<and>
    (if fo then accepted_in_order (queued c) (sent c) (all_waiting c) else sorted (map fst (all_waiting c)))"
  using pq_reachable_history [OF assms] pq_invD(5) [OF pq_reachable_inv [OF assms]] pq_reachable_setup [OF assms]
  by (auto simp: pq_history_def)

theorem packet_queue_order_witness:
  "accepted_in_order (queued (two_reads True)) [] (transmitList (pq (two_reads True))) \<and>
   sorted (map fst (transmitList (pq (two_reads False))))"
  using packet_queue_order [OF two_reads_reachable [of True]] packet_queue_order [OF two_reads_reachable [of False]]
  by (simp add: two_reads_def all_waiting_def Let_def)

end
