(* ===== verification/Simple_Mem.thy ===== *)
theory Simple_Mem
  imports Abstract_Mem Deferred_Queue
begin

text \<open>
  Model of the memory controller with a fixed latency and a limited bandwidth
  (\<^verbatim>\<open>src/gem5/src/mem/simple_mem.cc\<close>, \<^verbatim>\<open>simple_mem.hh\<close>) on top of the memory base class.  The product of a
  size and the bandwidth, a \<^verbatim>\<open>double\<close>, is a function of the size that the state carries; a random number is
  an argument of the operation that draws it.  The call that sends a response is split as in the packet
  queue, since the peer may send its next request before it answers.
\<close>

section \<open>State\<close>

record simple_mem =
  sm_mem :: abstract_mem
  sm_latency :: tick
  sm_latency_var :: tick
  sm_duration :: "u32 \<Rightarrow> tick"
  packetQueue :: deferred
  isBusy :: bool
  sm_retryReq :: bool
  retryResp :: bool
  releaseEvent :: "tick option"
  dequeueEvent :: "tick option"
  sm_drainState :: drain_state
  sm_tick :: tick

definition SimpleMemory_new :: "abstract_mem \<Rightarrow> tick \<Rightarrow> tick \<Rightarrow> (u32 \<Rightarrow> tick) \<Rightarrow> tick \<Rightarrow> simple_mem" where
  "SimpleMemory_new m lat lat_var dur now =
     \<lparr>sm_mem = m, sm_latency = lat, sm_latency_var = lat_var, sm_duration = dur, packetQueue = [], isBusy = False,
      sm_retryReq = False, retryResp = False, releaseEvent = None, dequeueEvent = None, sm_drainState = Running,
      sm_tick = now\<rparr>"

section \<open>Operations\<close>

definition getLatency :: "tick \<Rightarrow> simple_mem \<Rightarrow> tick" where
  "getLatency rnd s = sm_latency s + (if sm_latency_var s \<noteq> 0 then rnd else 0)"

definition sm_recvAtomic :: "tick \<Rightarrow> packet \<Rightarrow> simple_mem \<Rightarrow> (tick \<times> packet \<times> simple_mem) res" where
  "sm_recvAtomic rnd pkt s =
     (if cacheResponding pkt then Inl Panic
      else sbind (am_access pkt (sm_mem s)) (\<lambda>(pkt, m). Inr (getLatency rnd s, pkt, s\<lparr>sm_mem := m\<rparr>)))"

definition recvAtomicBackdoor :: "tick \<Rightarrow> packet \<Rightarrow> simple_mem \<Rightarrow> (tick \<times> bool \<times> packet \<times> simple_mem) res" where
  "recvAtomicBackdoor rnd pkt s =
     sbind (sm_recvAtomic rnd pkt s) (\<lambda>(lat, pkt, s). Inr (lat, getBackdoor (sm_mem s), pkt, s))"

definition recvMemBackdoorReq :: "simple_mem \<Rightarrow> bool" where
  "recvMemBackdoorReq s = getBackdoor (sm_mem s)"

text \<open>After the memory has answered, the packet is also matched against the waiting responses.\<close>

definition sm_recvFunctional :: "bool \<Rightarrow> packet \<Rightarrow> simple_mem \<Rightarrow> (packet \<times> simple_mem) res" where
  "sm_recvFunctional prs pkt s =
     sbind (functionalAccess prs pkt (sm_mem s)) (\<lambda>(pkt, m).
     sbind (satisfy_from pkt (packetQueue s)) (\<lambda>(found, pkt, q).
     Inr (pkt, s\<lparr>sm_mem := m, packetQueue := q\<rparr>)))"

text \<open>
  The place of a response is searched from the end of the queue.  The first element is not compared, so
  nothing goes in front of it.  Stepping back from the end of an empty list stays there in the list of
  the standard library, and the response becomes the only element.
\<close>

fun insert_response :: "tick \<Rightarrow> packet \<Rightarrow> deferred \<Rightarrow> deferred res" where
  "insert_response w p [] = Inr [(w, p)]"
| "insert_response w p [x] = Inr [(w, p), x]"
| "insert_response w p ((t, x) # y # rq) =
     (if w < t then
        sbind (matchAddr_pkt p x) (\<lambda>m.
          if m then Inr ((w, p) # (t, x) # y # rq)
          else sbind (insert_response w p (y # rq)) (\<lambda>rq. Inr ((t, x) # rq)))
      else Inr ((w, p) # (t, x) # y # rq))"

definition queue_response :: "tick \<Rightarrow> packet \<Rightarrow> deferred \<Rightarrow> deferred res" where
  "queue_response w p q = sbind (insert_response w p (rev q)) (\<lambda>rq. Inr (rev rq))"

text \<open>The memory is busy for the time its bandwidth needs for the size of the request.\<close>

definition occupy :: "u32 \<Rightarrow> simple_mem \<Rightarrow> simple_mem res" where
  "occupy sz s =
     (let duration = sm_duration s sz in
      if duration \<noteq> 0
      then sbind (schedule_at (releaseEvent s) (sm_tick s) (sm_tick s + duration)) (\<lambda>ev.
           Inr (s\<lparr>releaseEvent := ev, isBusy := True\<rparr>))
      else Inr s)"

definition respond_at :: "tick \<Rightarrow> packet \<Rightarrow> simple_mem \<Rightarrow> simple_mem res" where
  "respond_at when_to_send pkt s =
     sbind (queue_response when_to_send pkt (packetQueue s)) (\<lambda>q.
       if \<not> retryResp s \<and> dequeueEvent s = None
       then sbind (schedule_at (dequeueEvent s) (sm_tick s) (fst (last q))) (\<lambda>ev.
            Inr (s\<lparr>packetQueue := q, dequeueEvent := ev\<rparr>))
       else Inr (s\<lparr>packetQueue := q\<rparr>))"

text \<open>The answer tells whether the request was accepted.\<close>

definition sm_recvTimingReq :: "tick \<Rightarrow> packet \<Rightarrow> simple_mem \<Rightarrow> (bool \<times> packet \<times> simple_mem) res" where
  "sm_recvTimingReq rnd pkt s =
     (if cacheResponding pkt then Inl Panic
      else if \<not> (isRead (p_cmd pkt) \<or> isWrite (p_cmd pkt)) then Inl Panic
      else if sm_retryReq s then Inr (False, pkt, s)
      else if isBusy s then Inr (False, pkt, s\<lparr>sm_retryReq := True\<rparr>)
      else
        (let delay = receive_delay pkt; pkt = no_delay pkt; needs = needsResponse (p_cmd pkt) in
         sbind (getSize pkt) (\<lambda>sz.
         sbind (occupy sz s) (\<lambda>s.
         sbind (sm_recvAtomic rnd pkt s) (\<lambda>(_, pkt, s).
         if needs then
           sbind (sassert (isResponse (p_cmd pkt))) (\<lambda>_.
           sbind (respond_at (sm_tick s + delay + getLatency rnd s) pkt s) (\<lambda>s. Inr (True, pkt, s)))
         else Inr (True, pkt, s))))))"

text \<open>Releasing the memory tells whether the requestor is asked to retry.\<close>

definition sm_release :: "simple_mem \<Rightarrow> (bool \<times> simple_mem) res" where
  "sm_release s =
     sbind (sassert (isBusy s)) (\<lambda>_.
       (let s = s\<lparr>isBusy := False\<rparr> in
        if sm_retryReq s then Inr (True, s\<lparr>sm_retryReq := False\<rparr>) else Inr (False, s)))"

definition dequeue_call :: "simple_mem \<Rightarrow> packet res" where
  "dequeue_call s = sbind (sassert (packetQueue s \<noteq> [])) (\<lambda>_. Inr (snd (hd (packetQueue s))))"

definition dequeue_return :: "bool \<Rightarrow> simple_mem \<Rightarrow> simple_mem res" where
  "dequeue_return accepted s =
     (let s = s\<lparr>retryResp := \<not> accepted\<rparr> in
      if accepted then
        (let s = s\<lparr>packetQueue := tl (packetQueue s)\<rparr> in
         if packetQueue s \<noteq> [] then
           sbind (reschedule_at (dequeueEvent s) (sm_tick s) (max (fst (hd (packetQueue s))) (sm_tick s)) True) (\<lambda>ev.
           Inr (s\<lparr>dequeueEvent := ev\<rparr>))
         else if sm_drainState s = Draining then Inr (s\<lparr>sm_drainState := signalDrainDone (sm_drainState s)\<rparr>)
         else Inr s)
      else Inr s)"

definition recvRespRetry_call :: "simple_mem \<Rightarrow> packet res" where
  "recvRespRetry_call s = sbind (sassert (retryResp s)) (\<lambda>_. dequeue_call s)"

definition sm_drain :: "simple_mem \<Rightarrow> drain_state" where
  "sm_drain s = (if packetQueue s \<noteq> [] then Draining else Drained)"

definition sm_getAddrRanges :: "simple_mem \<Rightarrow> addr_range list" where
  "sm_getAddrRanges s = [am_range (sm_mem s)]"

section \<open>Runs\<close>

text \<open>
  The memory in a simulation: the response that is being sent, the requests that were accepted, the
  responses to them in the same order, the responses the peer has taken, and the ticks the accepted
  requests occupy the memory for.
\<close>

record sm_run =
  sm :: simple_mem
  responding :: "packet option"
  requests :: "packet list"
  responses :: "packet list"
  delivered :: "packet list"
  occupied :: nat

inductive sm_step :: "sm_run \<Rightarrow> sm_run \<Rightarrow> bool" where
  refuse: "sm_recvTimingReq rnd p (sm c) = Inr (False, p', s) \<Longrightarrow> sm_step c (c\<lparr>sm := s\<rparr>)"
| accept: "sm_recvTimingReq rnd p (sm c) = Inr (True, p', s) \<Longrightarrow>
    sm_step c (c\<lparr>sm := s, requests := requests c @ [no_delay p],
      responses := responses c @ (if needsResponse (p_cmd p) then [p'] else []),
      occupied := occupied c + unat (sm_duration (sm c) (p_size p))\<rparr>)"
| time: "responding c = None \<Longrightarrow> sm_tick (sm c) \<le> t \<Longrightarrow> (\<And>w. releaseEvent (sm c) = Some w \<Longrightarrow> t \<le> w) \<Longrightarrow>
    (\<And>w. dequeueEvent (sm c) = Some w \<Longrightarrow> t \<le> w) \<Longrightarrow> sm_step c (c\<lparr>sm := (sm c)\<lparr>sm_tick := t\<rparr>\<rparr>)"
| freed: "responding c = None \<Longrightarrow> releaseEvent (sm c) = Some (sm_tick (sm c)) \<Longrightarrow>
    sm_release ((sm c)\<lparr>releaseEvent := None\<rparr>) = Inr (told, s) \<Longrightarrow> sm_step c (c\<lparr>sm := s\<rparr>)"
| dequeue: "responding c = None \<Longrightarrow> dequeueEvent (sm c) = Some (sm_tick (sm c)) \<Longrightarrow>
    dequeue_call (sm c) = Inr p \<Longrightarrow> sm_step c (c\<lparr>sm := (sm c)\<lparr>dequeueEvent := None\<rparr>, responding := Some p\<rparr>)"
| retry: "responding c = None \<Longrightarrow> recvRespRetry_call (sm c) = Inr p \<Longrightarrow> sm_step c (c\<lparr>responding := Some p\<rparr>)"
| answer: "responding c = Some p \<Longrightarrow> dequeue_return accepted (sm c) = Inr s \<Longrightarrow>
    sm_step c (c\<lparr>sm := s, responding := None,
      delivered := delivered c @ (if accepted then [p] else [])\<rparr>)"

definition sm_start :: "simple_mem \<Rightarrow> sm_run" where
  "sm_start s = \<lparr>sm = s, responding = None, requests = [], responses = [], delivered = [], occupied = 0\<rparr>"

section \<open>Insertion\<close>

lemma insert_response_place:
  assumes "insert_response w p rq = Inr rq'"
  shows "\<exists>post pre. rq = post @ pre \<and> rq' = post @ (w, p) # pre \<and> (rq \<noteq> [] \<longrightarrow> pre \<noteq> []) \<and>
    (\<forall>y\<in>set post. w < fst y \<and> match_key (snd y) \<noteq> match_key p)"
  using assms
proof (induction w p rq arbitrary: rq' rule: insert_response.induct)
  case (3 w p t x y rq)
  show ?case
  proof (cases "w < t \<and> matchAddr_pkt p x = Inr False")
    case True
    then obtain rq1 where rq1: "insert_response w p (y # rq) = Inr rq1" "rq' = (t, x) # rq1"
      using "3.prems" by (auto simp: res_simps)
    from "3.IH" [OF _ _ rq1(1)] True obtain post pre where
      h: "y # rq = post @ pre" "rq1 = post @ (w, p) # pre" "pre \<noteq> []"
        "\<forall>y\<in>set post. w < fst y \<and> match_key (snd y) \<noteq> match_key p" by blast
    have "match_key x \<noteq> match_key p" using True matchAddr_pkt_key [of p x False] by simp
    then show ?thesis using h rq1(2) True by (intro exI [of _ "(t, x) # post"] exI [of _ pre]) auto
  next
    case False
    then have "rq' = (w, p) # (t, x) # y # rq" using "3.prems" by (auto simp: res_simps split: if_splits)
    then show ?thesis by (intro exI [of _ "[]"] exI [of _ "(t, x) # y # rq"]) simp
  qed
next
  case (2 w p x)
  then show ?case by (intro exI [of _ "[]"] exI [of _ "[x]"]) simp
qed simp

lemma queue_response_place:
  assumes "queue_response w p q = Inr q'"
  shows "\<exists>pre post. q = pre @ post \<and> q' = pre @ (w, p) # post \<and> (q \<noteq> [] \<longrightarrow> pre \<noteq> []) \<and>
    (\<forall>y\<in>set post. w < fst y \<and> match_key (snd y) \<noteq> match_key p)"
proof -
  from assms obtain rq where rq: "insert_response w p (rev q) = Inr rq" "q' = rev rq"
    by (auto simp: queue_response_def res_simps)
  from insert_response_place [OF rq(1)] obtain post pre where
    h: "rev q = post @ pre" "rq = post @ (w, p) # pre" "rev q \<noteq> [] \<longrightarrow> pre \<noteq> []"
      "\<forall>y\<in>set post. w < fst y \<and> match_key (snd y) \<noteq> match_key p" by blast
  have "q = rev pre @ rev post" using arg_cong [OF h(1), of rev] by simp
  moreover have "q' = rev pre @ (w, p) # rev post" "q \<noteq> [] \<longrightarrow> rev pre \<noteq> []"
    "\<forall>y\<in>set (rev post). w < fst y \<and> match_key (snd y) \<noteq> match_key p" using h(2-) rq(2) by simp_all
  ultimately show ?thesis by blast
qed

interpretation smi: keyed_insertion queue_response
proof
  fix t p q q' assume "queue_response t p q = Inr q'"
  from queue_response_place [OF this] show "\<exists>pre post. q = pre @ post \<and> q' = pre @ (t, p) # post \<and>
    (\<forall>y\<in>set post. match_key (snd y) \<noteq> match_key p)" by blast
qed

text \<open>The first response keeps its place.\<close>

lemma queue_response_hd:
  assumes "queue_response w p q = Inr q'"
  shows "q' \<noteq> []" "q \<noteq> [] \<Longrightarrow> hd q' = hd q" "q \<noteq> [] \<Longrightarrow> tl q' \<noteq> []" "q = [] \<Longrightarrow> q' = [(w, p)]"
proof -
  from queue_response_place [OF assms] obtain pre post where
    h: "q = pre @ post" "q' = pre @ (w, p) # post" "q \<noteq> [] \<longrightarrow> pre \<noteq> []" by blast
  show "q' \<noteq> []" "q \<noteq> [] \<Longrightarrow> hd q' = hd q" "q \<noteq> [] \<Longrightarrow> tl q' \<noteq> []" "q = [] \<Longrightarrow> q' = [(w, p)]"
    using h by (cases pre; auto)+
qed

section \<open>What a request does\<close>

lemma refuse_spec:
  "sm_recvTimingReq rnd p s = Inr (False, p', s') \<Longrightarrow>
     sm_retryReq s \<and> s' = s \<or> isBusy s \<and> s' = s\<lparr>sm_retryReq := True\<rparr>"
  by (auto simp: sm_recvTimingReq_def res_simps Let_def split: if_splits)

lemma occupy_Inr:
  "occupy n s = Inr s' \<longleftrightarrow>
     (if sm_duration s n = 0 then s' = s
      else releaseEvent s = None \<and> sm_tick s \<le> sm_tick s + sm_duration s n \<and>
        s' = s\<lparr>releaseEvent := Some (sm_tick s + sm_duration s n), isBusy := True\<rparr>)"
  by (auto simp: occupy_def res_simps Let_def)

lemma respond_at_Inr:
  "respond_at w p s = Inr s' \<longleftrightarrow>
     (\<exists>q. queue_response w p (packetQueue s) = Inr q \<and>
       (if \<not> retryResp s \<and> dequeueEvent s = None
        then sm_tick s \<le> fst (last q) \<and> s' = s\<lparr>packetQueue := q, dequeueEvent := Some (fst (last q))\<rparr>
        else s' = s\<lparr>packetQueue := q\<rparr>))"
  by (cases "queue_response w p (packetQueue s)"; cases "\<not> retryResp s \<and> dequeueEvent s = None")
    (auto simp: respond_at_def schedule_at_def)

lemma getLatency_simps [simp]:
  "getLatency r (s\<lparr>releaseEvent := ev, isBusy := b\<rparr>) = getLatency r s" "getLatency r (s\<lparr>sm_mem := m\<rparr>) = getLatency r s"
  by (simp_all add: getLatency_def)

lemma accept_spec:
  assumes "sm_recvTimingReq rnd p s = Inr (True, p', s')"
  shows "\<exists>s1 m. \<not> isBusy s \<and> \<not> sm_retryReq s \<and> am_access (no_delay p) (sm_mem s) = Inr (p', m) \<and> occupy (p_size p) s = Inr s1 \<and>
    (if needsResponse (p_cmd p)
     then respond_at (sm_tick s + receive_delay p + getLatency rnd s) p' (s1\<lparr>sm_mem := m\<rparr>) = Inr s'
     else s' = s1\<lparr>sm_mem := m\<rparr>)"
proof -
  let ?p = "no_delay p"
  from assms have c: "\<not> cacheResponding p" "\<not> isBusy s" "\<not> sm_retryReq s" "isRead (p_cmd p) \<or> isWrite (p_cmd p)"
    by (auto simp: sm_recvTimingReq_def split: if_splits)
  have r: "sbind (getSize ?p) (\<lambda>sz. sbind (occupy sz s) (\<lambda>s. sbind (sm_recvAtomic rnd ?p s) (\<lambda>(_, pkt, s).
      if needsResponse (p_cmd ?p) then
        sbind (sassert (isResponse (p_cmd pkt))) (\<lambda>_.
        sbind (respond_at (sm_tick s + receive_delay p + getLatency rnd s) pkt s) (\<lambda>s. Inr (True, pkt, s)))
      else Inr (True, pkt, s)))) = Inr (True, p', s')"
    using assms c by (simp add: sm_recvTimingReq_def Let_def)
  then obtain sz s1 m q where o: "getSize ?p = Inr sz" "occupy sz s = Inr s1" "am_access ?p (sm_mem s1) = Inr (q, m)"
    and f: "(if needsResponse (p_cmd p)
      then sbind (respond_at (sm_tick s1 + receive_delay p + getLatency rnd s1) q (s1\<lparr>sm_mem := m\<rparr>)) (\<lambda>s. Inr (True, q, s))
      else Inr (True, q, s1\<lparr>sm_mem := m\<rparr>)) = Inr (True, p', s')"
    by (auto simp: sm_recvAtomic_def res_simps split: if_splits)
  have "sz = p_size p" using o(1) by (auto simp: getSize_def no_delay_def res_simps)
  moreover have "sm_mem s1 = sm_mem s" "sm_tick s1 = sm_tick s" "getLatency rnd s1 = getLatency rnd s"
    using o(2) by (auto simp: occupy_Inr split: if_splits)
  ultimately show ?thesis using o f c by (auto simp: res_simps split: if_splits)
qed

section \<open>What a run keeps\<close>

text \<open>
  The memory is busy exactly while a release is scheduled, and only a busy memory owes a retry.  From a
  start at \<^verbatim>\<open>t0\<close> the accepted requests fit one after the other in the time up to the next release.
\<close>

definition release_inv :: "nat \<Rightarrow> nat \<Rightarrow> simple_mem \<Rightarrow> bool" where
  "release_inv t0 occ s \<longleftrightarrow> (isBusy s \<longleftrightarrow> releaseEvent s \<noteq> None) \<and> (sm_retryReq s \<longrightarrow> isBusy s) \<and>
     (\<forall>w. releaseEvent s = Some w \<longrightarrow> sm_tick s \<le> w) \<and>
     t0 + occ \<le> unat (case releaseEvent s of None \<Rightarrow> sm_tick s | Some w \<Rightarrow> w)"

text \<open>
  A response that is being sent is the first one and is due.  Waiting responses have an event or a retry
  to come, and the event is not before the first response is due.
\<close>

definition response_inv :: "packet option \<Rightarrow> simple_mem \<Rightarrow> bool" where
  "response_inv r s \<longleftrightarrow>
     (\<forall>w. dequeueEvent s = Some w \<longrightarrow> sm_tick s \<le> w \<and> packetQueue s \<noteq> [] \<and> (r \<noteq> None \<longrightarrow> tl (packetQueue s) \<noteq> []) \<and>
        fst (hd (packetQueue s)) \<le> w) \<and>
     (r = None \<longrightarrow> packetQueue s \<noteq> [] \<longrightarrow> retryResp s \<or> dequeueEvent s \<noteq> None) \<and>
     (retryResp s \<longrightarrow> packetQueue s \<noteq> [] \<and> fst (hd (packetQueue s)) \<le> sm_tick s) \<and>
     (\<forall>p. r = Some p \<longrightarrow> packetQueue s \<noteq> [] \<and> fst (hd (packetQueue s)) \<le> sm_tick s \<and> snd (hd (packetQueue s)) = p)"

lemma word_add_no_wrap:
  assumes "(a :: tick) \<le> a + b"
  shows "unat (a + b) = unat a + unat b"
proof (rule unat_add_no_wrap, rule ccontr)
  assume "\<not> unat a + unat b < 2 ^ LENGTH(64)"
  then have "unat (a + b) = unat a + unat b - 2 ^ 64"
    using unat_lt_exp [of a] unat_lt_exp [of b] by (simp add: unat_word_ariths mod_if)
  then show False using assms unat_lt_exp [of b] unat_lt_exp [of a] \<open>\<not> unat a + unat b < 2 ^ LENGTH(64)\<close>
    by (simp add: word_le_nat_alt)
qed

lemma occupy_release_inv:
  assumes "release_inv t0 occ s" "\<not> isBusy s" "occupy n s = Inr s'"
  shows "release_inv t0 (occ + unat (sm_duration s n)) s'"
proof (cases "sm_duration s n = 0")
  case False
  then show ?thesis using assms word_add_no_wrap [of "sm_tick s" "sm_duration s n"]
    by (auto simp: occupy_Inr release_inv_def)
qed (use assms in \<open>simp add: occupy_Inr\<close>)

lemma release_inv_cong:
  "releaseEvent s' = releaseEvent s \<Longrightarrow> isBusy s' = isBusy s \<Longrightarrow> sm_retryReq s' = sm_retryReq s \<Longrightarrow> sm_tick s' = sm_tick s \<Longrightarrow>
    release_inv t0 occ s' = release_inv t0 occ s"
  by (simp add: release_inv_def split: option.splits)

lemma response_inv_cong:
  "dequeueEvent s' = dequeueEvent s \<Longrightarrow> packetQueue s' = packetQueue s \<Longrightarrow> retryResp s' = retryResp s \<Longrightarrow> sm_tick s' = sm_tick s \<Longrightarrow>
    response_inv r s' = response_inv r s"
  by (simp add: response_inv_def)

lemma respond_queue_inv:
  assumes "response_inv r s" "respond_at w p s = Inr s'"
  shows "response_inv r s'"
proof -
  obtain q where q: "queue_response w p (packetQueue s) = Inr q"
    and s': "if \<not> retryResp s \<and> dequeueEvent s = None
        then sm_tick s \<le> fst (last q) \<and> s' = s\<lparr>packetQueue := q, dequeueEvent := Some (fst (last q))\<rparr>
        else s' = s\<lparr>packetQueue := q\<rparr>" using assms(2) unfolding respond_at_Inr by blast
  note h = queue_response_hd [OF q]
  show ?thesis
  proof (cases "packetQueue s = []")
    case True
    then have "\<not> retryResp s" "dequeueEvent s = None" "r = None"
      using assms(1) by (auto simp: response_inv_def)
    then show ?thesis using s' h(4) [OF True] by (simp add: response_inv_def)
  next
    case False
    note h = h(1) h(2,3) [OF False]
    show ?thesis
    proof (cases "\<not> retryResp s \<and> dequeueEvent s = None")
      case True
      then obtain p0 where r: "r = Some p0" using assms(1) False by (auto simp: response_inv_def)
      then have f: "fst (hd q) \<le> sm_tick s" "snd (hd q) = p0" using assms(1) h(2) by (simp_all add: response_inv_def)
      have t: "sm_tick s \<le> fst (last q)" "s' = s\<lparr>packetQueue := q, dequeueEvent := Some (fst (last q))\<rparr>" using s' True by simp_all
      show ?thesis using True h(1,3) f t(1) order_trans [OF f(1) t(1)] unfolding t(2) r by (simp add: response_inv_def)
    next
      case 2: False
      then have t: "s' = s\<lparr>packetQueue := q\<rparr>" using s' by presburger
      show ?thesis using h assms(1) 2 unfolding t by (simp add: response_inv_def)
    qed
  qed
qed

lemma occupy_fields:
  assumes "occupy n s = Inr s'"
  shows "dequeueEvent s' = dequeueEvent s" "packetQueue s' = packetQueue s" "retryResp s' = retryResp s" "sm_tick s' = sm_tick s"
    "sm_duration s' = sm_duration s" "sm_mem s' = sm_mem s"
  using assms by (auto simp: occupy_Inr split: if_splits)

lemma respond_fields:
  assumes "respond_at w p s = Inr s'"
  shows "releaseEvent s' = releaseEvent s" "isBusy s' = isBusy s" "sm_retryReq s' = sm_retryReq s" "sm_tick s' = sm_tick s"
    "sm_duration s' = sm_duration s" "sm_mem s' = sm_mem s" "queue_response w p (packetQueue s) = Inr (packetQueue s')"
    "retryResp s' = retryResp s"
proof -
  from assms obtain q where q: "queue_response w p (packetQueue s) = Inr q"
    "if \<not> retryResp s \<and> dequeueEvent s = None
        then sm_tick s \<le> fst (last q) \<and> s' = s\<lparr>packetQueue := q, dequeueEvent := Some (fst (last q))\<rparr>
        else s' = s\<lparr>packetQueue := q\<rparr>" unfolding respond_at_Inr by blast
  show "releaseEvent s' = releaseEvent s" "isBusy s' = isBusy s" "sm_retryReq s' = sm_retryReq s" "sm_tick s' = sm_tick s"
    "sm_duration s' = sm_duration s" "sm_mem s' = sm_mem s" "queue_response w p (packetQueue s) = Inr (packetQueue s')"
    "retryResp s' = retryResp s"
    using q by (cases "\<not> retryResp s \<and> dequeueEvent s = None"; simp)+
qed

lemma accept_inv:
  assumes "release_inv t0 occ s" "response_inv r s" "sm_recvTimingReq rnd p s = Inr (True, p', s')"
  shows "release_inv t0 (occ + unat (sm_duration s (p_size p))) s'" "response_inv r s'"
proof -
  from accept_spec [OF assms(3)] obtain s1 m where h: "\<not> isBusy s" "occupy (p_size p) s = Inr s1"
    and e: "if needsResponse (p_cmd p)
       then respond_at (sm_tick s + receive_delay p + getLatency rnd s) p' (s1\<lparr>sm_mem := m\<rparr>) = Inr s'
       else s' = s1\<lparr>sm_mem := m\<rparr>" by blast
  have 1: "release_inv t0 (occ + unat (sm_duration s (p_size p))) s1" by (rule occupy_release_inv [OF assms(1) h])
  have 2: "response_inv r s1" using assms(2) response_inv_cong [OF occupy_fields(1-4) [OF h(2)]] by simp
  let ?s = "s1\<lparr>sm_mem := m\<rparr>"
  have m: "release_inv t0 occ' ?s = release_inv t0 occ' s1" "response_inv r ?s = response_inv r s1" for occ'
    by (rule release_inv_cong response_inv_cong; simp)+
  show "release_inv t0 (occ + unat (sm_duration s (p_size p))) s'"
  proof (cases "needsResponse (p_cmd p)")
    case True
    then have r: "respond_at (sm_tick s + receive_delay p + getLatency rnd s) p' ?s = Inr s'" using e by simp
    show ?thesis using 1 m release_inv_cong [OF respond_fields(1-4) [OF r]] by simp
  qed (use e 1 m in simp)
  show "response_inv r s'"
  proof (cases "needsResponse (p_cmd p)")
    case True
    then have r: "respond_at (sm_tick s + receive_delay p + getLatency rnd s) p' ?s = Inr s'" using e by simp
    show ?thesis by (rule respond_queue_inv [OF _ r]) (use 2 m in simp)
  qed (use e 2 m in simp)
qed

section \<open>Runs\<close>

lemma time_inv:
  assumes "sm_tick s \<le> t" "\<And>w. releaseEvent s = Some w \<Longrightarrow> t \<le> w" "\<And>w. dequeueEvent s = Some w \<Longrightarrow> t \<le> w"
  shows "release_inv t0 occ s \<Longrightarrow> release_inv t0 occ (s\<lparr>sm_tick := t\<rparr>)" "response_inv None s \<Longrightarrow> response_inv None (s\<lparr>sm_tick := t\<rparr>)"
  using assms by (auto simp: release_inv_def response_inv_def word_le_nat_alt split: option.splits)

lemma freed_inv:
  assumes "releaseEvent s = Some (sm_tick s)" "sm_release (s\<lparr>releaseEvent := None\<rparr>) = Inr (told, s')"
  shows "release_inv t0 occ s \<Longrightarrow> release_inv t0 occ s'" "response_inv r s \<Longrightarrow> response_inv r s'"
    "sm_duration s' = sm_duration s" "sm_mem s' = sm_mem s" "packetQueue s' = packetQueue s"
  using assms by (auto simp: sm_release_def release_inv_def response_inv_def res_simps Let_def split: if_splits)

lemma sm_call_inv:
  assumes "response_inv None s" "dequeueEvent s = Some (sm_tick s)" "dequeue_call s = Inr p"
  shows "response_inv (Some p) (s\<lparr>dequeueEvent := None\<rparr>)"
  using assms by (auto simp: response_inv_def dequeue_call_def res_simps)

text \<open>A queue with an event and a response to retry holds two responses.\<close>

definition two_if_both :: "simple_mem \<Rightarrow> bool" where
  "two_if_both s \<longleftrightarrow> (retryResp s \<and> dequeueEvent s \<noteq> None \<longrightarrow> tl (packetQueue s) \<noteq> [])"

lemma retry_inv:
  assumes "response_inv None s" "two_if_both s" "recvRespRetry_call s = Inr p"
  shows "response_inv (Some p) s"
  using assms by (auto simp: response_inv_def two_if_both_def dequeue_call_def recvRespRetry_call_def res_simps)

lemma sm_return_inv:
  assumes "response_inv (Some p) s" "dequeue_return accepted s = Inr s'"
  shows "response_inv None s'" "two_if_both s'"
    "packetQueue s = (hd (packetQueue s)) # tl (packetQueue s)" "snd (hd (packetQueue s)) = p"
    "packetQueue s' = (if accepted then tl (packetQueue s) else packetQueue s)"
    "sm_duration s' = sm_duration s" "sm_mem s' = sm_mem s" "release_inv t0 occ s' = release_inv t0 occ s"
proof -
  show "packetQueue s' = (if accepted then tl (packetQueue s) else packetQueue s)"
    "sm_duration s' = sm_duration s" "sm_mem s' = sm_mem s" "release_inv t0 occ s' = release_inv t0 occ s"
    using assms(2) by (auto simp: dequeue_return_def res_simps Let_def release_inv_def split: if_splits)
  show "packetQueue s = (hd (packetQueue s)) # tl (packetQueue s)" "snd (hd (packetQueue s)) = p"
    using assms(1) by (auto simp: response_inv_def)
  have n: "dequeueEvent s = None" if "tl (packetQueue s) = []"
    using assms(1) that by (cases "dequeueEvent s") (auto simp: response_inv_def)
  show "response_inv None s'" "two_if_both s'"
    using assms n by (auto simp: dequeue_return_def res_simps Let_def response_inv_def two_if_both_def split: if_splits)
qed

definition sm_inv :: "nat \<Rightarrow> sm_run \<Rightarrow> bool" where
  "sm_inv t0 c \<longleftrightarrow> release_inv t0 (occupied c) (sm c) \<and> response_inv (responding c) (sm c) \<and>
     (responding c = None \<longrightarrow> two_if_both (sm c)) \<and> accepted_in_order (responses c) (delivered c) (packetQueue (sm c))"

lemma accept_sm_inv:
  assumes "sm_inv t0 c" "sm_recvTimingReq rnd p (sm c) = Inr (True, p', s)"
  shows "sm_inv t0 (c\<lparr>sm := s, requests := requests c @ [no_delay p],
      responses := responses c @ (if needsResponse (p_cmd p) then [p'] else []),
      occupied := occupied c + unat (sm_duration (sm c) (p_size p))\<rparr>)"
proof -
  note inv = assms(1) [unfolded sm_inv_def]
  from accept_spec [OF assms(2)] obtain s1 m where o: "occupy (p_size p) (sm c) = Inr s1"
    and e: "if needsResponse (p_cmd p)
       then respond_at (sm_tick (sm c) + receive_delay p + getLatency rnd (sm c)) p' (s1\<lparr>sm_mem := m\<rparr>) = Inr s
       else s = s1\<lparr>sm_mem := m\<rparr>" by blast
  note f = occupy_fields [OF o]
  have ord: "accepted_in_order (responses c @ (if needsResponse (p_cmd p) then [p'] else [])) (delivered c) (packetQueue s)"
  proof (cases "needsResponse (p_cmd p)")
    case True
    then have "respond_at (sm_tick (sm c) + receive_delay p + getLatency rnd (sm c)) p' (s1\<lparr>sm_mem := m\<rparr>) = Inr s" using e by simp
    from respond_fields(7) [OF this] show ?thesis using smi.ins_keeps_order inv f(2) True by simp
  next
    case False
    then show ?thesis using e inv f(2) by simp
  qed
  have two: "two_if_both s" if tb: "two_if_both (sm c)" "responding c = None"
  proof (cases "needsResponse (p_cmd p)")
    case True
    then have r: "respond_at (sm_tick (sm c) + receive_delay p + getLatency rnd (sm c)) p' (s1\<lparr>sm_mem := m\<rparr>) = Inr s" using e by simp
    have "tl (packetQueue s) \<noteq> []" if "retryResp (sm c)"
      using queue_response_hd(3) [OF respond_fields(7) [OF r]] f(2) inv that by (auto simp: response_inv_def)
    moreover have "retryResp s = retryResp (sm c)" using respond_fields(8) [OF r] f(3) by simp
    ultimately show ?thesis by (simp add: two_if_both_def)
  next
    case False
    then show ?thesis using e tb f(1-3) by (simp add: two_if_both_def)
  qed
  have "release_inv t0 (occupied c) (sm c)" "response_inv (responding c) (sm c)" using inv by simp_all
  from accept_inv [OF this assms(2)] show ?thesis using inv ord two by (simp add: sm_inv_def)
qed

lemma refuse_inv:
  assumes "sm_recvTimingReq rnd p s = Inr (False, p', s')"
  shows "release_inv t0 occ s \<Longrightarrow> release_inv t0 occ s'" "response_inv r s' = response_inv r s" "two_if_both s' = two_if_both s"
    "packetQueue s' = packetQueue s" "sm_mem s' = sm_mem s"
proof -
  consider "s' = s" | "isBusy s" "s' = s\<lparr>sm_retryReq := True\<rparr>" using refuse_spec [OF assms] by blast
  then have "(release_inv t0 occ s \<longrightarrow> release_inv t0 occ s') \<and> response_inv r s' = response_inv r s \<and> two_if_both s' = two_if_both s \<and>
    packetQueue s' = packetQueue s \<and> sm_mem s' = sm_mem s"
  proof cases
    case 2
    have "response_inv r (s\<lparr>sm_retryReq := True\<rparr>) = response_inv r s" by (rule response_inv_cong) simp_all
    then show ?thesis using 2(1) unfolding 2(2) by (simp add: release_inv_def two_if_both_def split: option.splits)
  qed simp
  then show "release_inv t0 occ s \<Longrightarrow> release_inv t0 occ s'" "response_inv r s' = response_inv r s" "two_if_both s' = two_if_both s"
    "packetQueue s' = packetQueue s" "sm_mem s' = sm_mem s" by simp_all
qed

lemma sm_step_inv: "sm_step c c' \<Longrightarrow> sm_inv t0 c \<Longrightarrow> sm_inv t0 c'"
proof (induction rule: sm_step.induct)
  case (refuse rnd p c p' s)
  from refuse_inv [OF refuse.hyps] show ?case using refuse.prems by (simp add: sm_inv_def)
next
  case (accept rnd p c p' s)
  then show ?case by (intro accept_sm_inv)
next
  case (time c t)
  then show ?case using time_inv [of "sm c" t] by (auto simp: sm_inv_def two_if_both_def)
next
  case (freed c told s)
  moreover from freed.hyps have "two_if_both (sm c) \<Longrightarrow> two_if_both s"
    by (auto simp: two_if_both_def sm_release_def res_simps Let_def split: if_splits)
  ultimately show ?case using freed_inv [OF freed.hyps(2,3)] by (auto simp: sm_inv_def)
next
  case (dequeue c p)
  then show ?case using sm_call_inv [of "sm c" p] release_inv_cong [of "(sm c)\<lparr>dequeueEvent := None\<rparr>" "sm c"] by (simp add: sm_inv_def)
next
  case (retry c p)
  then show ?case using retry_inv [of "sm c" p] by (simp add: sm_inv_def)
next
  case (answer c p accepted s)
  then have q: "response_inv (Some p) (sm c)" by (simp add: sm_inv_def)
  note r = sm_return_inv [OF q answer.hyps(2)]
  obtain t l where l: "packetQueue (sm c) = (t, p) # l" using r(3,4) by (cases "packetQueue (sm c)") auto
  then have "accepted_in_order (responses c) (delivered c) ((t, p) # l)" using answer.prems by (simp add: sm_inv_def)
  then have "accepted_in_order (responses c) (delivered c @ (if accepted then [p] else [])) (packetQueue s)"
    using r(5) l accepted_in_order_send [of "responses c" "delivered c" p l t] by (cases accepted) simp_all
  then show ?case using answer.prems r(1,2,8) by (simp add: sm_inv_def)
qed

lemma sm_start_inv: "sm_inv (unat now) (sm_start (SimpleMemory_new m lat var dur now))"
  by (simp add: sm_inv_def sm_start_def SimpleMemory_new_def release_inv_def response_inv_def two_if_both_def accepted_in_order_def)

lemma sm_reachable_inv: "sm_step\<^sup>*\<^sup>* (sm_start (SimpleMemory_new m lat var dur now)) c \<Longrightarrow> sm_inv (unat now) c"
  by (induction rule: rtranclp_induct) (auto intro: sm_start_inv sm_step_inv)

text \<open>The requests act on the memory in the order they are accepted.\<close>

definition sm_serial :: "abstract_mem \<Rightarrow> sm_run \<Rightarrow> bool" where
  "sm_serial m c \<longleftrightarrow> ((\<forall>p\<in>set (requests c). needsResponse (p_cmd p)) \<longrightarrow>
     run_access am_access (requests c) m = Inr (responses c, sm_mem (sm c)))"

lemma sm_step_serial:
  assumes "sm_step c c'" "sm_serial m c" "sm_inv t0 c"
  shows "sm_serial m c'"
  using assms
proof (induction rule: sm_step.induct)
  case (refuse rnd p c p' s)
  from refuse_inv(5) [OF refuse.hyps] show ?case using refuse.prems(1) by (simp add: sm_serial_def)
next
  case (accept rnd p c p' s)
  from accept_spec [OF accept.hyps] obtain s1 m1 where a: "am_access (no_delay p) (sm_mem (sm c)) = Inr (p', m1)"
    and e: "if needsResponse (p_cmd p)
       then respond_at (sm_tick (sm c) + receive_delay p + getLatency rnd (sm c)) p' (s1\<lparr>sm_mem := m1\<rparr>) = Inr s
       else s = s1\<lparr>sm_mem := m1\<rparr>" by blast
  have "sm_mem s = m1" using e respond_fields(6) [of _ p' "s1\<lparr>sm_mem := m1\<rparr>" s] by (cases "needsResponse (p_cmd p)") auto
  then show ?case using accept.prems(1) a by (simp add: sm_serial_def am.run_access_append)
next
  case (freed c told s)
  then show ?case using freed_inv(4) [OF freed.hyps(2,3)] by (simp add: sm_serial_def)
next
  case (answer c p accepted s)
  then have "response_inv (Some p) (sm c)" by (simp add: sm_inv_def)
  from sm_return_inv(7) [OF this answer.hyps(2)] show ?case using answer.prems(1) by (simp add: sm_serial_def)
qed (simp_all add: sm_serial_def)

lemma sm_reachable_serial:
  assumes "sm_step\<^sup>*\<^sup>* (sm_start (SimpleMemory_new m lat var dur now)) c"
  shows "sm_serial m c"
  using assms
proof (induction rule: rtranclp_induct)
  case base
  show ?case by (simp add: sm_serial_def sm_start_def SimpleMemory_new_def)
next
  case (step c c')
  then show ?case using sm_step_serial sm_reachable_inv by blast
qed

section \<open>Functional reads\<close>

lemma clear_snoop_flag [simp]:
  "isSet (clearFlags f P_EXPRESS_SNOOP) P_VALID_ADDR = isSet f P_VALID_ADDR"
  "isSet (clearFlags f P_EXPRESS_SNOOP) P_VALID_SIZE = isSet f P_VALID_SIZE"
  "isSet (clearFlags f P_EXPRESS_SNOOP) 0x3000 = isSet f 0x3000"
  by (simp_all add: isSet_def clearFlags_def and.assoc)

lemma functional_read_memory:
  assumes "am_inv m" "am_covers p m" "simple_read p"
  shows "\<exists>d. functionalAccess prs p m =
      Inr (p\<lparr>p_cmd := ReadResp, p_data := Some d, p_flags := clearFlags (p_flags p) P_EXPRESS_SNOOP\<rparr>, m) \<and> length d = unat (p_size p)"
proof -
  let ?off = "unat (p_addr p) - am_base m"
  have p: "pkt_ok p" "p_cmd p = ReadReq" "0 < unat (p_size p)" "\<not> isMaskedWrite p" using assms(3) by (auto simp: simple_read_def isMaskedWrite_def)
  define d where "d = get_bytes (the (am_pmem m)) ?off (unat (p_size p))"
  have len: "?off + unat (p_size p) \<le> length (the (am_pmem m))" using assms(2) by (auto simp: am_covers_def)
  then have l: "length d = unat (p_size p)" by (simp add: d_def)
  have "put_bytes (the (p_data p)) 0 d = d" using p(1) l by (simp add: put_bytes_def)
  then have ld: "am_load p ?off m = Inr (p\<lparr>p_data := Some d\<rparr>)"
    using assms(1) p len l by (auto simp: am_load_def am_inv_def setData_def d_def)
  have off: "am_toHostAddr m (p_addr p) = ?off"
    using assms(2) by (simp add: am_toHostAddr_def am_base_def am_covers_def unat_sub word_le_nat_alt)
  have "makeResponse (p\<lparr>p_data := Some d\<rparr>) =
      Inr (p\<lparr>p_cmd := ReadResp, p_data := Some d, p_flags := clearFlags (p_flags p) P_EXPRESS_SNOOP\<rparr>)"
    using p(2) makeResponse_ok [of "p\<lparr>p_data := Some d\<rparr>"]
    by (cases p) (simp add: cmd_predicates responseCommand_def)
  then show ?thesis using am_subset [OF assms(1,2) p(3)] p ld off l
    by (intro exI [of _ d]) (simp add: functionalAccess_def getAddrRange_def cmd_predicates)
qed

text \<open>A response that carries exactly the bytes a functional read asks for ends the search with its own bytes.\<close>

lemma satisfied_by_response:
  assumes p: "pkt_ok p" "isRead (p_cmd p)" "bytesValid p = []" "0 < unat (p_size p)" "unat (p_size p) < 2 ^ 31"
      "unat (p_addr p) + unat (p_size p) \<le> 2 ^ 64"
    and x: "pkt_ok x" "p_cmd x = ReadResp" "p_addr x = p_addr p" "p_size x = p_size p" "p_isSecure x = p_isSecure p"
  shows "\<exists>p'. satisfy_from p ((t, x) # q) = Inr (True, p', (t, x) # q) \<and> the (p_data p') = the (p_data x)"
proof -
  let ?n = "unat (p_size p)" and ?d = "the (p_data x)"
  have d: "length ?d = unat (p_size p)" using x(1,4) by simp
  from trySatisfyFunctional_read [OF p(1,2) _ p(4,6) d p(4,5,6) _ _ x(5)] p(3,4) obtain ok p' where
    r: "trySatisfyFunctional (p_addr p) (p_isSecure x) (p_size p) (Some ?d) p = Inr (ok, p', Some ?d)" "length (the (p_data p')) = ?n"
    and b: "\<forall>i < ?n. the (p_data p') ! i = (let y = unat (p_addr p) + i in
          if unat (p_addr p) \<le> y \<and> y < unat (p_addr p) + ?n then ?d ! (y - unat (p_addr p)) else the (p_data p) ! i) \<and>
       (pvalid p' i \<longleftrightarrow> pvalid p i \<or> unat (p_addr p) \<le> unat (p_addr p) + i \<and> unat (p_addr p) + i < unat (p_addr p) + ?n)"
    and ok: "ok \<longleftrightarrow> (\<forall>i < ?n. pvalid p' i)" by auto
  have "ok" using ok b by simp
  have "the (p_data p') = ?d" using b r(2) d by (intro nth_equalityI) (simp_all add: Let_def)
  have nm: "\<not> isMaskedWrite x" "hasData (p_cmd x)" using x(2) by (simp_all add: isMaskedWrite_def cmd_predicates)
  have same: "x\<lparr>p_data := Some ?d\<rparr> = x" using x(1) by (cases x) (auto simp: pkt_ok_def)
  have "trySatisfyFunctional_pkt x p = Inr (True, p', x)"
    using x nm r(1) \<open>ok\<close> same by (simp add: trySatisfyFunctional_pkt_def)
  then show ?thesis using \<open>the (p_data p') = ?d\<close> by simp
qed

section \<open>Properties\<close>

text \<open>A run for the examples: a write is accepted, and a read is refused while the memory is busy.\<close>

definition sample_controller :: simple_mem where
  "sample_controller = SimpleMemory_new sample_mem 10 0 (\<lambda>n. 8) 0"

lemma sample_run:
  "\<exists>c. sm_step\<^sup>*\<^sup>* (sm_start sample_controller) c \<and> requests c = [data_packet WriteReq 0x1010 [1, 2, 3, 4]] \<and> occupied c = 8 \<and>
     sm_retryReq (sm c) \<and> releaseEvent (sm c) = Some 8 \<and> length (responses c) = 1 \<and> sm_tick (sm c) = 0 \<and> responding c = None"
proof -
  let ?w = "data_packet WriteReq 0x1010 [1, 2, 3, 4]" and ?r = "data_packet ReadReq 0x1010 [1, 2, 3, 4]"
  let ?s = sample_controller
  have w: "simple_write ?w" by (rule simple_data_packets) simp_all
  then have nd: "no_delay ?w = ?w" "receive_delay ?w = 0" "getSize ?w = Inr 4" "\<not> cacheResponding ?w"
    by (simp_all add: no_delay_def receive_delay_def data_packet_def packet_init_def simple_write_def pkt_ok_def getSize_def isSet_def)
  from am.write_law [OF sample_mem_inv sample_covers w] obtain q m where
    q: "am_access ?w sample_mem = Inr (q, m)" "p_cmd q = WriteResp" by blast
  define s1 where "s1 = ?s\<lparr>releaseEvent := Some 8, isBusy := True, sm_mem := m, packetQueue := [(10, q)], dequeueEvent := Some 10\<rparr>"
  have a: "sm_recvTimingReq 0 ?w ?s = Inr (True, q, s1)"
    using q nd by (simp add: sm_recvTimingReq_def sample_controller_def SimpleMemory_new_def cmd_predicates Let_def occupy_def
      schedule_at_def sm_recvAtomic_def getLatency_def respond_at_def queue_response_def s1_def)
  have b: "sm_recvTimingReq 0 ?r s1 = Inr (False, ?r, s1\<lparr>sm_retryReq := True\<rparr>)"
    by (simp add: sm_recvTimingReq_def s1_def sample_controller_def SimpleMemory_new_def cmd_predicates cacheResponding_def
      data_packet_def packet_init_def isSet_def)
  let ?c0 = "sm_start ?s"
  let ?c1 = "?c0\<lparr>sm := s1, requests := requests ?c0 @ [no_delay ?w],
      responses := responses ?c0 @ (if needsResponse (p_cmd ?w) then [q] else []),
      occupied := occupied ?c0 + unat (sm_duration (sm ?c0) (p_size ?w))\<rparr>"
  have "sm_step ?c0 ?c1" by (rule accept [where rnd = 0]) (simp add: sm_start_def a)
  moreover have "sm_step ?c1 (?c1\<lparr>sm := s1\<lparr>sm_retryReq := True\<rparr>\<rparr>)" by (rule refuse [where rnd = 0 and p = ?r and p' = ?r]) (simp add: b)
  ultimately have "sm_step\<^sup>*\<^sup>* ?c0 (?c1\<lparr>sm := s1\<lparr>sm_retryReq := True\<rparr>\<rparr>)" by (simp add: rtranclp.rtrancl_into_rtrancl)
  then show ?thesis
    by (intro exI [of _ "?c1\<lparr>sm := s1\<lparr>sm_retryReq := True\<rparr>\<rparr>"]) (simp add: nd sm_start_def s1_def sample_controller_def SimpleMemory_new_def cmd_predicates)
qed

text \<open>
  C5: The memory controller keeps what an ideal memory promises, whatever the latencies, the bandwidth and the
  retries: the responses to the accepted reads and writes carry the bytes an ideal memory gives when the requests
  take effect in the order of their acceptance, the memory holds the same bytes as the ideal one, every response is
  sent or waits exactly once, and responses for the same address leave in the order of the requests.
\<close>

theorem simple_memory_refines_ideal:
  assumes "sm_step\<^sup>*\<^sup>* (sm_start (SimpleMemory_new m lat var dur now)) c" "am_inv m"
    "\<forall>p\<in>set (requests c). am_covers p m \<and> (simple_read p \<or> simple_write p)"
  shows "ideal_run (requests c) (responses c) (am_view m) (am_view (sm_mem (sm c))) \<and>
    accepted_in_order (responses c) (delivered c) (packetQueue (sm c)) \<and>
    (\<forall>q. count_list (responses c) q = count_list (delivered c) q + count_list (map snd (packetQueue (sm c))) q)"
proof -
  have "\<forall>p\<in>set (requests c). needsResponse (p_cmd p)"
    using assms(3) by (auto simp: simple_read_def simple_write_def cmd_predicates)
  then have "run_access am_access (requests c) m = Inr (responses c, sm_mem (sm c))"
    using sm_reachable_serial [OF assms(1)] by (simp add: sm_serial_def)
  then have "ideal_run (requests c) (responses c) (am_view m) (am_view (sm_mem (sm c)))"
    using am.run_refines_ideal [OF assms(2,3)] by auto
  moreover have "accepted_in_order (responses c) (delivered c) (packetQueue (sm c))"
    using sm_reachable_inv [OF assms(1)] by (simp add: sm_inv_def)
  ultimately show ?thesis using accepted_in_order_count by blast
qed

theorem simple_memory_refines_ideal_witness:
  "\<exists>c q. sm_step\<^sup>*\<^sup>* (sm_start sample_controller) c \<and> responses c = [q] \<and> p_cmd q = WriteResp \<and>
     am_view (sm_mem (sm c)) 0x1011 = Some 2"
proof -
  let ?w = "data_packet WriteReq 0x1010 [1, 2, 3, 4]"
  obtain c where c: "sm_step\<^sup>*\<^sup>* (sm_start sample_controller) c" "requests c = [?w]" "length (responses c) = 1"
    using sample_run by blast
  have "simple_write ?w" by (rule simple_data_packets) simp_all
  then have "\<forall>p\<in>set (requests c). am_covers p sample_mem \<and> (simple_read p \<or> simple_write p)"
    using c(2) sample_covers [of WriteReq] by simp
  from simple_memory_refines_ideal [OF c(1) [unfolded sample_controller_def] sample_mem_inv this]
  have r: "ideal_run [?w] (responses c) (am_view sample_mem) (am_view (sm_mem (sm c)))" unfolding c(2) by simp
  obtain q where q: "responses c = [q]" using c(3) by (cases "responses c") auto
  then have "p_cmd q = WriteResp" "am_view (sm_mem (sm c)) = store_view ?w (am_view sample_mem)" using r by simp_all
  then show ?thesis using c(1) q by (intro exI [of _ c] exI [of _ q]) (simp add: store_view_def pkt_covers_def)
qed

text \<open>
  C15: The memory controller never takes requests faster than its bandwidth: from its start on, the times the
  accepted requests need add up to no more than the time that has passed, plus what is left until the memory is
  released.
\<close>

theorem simple_memory_bandwidth:
  assumes "sm_step\<^sup>*\<^sup>* (sm_start (SimpleMemory_new m lat var dur now)) c"
  shows "occupied c \<le>
    unat (case releaseEvent (sm c) of None \<Rightarrow> sm_tick (sm c) | Some w \<Rightarrow> w) - unat now \<and>
    unat now \<le> unat (case releaseEvent (sm c) of None \<Rightarrow> sm_tick (sm c) | Some w \<Rightarrow> w)"
  using sm_reachable_inv [OF assms] by (auto simp: sm_inv_def release_inv_def)

theorem simple_memory_bandwidth_witness:
  "\<exists>c. sm_step\<^sup>*\<^sup>* (sm_start sample_controller) c \<and> occupied c = 8 \<and> occupied c \<le> unat (the (releaseEvent (sm c)))"
proof -
  obtain c where c: "sm_step\<^sup>*\<^sup>* (sm_start sample_controller) c" "occupied c = 8" "releaseEvent (sm c) = Some 8"
    using sample_run by blast
  from simple_memory_bandwidth [OF c(1) [unfolded sample_controller_def]] show ?thesis
    using c by (intro exI [of _ c]) simp
qed

text \<open>
  C16: No request and no response is forgotten: while a retry of a request is owed, a release that sends it is
  scheduled; a waiting response has a retry of the peer or an event to come; and a response that is handed to the
  peer is the first one and its time has come.
\<close>

theorem simple_memory_never_stalls:
  assumes "sm_step\<^sup>*\<^sup>* (sm_start (SimpleMemory_new m lat var dur now)) c"
  shows "(sm_retryReq (sm c) \<longrightarrow> (\<exists>w s. releaseEvent (sm c) = Some w \<and> sm_tick (sm c) \<le> w \<and>
      sm_release ((sm c)\<lparr>releaseEvent := None\<rparr>) = Inr (True, s))) \<and>
    (responding c = None \<longrightarrow> packetQueue (sm c) \<noteq> [] \<longrightarrow> retryResp (sm c) \<or>
      (\<exists>w. dequeueEvent (sm c) = Some w \<and> sm_tick (sm c) \<le> w \<and> fst (hd (packetQueue (sm c))) \<le> w)) \<and>
    (\<forall>p. responding c = Some p \<longrightarrow> (\<exists>t. packetQueue (sm c) = (t, p) # tl (packetQueue (sm c)) \<and> t \<le> sm_tick (sm c)))"
proof -
  have inv: "release_inv (unat now) (occupied c) (sm c)" "response_inv (responding c) (sm c)"
    using sm_reachable_inv [OF assms] by (simp_all add: sm_inv_def)
  have "\<exists>w s. releaseEvent (sm c) = Some w \<and> sm_tick (sm c) \<le> w \<and> sm_release ((sm c)\<lparr>releaseEvent := None\<rparr>) = Inr (True, s)"
    if "sm_retryReq (sm c)"
    using inv(1) that by (auto simp: release_inv_def sm_release_def Let_def)
  moreover have "retryResp (sm c) \<or> (\<exists>w. dequeueEvent (sm c) = Some w \<and> sm_tick (sm c) \<le> w \<and> fst (hd (packetQueue (sm c))) \<le> w)"
    if "responding c = None" "packetQueue (sm c) \<noteq> []"
    using inv(2) that by (auto simp: response_inv_def)
  moreover have "\<exists>t. packetQueue (sm c) = (t, p) # tl (packetQueue (sm c)) \<and> t \<le> sm_tick (sm c)" if "responding c = Some p" for p
  proof -
    have "packetQueue (sm c) \<noteq> []" "fst (hd (packetQueue (sm c))) \<le> sm_tick (sm c)" "snd (hd (packetQueue (sm c))) = p"
      using inv(2) that by (simp_all add: response_inv_def)
    then show ?thesis by (cases "packetQueue (sm c)") auto
  qed
  ultimately show ?thesis by blast
qed

theorem simple_memory_never_stalls_witness:
  "\<exists>c s. sm_step\<^sup>*\<^sup>* (sm_start sample_controller) c \<and> sm_release ((sm c)\<lparr>releaseEvent := None\<rparr>) = Inr (True, s)"
proof -
  obtain c where c: "sm_step\<^sup>*\<^sup>* (sm_start sample_controller) c" "sm_retryReq (sm c)" using sample_run by blast
  from simple_memory_never_stalls [OF c(1) [unfolded sample_controller_def]] show ?thesis using c by blast
qed

text \<open>
  C22: A functional read returns the bytes of a waiting read response for the same bytes, not the bytes of the
  memory: a write that was accepted after the read has changed the memory, but as long as the read response
  waits in the queue a functional read does not see what was written.
\<close>

theorem functional_read_is_stale:
  assumes "am_inv (sm_mem s)" "am_covers p (sm_mem s)" "simple_read p" "bytesValid p = []" "unat (p_size p) < 2 ^ 31"
    "packetQueue s = (t, x) # q" "pkt_ok x" "p_cmd x = ReadResp" "p_addr x = p_addr p" "p_size x = p_size p"
    "p_isSecure x = p_isSecure p"
  shows "\<exists>p' s'. sm_recvFunctional prs p s = Inr (p', s') \<and> the (p_data p') = the (p_data x) \<and> sm_mem s' = sm_mem s"
proof -
  from functional_read_memory [OF assms(1-3)] obtain d where
    d: "functionalAccess prs p (sm_mem s) =
      Inr (p\<lparr>p_cmd := ReadResp, p_data := Some d, p_flags := clearFlags (p_flags p) P_EXPRESS_SNOOP\<rparr>, sm_mem s)"
      "length d = unat (p_size p)" by blast
  let ?p = "p\<lparr>p_cmd := ReadResp, p_data := Some d, p_flags := clearFlags (p_flags p) P_EXPRESS_SNOOP\<rparr>"
  have "pkt_ok ?p" using assms(3) d(2) by (auto simp: pkt_ok_def simple_read_def)
  moreover have "unat (p_addr p) + unat (p_size p) \<le> 2 ^ 64"
    using assms(1,2) unat_lt_exp [of "r_end (am_range (sm_mem s))"] by (auto simp: am_inv_def am_covers_def)
  ultimately obtain p' where "satisfy_from ?p ((t, x) # q) = Inr (True, p', (t, x) # q)" "the (p_data p') = the (p_data x)"
    using satisfied_by_response [of ?p x t q] assms(3-) by (auto simp: simple_read_def cmd_predicates)
  then show ?thesis using d(1) assms(6) by (simp add: sm_recvFunctional_def)
qed

theorem functional_read_is_stale_witness:
  "\<exists>p' s'. sm_recvFunctional False (data_packet ReadReq 0x1010 [1, 2, 3, 4])
       (sample_controller\<lparr>packetQueue := [(10, data_packet ReadResp 0x1010 [9, 9, 9, 9])]\<rparr>) = Inr (p', s') \<and>
     the (p_data p') = [9, 9, 9, 9] \<and> am_view sample_mem 0x1010 = Some 0"
proof -
  let ?p = "data_packet ReadReq 0x1010 [1, 2, 3, 4]" and ?x = "data_packet ReadResp 0x1010 [9, 9, 9, 9]"
  let ?s = "sample_controller\<lparr>packetQueue := [(10, ?x)]\<rparr>"
  have m: "sm_mem ?s = sample_mem" by (simp add: sample_controller_def SimpleMemory_new_def)
  have "simple_read ?p" by (rule simple_data_packets) simp_all
  then have "\<exists>p' s'. sm_recvFunctional False ?p ?s = Inr (p', s') \<and> the (p_data p') = the (p_data ?x) \<and> sm_mem s' = sm_mem ?s"
    by (intro functional_read_is_stale [where x = ?x and t = 10 and q = "[]"])
      (simp_all only: m sample_mem_inv sample_covers, simp_all add: data_packet_ok)
  moreover have "am_view sample_mem 0x1010 = Some 0"
    by (simp add: am_view_def mem_view_def am_base_def sample_mem_def RangeSize_def)
  ultimately show ?thesis by auto
qed

end
