(* ===== verification/Xbar.thy ===== *)
theory Xbar
  imports Addr_Range_Map
begin

text \<open>
  Model of the address routing of the crossbars (\<^verbatim>\<open>src/gem5/src/mem/xbar.cc\<close>, \<^verbatim>\<open>xbar.hh\<close>): the map from address
  ranges to memory-side ports, the default port, and the ranges the crossbar announces to its own
  requestors.  The ranges a peer reports are an argument of the operation that asks for them.
\<close>

section \<open>State\<close>

abbreviation (input) InvalidPortID :: int where "InvalidPortID \<equiv> -1"

record xbar =
  portMap :: "int range_map"
  gotAddrRanges :: "bool list"
  gotAllAddrRanges :: bool
  defaultPortID :: int
  useDefaultRange :: bool
  defaultRange :: addr_range
  xbarRanges :: "addr_range list"

text \<open>The default port, if there is one, has the number after the last memory-side port.\<close>

definition XBar_new :: "nat \<Rightarrow> bool \<Rightarrow> bool \<Rightarrow> xbar" where
  "XBar_new mem_side_ports has_default use_default_range =
     \<lparr>portMap = rm_empty, gotAddrRanges = replicate ((if has_default then 1 else 0) + mem_side_ports) False,
      gotAllAddrRanges = False, defaultPortID = (if has_default then int mem_side_ports else InvalidPortID),
      useDefaultRange = use_default_range, defaultRange = AddrRange_default, xbarRanges = []\<rparr>"

section \<open>Operations\<close>

definition findPort :: "addr_range \<Rightarrow> xbar \<Rightarrow> (int \<times> xbar) res" where
  "findPort r x =
     sbind (sassert (gotAllAddrRanges x)) (\<lambda>_.
     sbind (rm_contains 3 r (portMap x)) (\<lambda>(i, m).
       (let x = x\<lparr>portMap := m\<rparr> in
        case i of
          Some k \<Rightarrow> (case map_of (tree m) k of Some p \<Rightarrow> Inr (p, x) | None \<Rightarrow> Inl Undefined_Behaviour)
        | None \<Rightarrow>
            if useDefaultRange x
            then sbind (isSubset r (defaultRange x)) (\<lambda>sub. if sub then Inr (defaultPortID x, x) else Inl Fatal)
            else if defaultPortID x \<noteq> InvalidPortID then Inr (defaultPortID x, x)
            else Inl Fatal)))"

definition got_ranges_of :: "int \<Rightarrow> xbar \<Rightarrow> bool res" where
  "got_ranges_of p x =
     (if 0 \<le> p \<and> nat p < length (gotAddrRanges x) then Inr (gotAddrRanges x ! nat p) else Inl Undefined_Behaviour)"

definition mark_got :: "int \<Rightarrow> xbar \<Rightarrow> xbar res" where
  "mark_got p x =
     sbind (got_ranges_of p x) (\<lambda>_.
       (let got = (gotAddrRanges x)[nat p := True] in
        Inr (x\<lparr>gotAddrRanges := got, gotAllAddrRanges := gotAllAddrRanges x \<or> list_all id got\<rparr>)))"

text \<open>The old entries of the port leave the map before its new ranges enter it.\<close>

definition erase_port :: "int \<Rightarrow> int range_map \<Rightarrow> int range_map" where
  "erase_port p m = fold rm_erase (map fst (filter (\<lambda>e. snd e = p) (tree m))) m"

definition add_ranges :: "int \<Rightarrow> addr_range list \<Rightarrow> int range_map \<Rightarrow> int range_map res" where
  "add_ranges p rs m =
     sfoldl (\<lambda>m r. sbind (rm_insert 3 r p m) (\<lambda>(i, m). if i = None then Inl Fatal else Inr m)) m rs"

definition update_ranges :: "int \<Rightarrow> addr_range list \<Rightarrow> xbar \<Rightarrow> xbar res" where
  "update_ranges p rs x =
     (if p = defaultPortID x then
        if useDefaultRange x then (case rs of [r] \<Rightarrow> Inr (x\<lparr>defaultRange := r\<rparr>) | _ \<Rightarrow> Inl Fatal)
        else Inr x
      else sbind (add_ranges p rs (erase_port p (portMap x))) (\<lambda>m. Inr (x\<lparr>portMap := m\<rparr>)))"

text \<open>
  The ranges to announce.  A range inside the default range is left out.  Stripes of an interleaved range
  are collected and merged when a stripe of another range or the end of the map comes.
\<close>

definition keep_range :: "xbar \<Rightarrow> addr_range \<Rightarrow> addr_range list \<Rightarrow> addr_range list res" where
  "keep_range x r rs =
     (if useDefaultRange x then sbind (isSubset r (defaultRange x)) (\<lambda>sub. Inr (if sub then rs else rs @ [r]))
      else Inr (rs @ [r]))"

definition keep_merged :: "xbar \<Rightarrow> addr_range list \<Rightarrow> addr_range list \<Rightarrow> addr_range list res" where
  "keep_merged x intlv_ranges rs = sbind (AddrRange_merge intlv_ranges) (\<lambda>merged. keep_range x merged rs)"

definition aggregate_step :: "xbar \<Rightarrow> addr_range list \<times> addr_range list \<Rightarrow> addr_range \<Rightarrow> (addr_range list \<times> addr_range list) res" where
  "aggregate_step x acc r =
     (let (rs, intlv_ranges) = acc in
      if interleaved r then
        if intlv_ranges \<noteq> [] \<and> \<not> mergesWith (last intlv_ranges) r
        then sbind (keep_merged x intlv_ranges rs) (\<lambda>rs. Inr (rs, [r]))
        else Inr (rs, intlv_ranges @ [r])
      else sbind (keep_range x r rs) (\<lambda>rs. Inr (rs, intlv_ranges)))"

definition aggregate :: "xbar \<Rightarrow> addr_range list res" where
  "aggregate x =
     sbind (if useDefaultRange x
            then sbind (got_ranges_of (defaultPortID x) x) (\<lambda>got. if got then Inr [defaultRange x] else Inl Fatal)
            else Inr []) (\<lambda>rs.
     sbind (sfoldl (aggregate_step x) (rs, []) (rm_keys (portMap x))) (\<lambda>(rs, intlv_ranges).
     if intlv_ranges \<noteq> [] then keep_merged x intlv_ranges rs else Inr rs))"

definition check_default_overlap :: "xbar \<Rightarrow> addr_range list \<Rightarrow> unit res" where
  "check_default_overlap x rs =
     (if useDefaultRange x then
        sfoldl (\<lambda>_ r. sbind (intersects r (defaultRange x)) (\<lambda>i.
          if i then sbind (isSubset r (defaultRange x)) (\<lambda>sub. if sub then Inr () else Inl Fatal) else Inr ())) () rs
      else Inr ())"

text \<open>The answer tells whether the requestors are told that the ranges have changed.\<close>

definition recvRangeChange :: "int \<Rightarrow> addr_range list \<Rightarrow> xbar \<Rightarrow> (bool \<times> xbar) res" where
  "recvRangeChange p rs x =
     sbind (mark_got p x) (\<lambda>x.
     sbind (update_ranges p rs x) (\<lambda>x.
     if gotAllAddrRanges x then
       sbind (aggregate x) (\<lambda>ranges.
       sbind (check_default_overlap x ranges) (\<lambda>_. Inr (True, x\<lparr>xbarRanges := ranges\<rparr>)))
     else Inr (False, x)))"

definition xbar_getAddrRanges :: "xbar \<Rightarrow> addr_range list res" where
  "xbar_getAddrRanges x = sbind (sassert (gotAllAddrRanges x)) (\<lambda>_. Inr (xbarRanges x))"

section \<open>The map of a port\<close>

lemma erase_all:
  assumes "rm_inv m" "distinct ks" "set ks \<subseteq> set (rm_keys m)"
  shows "rm_inv (fold rm_erase ks m) \<and> (\<forall>a. rm_lookup (fold rm_erase ks m) a =
      (if \<exists>k\<in>set ks. contains k a then None else rm_lookup m a)) \<and>
    set (rm_keys (fold rm_erase ks m)) \<subseteq> set (rm_keys m)"
  using assms
proof (induction ks arbitrary: m)
  case (Cons k ks)
  have k: "k \<in> set (rm_keys m)" using Cons.prems(3) by simp
  have keys: "rm_keys (rm_erase k m) = filter (\<lambda>l. l \<noteq> k) (rm_keys m)"
    by (simp add: rm_erase_def rm_keys_def filter_map comp_def)
  have "set ks \<subseteq> set (rm_keys (rm_erase k m))" using Cons.prems(2,3) by (auto simp: keys)
  note IH = Cons.IH [OF rm_erase_correct(1) [OF Cons.prems(1) k] _ this]
  show ?case using IH Cons.prems(2) rm_erase_correct(2) [OF Cons.prems(1) k] by (auto simp: keys)
qed simp

lemma lookup_value:
  assumes "rm_inv m"
  shows "rm_lookup m a = Some v \<longleftrightarrow> (\<exists>k. (k, v) \<in> set (tree m) \<and> contains k a)"
proof
  assume "rm_lookup m a = Some v"
  then obtain e where e: "find (\<lambda>e. contains (fst e) a) (tree m) = Some e" "snd e = v" by (auto simp: rm_lookup_def)
  then have "e \<in> set (tree m)" "contains (fst e) a" by (auto simp: find_Some_iff)
  then show "\<exists>k. (k, v) \<in> set (tree m) \<and> contains k a" using e(2) by (intro exI [of _ "fst e"]) auto
next
  assume "\<exists>k. (k, v) \<in> set (tree m) \<and> contains k a"
  then obtain k where k: "(k, v) \<in> set (tree m)" "contains k a" by blast
  then have "k \<in> set (rm_keys m)" by (force simp: rm_keys_def)
  then have "rm_lookup m a = map_of (tree m) k" using rm_lookup_eq [OF assms _ k(2)] by blast
  also have "\<dots> = Some v" using rm_distinct [OF assms] k(1) by (auto simp: rm_keys_def)
  finally show "rm_lookup m a = Some v" .
qed

lemma erase_port_correct:
  assumes "rm_inv m"
  shows "rm_inv (erase_port p m)" "set (rm_keys (erase_port p m)) \<subseteq> set (rm_keys m)"
    "rm_lookup (erase_port p m) a = (if rm_lookup m a = Some p then None else rm_lookup m a)"
proof -
  let ?ks = "map fst (filter (\<lambda>e. snd e = p) (tree m))"
  have "distinct ?ks" using rm_distinct [OF assms] by (auto simp: rm_keys_def distinct_map_filter)
  moreover have "set ?ks \<subseteq> set (rm_keys m)" by (auto simp: rm_keys_def)
  ultimately have e: "rm_inv (erase_port p m)" "set (rm_keys (erase_port p m)) \<subseteq> set (rm_keys m)"
    "\<And>a. rm_lookup (erase_port p m) a = (if \<exists>k\<in>set ?ks. contains k a then None else rm_lookup m a)"
    using erase_all [OF assms] unfolding erase_port_def by blast+
  show "rm_inv (erase_port p m)" "set (rm_keys (erase_port p m)) \<subseteq> set (rm_keys m)" by (fact e)+
  have "(\<exists>k\<in>set ?ks. contains k a) \<longleftrightarrow> rm_lookup m a = Some p" using lookup_value [OF assms, of a p] by force
  then show "rm_lookup (erase_port p m) a = (if rm_lookup m a = Some p then None else rm_lookup m a)" using e(3) by simp
qed

lemma rm_insert_keys:
  assumes "rm_insert n r d m = Inr (Some k, m')"
  shows "set (rm_keys m') \<subseteq> insert r (set (rm_keys m))"
proof -
  have mi: "fst ` set (map_insert r d t) \<subseteq> insert r (fst ` set t)" for t :: "(addr_range \<times> 'a) list"
    by (induction r d t rule: map_insert.induct) auto
  obtain m1 where f: "rm_find n r (intersects r) m = Inr (None, m1)" "m' = m1\<lparr>tree := map_insert r d (tree m1)\<rparr>"
    using assms by (auto simp: rm_insert_def rm_intersects_def sbind_Inr_iff split: if_splits)
  then show ?thesis using rm_find_None(1) [OF f(1)] mi [of "tree m"] by (simp add: rm_keys_def)
qed

definition sized :: "addr_range \<Rightarrow> bool" where
  "sized r \<longleftrightarrow> entry_ok r \<and> range_size r \<noteq> 1"

lemma add_ranges_correct:
  assumes "rm_inv m" "\<forall>k\<in>set (rm_keys m). sized k" "\<forall>r\<in>set rs. sized r" "add_ranges p rs m = Inr m'"
  shows "rm_inv m' \<and> (\<forall>k\<in>set (rm_keys m'). sized k) \<and> set (rm_keys m') \<subseteq> set rs \<union> set (rm_keys m) \<and>
    (\<forall>a. rm_lookup m' a = (if \<exists>r\<in>set rs. contains r a then Some p else rm_lookup m a))"
  using assms
proof (induction rs arbitrary: m)
  case (Cons r rs)
  from Cons.prems(4) obtain k m1 where i: "rm_insert 3 r p m = Inr (Some k, m1)" "add_ranges p rs m1 = Inr m'"
    by (auto simp: add_ranges_def res_simps split: if_splits)
  have r: "entry_ok r" "interleaved r \<longrightarrow> (\<forall>k\<in>set (rm_keys m). range_size k \<noteq> 1)"
    using Cons.prems(2,3) by (auto simp: sized_def)
  note c = rm_insert_correct [OF Cons.prems(1) r i(1)] and ks = rm_insert_keys [OF i(1)]
  have "\<forall>k\<in>set (rm_keys m1). sized k" using ks Cons.prems(2,3) by auto
  from Cons.IH [OF c(2) this _ i(2)] Cons.prems(3) c(3) ks show ?case by auto
qed (simp add: add_ranges_def)

section \<open>Range changes\<close>

lemma recvRangeChange_cases:
  assumes "recvRangeChange p rs x = Inr (told, x')"
  obtains x1 x2 where "mark_got p x = Inr x1" "update_ranges p rs x1 = Inr x2" "told = gotAllAddrRanges x2"
    "if told then \<exists>ranges. aggregate x2 = Inr ranges \<and> check_default_overlap x2 ranges = Inr () \<and> x' = x2\<lparr>xbarRanges := ranges\<rparr>
     else x' = x2"
proof -
  from assms obtain x1 x2 where h: "mark_got p x = Inr x1" "update_ranges p rs x1 = Inr x2"
    and r: "(if gotAllAddrRanges x2 then
       sbind (aggregate x2) (\<lambda>ranges. sbind (check_default_overlap x2 ranges) (\<lambda>_. Inr (True, x2\<lparr>xbarRanges := ranges\<rparr>)))
     else Inr (False, x2)) = Inr (told, x')"
    by (auto simp: recvRangeChange_def res_simps)
  show thesis using r by (intro that [OF h]) (auto simp: res_simps split: if_splits)
qed

lemma mark_got_fields:
  "mark_got p x = Inr x1 \<Longrightarrow> portMap x1 = portMap x \<and> defaultPortID x1 = defaultPortID x \<and> useDefaultRange x1 = useDefaultRange x \<and>
     defaultRange x1 = defaultRange x"
  by (auto simp: mark_got_def res_simps Let_def)

lemma update_ranges_fields:
  "update_ranges p rs x = Inr x' \<Longrightarrow> defaultPortID x' = defaultPortID x \<and> useDefaultRange x' = useDefaultRange x \<and>
     (p \<noteq> defaultPortID x \<longrightarrow> defaultRange x' = defaultRange x \<and> add_ranges p rs (erase_port p (portMap x)) = Inr (portMap x')) \<and>
     (p = defaultPortID x \<longrightarrow> portMap x' = portMap x \<and> (useDefaultRange x \<longrightarrow> rs = [defaultRange x']))"
  by (auto simp: update_ranges_def res_simps split: if_splits list.splits)

definition xbar_inv :: "xbar \<Rightarrow> bool" where
  "xbar_inv x \<longleftrightarrow> rm_inv (portMap x) \<and> (\<forall>k\<in>set (rm_keys (portMap x)). sized k)"

lemma recvRangeChange_map:
  assumes "recvRangeChange p rs x = Inr (told, x')" "xbar_inv x" "\<forall>r\<in>set rs. sized r"
  shows "xbar_inv x'"
    "p \<noteq> defaultPortID x \<Longrightarrow> rm_lookup (portMap x') a =
       (if \<exists>r\<in>set rs. contains r a then Some p else if rm_lookup (portMap x) a = Some p then None else rm_lookup (portMap x) a)"
    "p = defaultPortID x \<Longrightarrow> portMap x' = portMap x"
    "set (rm_keys (portMap x')) \<subseteq> set rs \<union> set (rm_keys (portMap x))"
    "defaultPortID x' = defaultPortID x" "useDefaultRange x' = useDefaultRange x"
proof -
  from recvRangeChange_cases [OF assms(1)] obtain x1 x2 where
    h: "mark_got p x = Inr x1" "update_ranges p rs x1 = Inr x2"
    and e: "if told then \<exists>ranges. aggregate x2 = Inr ranges \<and> check_default_overlap x2 ranges = Inr () \<and> x' = x2\<lparr>xbarRanges := ranges\<rparr>
     else x' = x2" by metis
  have f: "portMap x' = portMap x2" "defaultPortID x' = defaultPortID x2" "useDefaultRange x' = useDefaultRange x2"
    using e by (auto split: if_splits)
  note g = mark_got_fields [OF h(1)] and u = update_ranges_fields [OF h(2)]
  show "defaultPortID x' = defaultPortID x" "useDefaultRange x' = useDefaultRange x" using f g u by simp_all
  show pm: "portMap x' = portMap x" if "p = defaultPortID x" using f g u that by simp
  have inv: "rm_inv (portMap x)" "\<forall>k\<in>set (rm_keys (portMap x)). sized k" using assms(2) by (simp_all add: xbar_inv_def)
  note ep = erase_port_correct [OF inv(1), of p]
  have ar: "rm_inv (portMap x') \<and> (\<forall>k\<in>set (rm_keys (portMap x')). sized k) \<and>
      set (rm_keys (portMap x')) \<subseteq> set rs \<union> set (rm_keys (erase_port p (portMap x))) \<and>
      (\<forall>a. rm_lookup (portMap x') a = (if \<exists>r\<in>set rs. contains r a then Some p else rm_lookup (erase_port p (portMap x)) a))"
    if "p \<noteq> defaultPortID x"
    using f g u that ep(2) inv(2) by (intro add_ranges_correct [OF ep(1) _ assms(3)]) auto
  show "xbar_inv x'" using ar pm assms(2) by (cases "p = defaultPortID x") (simp_all add: xbar_inv_def)
  show "set (rm_keys (portMap x')) \<subseteq> set rs \<union> set (rm_keys (portMap x))"
    using ar pm ep(2) by (cases "p = defaultPortID x") auto
  show "rm_lookup (portMap x') a =
       (if \<exists>r\<in>set rs. contains r a then Some p else if rm_lookup (portMap x) a = Some p then None else rm_lookup (portMap x) a)"
    if "p \<noteq> defaultPortID x"
    using ar [OF that] ep(3) by simp
qed

section \<open>Announced ranges\<close>

definition covered :: "addr_range list \<Rightarrow> addr \<Rightarrow> bool" where
  "covered rs a \<longleftrightarrow> (\<exists>r\<in>set rs. contains r a)"

lemma covered_simps [simp]:
  "\<not> covered [] a" "covered (r # rs) a \<longleftrightarrow> contains r a \<or> covered rs a" "covered (rs @ rs') a \<longleftrightarrow> covered rs a \<or> covered rs' a"
  by (auto simp: covered_def)

lemma subset_contains: "plain r \<Longrightarrow> plain k \<Longrightarrow> isSubset r k = Inr True \<Longrightarrow> contains r a \<Longrightarrow> contains k a"
  by (auto simp: isSubset_def contains_plain)

lemma keep_range_covers:
  assumes "keep_range x r rs = Inr rs'" "plain r" "useDefaultRange x \<longrightarrow> plain (defaultRange x) \<and> defaultRange x \<in> set rs"
  shows "covered rs' a \<longleftrightarrow> covered rs a \<or> contains r a" "set rs \<subseteq> set rs'"
  using assms subset_contains [of r "defaultRange x" a]
  by (auto simp: keep_range_def res_simps covered_def split: if_splits)

lemma aggregate_step_plain: "plain k \<Longrightarrow> aggregate_step x (rs, il) k = sbind (keep_range x k rs) (\<lambda>rs. Inr (rs, il))"
  by (simp add: aggregate_step_def)

lemma aggregate_plain:
  assumes "sfoldl (aggregate_step x) (rs, []) ks = Inr (rs', il)" "\<forall>k\<in>set ks. plain k"
    "useDefaultRange x \<longrightarrow> plain (defaultRange x) \<and> defaultRange x \<in> set rs"
  shows "il = [] \<and> (covered rs' a \<longleftrightarrow> covered rs a \<or> covered ks a)"
  using assms
proof (induction ks arbitrary: rs)
  case (Cons k ks)
  from Cons.prems(1,2) obtain rs1 where k: "keep_range x k rs = Inr rs1" "sfoldl (aggregate_step x) (rs1, []) ks = Inr (rs', il)"
    by (auto simp: aggregate_step_plain res_simps)
  have "plain k" using Cons.prems(2) by simp
  note c = keep_range_covers [OF k(1) this Cons.prems(3)]
  show ?case using Cons.IH [OF k(2)] Cons.prems(2,3) c by auto
qed simp

lemma announced_covers:
  assumes "recvRangeChange p rs x = Inr (True, x')" "\<forall>k\<in>set (rm_keys (portMap x')). plain k"
    "useDefaultRange x' \<longrightarrow> plain (defaultRange x')"
  shows "covered (xbarRanges x') a \<longleftrightarrow> useDefaultRange x' \<and> contains (defaultRange x') a \<or> covered (rm_keys (portMap x')) a"
    "gotAllAddrRanges x'"
proof -
  from recvRangeChange_cases [OF assms(1)] obtain x2 ranges where
    h: "aggregate x2 = Inr ranges" "x' = x2\<lparr>xbarRanges := ranges\<rparr>" "gotAllAddrRanges x2" by metis
  show "gotAllAddrRanges x'" using h by simp
  define rs0 where "rs0 = (if useDefaultRange x2 then [defaultRange x2] else [])"
  from h(1) obtain rs' il where f: "sfoldl (aggregate_step x2) (rs0, []) (rm_keys (portMap x2)) = Inr (rs', il)"
    "(if il \<noteq> [] then keep_merged x2 il rs' else Inr rs') = Inr ranges"
    by (auto simp: aggregate_def rs0_def res_simps split: if_splits)
  have "il = [] \<and> (covered rs' a \<longleftrightarrow> covered rs0 a \<or> covered (rm_keys (portMap x2)) a)"
    using assms(2,3) h(2) by (intro aggregate_plain [OF f(1)]) (auto simp: rs0_def)
  then show "covered (xbarRanges x') a \<longleftrightarrow> useDefaultRange x' \<and> contains (defaultRange x') a \<or> covered (rm_keys (portMap x')) a"
    using f(2) h(2) by (auto simp: rs0_def)
qed

section \<open>Routing\<close>

lemma covered_lookup: "covered (rm_keys m) a \<longleftrightarrow> rm_lookup m a \<noteq> None"
  by (force simp: covered_def rm_keys_def rm_lookup_def find_None_iff)

lemma findPort_address:
  assumes "xbar_inv x" "gotAllAddrRanges x" "a \<noteq> - 1" "useDefaultRange x \<longrightarrow> entry_ok (defaultRange x)"
  shows "\<exists>x'. findPort (RangeSize a 1) x =
    (case rm_lookup (portMap x) a of
       Some p \<Rightarrow> Inr (p, x')
     | None \<Rightarrow> if useDefaultRange x \<and> contains (defaultRange x) a \<or> \<not> useDefaultRange x \<and> defaultPortID x \<noteq> InvalidPortID
               then Inr (defaultPortID x, x') else Inl Fatal) \<and>
    tree (portMap x') = tree (portMap x) \<and> xbar_inv x'"
proof -
  have inv: "rm_inv (portMap x)" using assms(1) by (simp add: xbar_inv_def)
  from rm_contains_addr_correct [OF inv assms(3), of 3] obtain i m where
    m: "rm_contains 3 (RangeSize a 1) (portMap x) = Inr (i, m)" "tree m = tree (portMap x)" "rm_inv m"
      "rm_lookup (portMap x) a = Option.bind i (map_of (tree (portMap x)))"
    by (auto simp: rm_contains_addr_def)
  from rm_contains_correct [OF inv, of "RangeSize a 1" 3] m(1) have i: "i = Some k \<Longrightarrow> k \<in> set (rm_keys (portMap x))" for k
    using RangeSize_single [OF assms(3)] by auto
  have x': "xbar_inv (x\<lparr>portMap := m\<rparr>)" using assms(1) m(2,3) by (simp add: xbar_inv_def rm_keys_def)
  show ?thesis
  proof (cases i)
    case None
    then show ?thesis using m x' assms(2) isSubset_single [OF assms(3), of "defaultRange x"] assms(4)
      by (intro exI [of _ "x\<lparr>portMap := m\<rparr>"]) (auto simp: findPort_def Let_def)
  next
    case (Some k)
    then obtain v where "map_of (tree (portMap x)) k = Some v" using i
      by (cases "map_of (tree (portMap x)) k") (auto simp: rm_keys_def map_of_eq_None_iff)
    then show ?thesis using m x' Some assms(2)
      by (intro exI [of _ "x\<lparr>portMap := m\<rparr>"]) (auto simp: findPort_def Let_def)
  qed
qed

section \<open>Properties\<close>

text \<open>What a crossbar is for: every address goes to the port whose ranges contain it, or to the default port.\<close>

definition route :: "xbar \<Rightarrow> addr \<Rightarrow> int option" where
  "route x a =
     (case rm_lookup (portMap x) a of
        Some p \<Rightarrow> Some p
      | None \<Rightarrow> if useDefaultRange x \<and> contains (defaultRange x) a \<or> \<not> useDefaultRange x \<and> defaultPortID x \<noteq> InvalidPortID
                then Some (defaultPortID x) else None)"

lemma findPort_route:
  assumes "xbar_inv x" "gotAllAddrRanges x" "a \<noteq> - 1" "useDefaultRange x \<longrightarrow> entry_ok (defaultRange x)"
  shows "\<exists>x'. findPort (RangeSize a 1) x = (case route x a of Some p \<Rightarrow> Inr (p, x') | None \<Rightarrow> Inl Fatal)"
  using findPort_address [OF assms] by (auto simp: route_def split: option.splits)

definition two_ports :: xbar where
  "two_ports = (XBar_new 2 False False)
     \<lparr>portMap := \<lparr>tree = [(AddrRange 0 0x1000, 0), (AddrRange 0x1000 0x2000, 1)], cache = []\<rparr>,
      gotAddrRanges := [True, True], gotAllAddrRanges := True, xbarRanges := [AddrRange 0 0x1000, AddrRange 0x1000 0x2000]\<rparr>"

lemma two_ports_inv: "xbar_inv two_ports"
  by (simp add: xbar_inv_def two_ports_def rm_inv_def rm_keys_def sized_def entry_ok_def entry_before_def interleaved_def range_size_def)

lemma two_ports_change:
  "recvRangeChange 1 [AddrRange 0x3000 0x4000] two_ports =
     Inr (True, two_ports\<lparr>portMap := \<lparr>tree = [(AddrRange 0 0x1000, 0), (AddrRange 0x3000 0x4000, 1)], cache = []\<rparr>,
       xbarRanges := [AddrRange 0 0x1000, AddrRange 0x3000 0x4000]\<rparr>)"
  by code_simp

text \<open>
  C6: When a port reports its ranges, from then on every address inside them is routed to it, an address it had
  before and has no longer loses that route, and every other address keeps its route; looking an address up
  returns the port of the route, or stops when there is none.
\<close>

theorem range_change_reroutes:
  assumes "recvRangeChange p rs x = Inr (told, x')" "xbar_inv x" "\<forall>r\<in>set rs. sized r" "p \<noteq> defaultPortID x"
    "gotAllAddrRanges x'" "a \<noteq> - 1" "useDefaultRange x' \<longrightarrow> entry_ok (defaultRange x')"
  shows "xbar_inv x' \<and>
    rm_lookup (portMap x') a =
      (if covered rs a then Some p else if rm_lookup (portMap x) a = Some p then None else rm_lookup (portMap x) a) \<and>
    (\<exists>x''. findPort (RangeSize a 1) x' = (case route x' a of Some q \<Rightarrow> Inr (q, x'') | None \<Rightarrow> Inl Fatal))"
proof -
  note c = recvRangeChange_map [OF assms(1-3)]
  show ?thesis using c(1) c(2) [OF assms(4), of a] findPort_route [OF c(1) assms(5-7)] by (simp add: covered_def)
qed

theorem range_change_reroutes_witness:
  "\<exists>x' x''. recvRangeChange 1 [AddrRange 0x3000 0x4000] two_ports = Inr (True, x') \<and>
     findPort (RangeSize 0x3004 1) x' = Inr (1, x'') \<and> findPort (RangeSize 0x1004 1) x' = Inl Fatal"
proof -
  let ?r = "AddrRange 0x3000 0x4000"
  let ?x = "two_ports\<lparr>portMap := \<lparr>tree = [(AddrRange 0 0x1000, 0), (?r, 1)], cache = []\<rparr>,
       xbarRanges := [AddrRange 0 0x1000, ?r]\<rparr>"
  have h: "\<forall>r\<in>set [?r]. sized r" "1 \<noteq> defaultPortID two_ports" "gotAllAddrRanges ?x" "useDefaultRange ?x \<longrightarrow> entry_ok (defaultRange ?x)"
    by (simp_all add: sized_def entry_ok_def interleaved_def range_size_def two_ports_def XBar_new_def)
  have 1: "\<exists>x''. findPort (RangeSize 0x3004 1) ?x = Inr (1, x'')"
    using range_change_reroutes [OF two_ports_change two_ports_inv h(1-3) _ h(4), where a = "0x3004"]
    by (auto simp: route_def contains_plain split: if_splits)
  have 2: "findPort (RangeSize 0x1004 1) ?x = Inl Fatal"
    using range_change_reroutes [OF two_ports_change two_ports_inv h(1-3) _ h(4), where a = "0x1004"]
    by (auto simp: route_def rm_lookup_def two_ports_def XBar_new_def contains_plain)
  show ?thesis using two_ports_change 1 2 by blast
qed

text \<open>
  C14: The ranges a crossbar announces are exactly the addresses it can route: for a crossbar whose ranges are not
  interleaved, once all its ports have reported, an address is in an announced range exactly when looking it up
  finds a port.  A crossbar with a default port that takes every other address is left out.
\<close>

theorem announces_what_it_routes:
  assumes "recvRangeChange p rs x = Inr (True, x')" "xbar_inv x" "\<forall>r\<in>set rs. sized r"
    "\<forall>k\<in>set (rm_keys (portMap x')). plain k" "useDefaultRange x' \<longrightarrow> plain (defaultRange x') \<and> entry_ok (defaultRange x')"
    "useDefaultRange x' \<or> defaultPortID x' = InvalidPortID" "a \<noteq> - 1"
  shows "is_ok (findPort (RangeSize a 1) x') \<longleftrightarrow> (\<exists>r\<in>set (xbarRanges x'). contains r a)"
proof -
  have inv: "xbar_inv x'" by (rule recvRangeChange_map(1) [OF assms(1-3)])
  have d: "useDefaultRange x' \<longrightarrow> plain (defaultRange x')" "useDefaultRange x' \<longrightarrow> entry_ok (defaultRange x')" using assms(5) by simp_all
  note a = announced_covers [OF assms(1,4) d(1)]
  from findPort_route [OF inv a(2) assms(7) d(2)] obtain x'' where
    f: "findPort (RangeSize a 1) x' = (case route x' a of Some q \<Rightarrow> Inr (q, x'') | None \<Rightarrow> Inl Fatal)" by blast
  have "is_ok (findPort (RangeSize a 1) x') \<longleftrightarrow> route x' a \<noteq> None" unfolding f by (simp split: option.split)
  also have "\<dots> \<longleftrightarrow> covered (xbarRanges x') a"
    using a(1) [of a] covered_lookup [of "portMap x'" a] inv assms(6) by (auto simp: route_def xbar_inv_def split: option.splits)
  finally show ?thesis by (simp add: covered_def)
qed

theorem announces_what_it_routes_witness:
  "\<exists>x'. recvRangeChange 1 [AddrRange 0x3000 0x4000] two_ports = Inr (True, x') \<and> is_ok (findPort (RangeSize 0x3004 1) x')"
proof -
  let ?r = "AddrRange 0x3000 0x4000"
  let ?x = "two_ports\<lparr>portMap := \<lparr>tree = [(AddrRange 0 0x1000, 0), (?r, 1)], cache = []\<rparr>,
       xbarRanges := [AddrRange 0 0x1000, ?r]\<rparr>"
  have "is_ok (findPort (RangeSize 0x3004 1) ?x) \<longleftrightarrow> (\<exists>r\<in>set (xbarRanges ?x). contains r 0x3004)"
    by (rule announces_what_it_routes [OF two_ports_change two_ports_inv])
      (simp_all add: sized_def entry_ok_def interleaved_def range_size_def rm_keys_def two_ports_def XBar_new_def)
  then have "is_ok (findPort (RangeSize 0x3004 1) ?x)" by (simp add: contains_plain)
  then show ?thesis using two_ports_change by blast
qed

end
