(* ===== verification/Xbar_Layer.thy ===== *)
theory Xbar_Layer
  imports Deferred_Queue
begin

text \<open>
  Model of a layer of a crossbar (\<^verbatim>\<open>BaseXBar::Layer\<close> in \<^verbatim>\<open>src/gem5/src/mem/xbar.cc\<close>): the arbitration of the source
  ports that send to one destination port.  A port that was refused waits for the layer; a port whose
  packet the destination refused waits for the peer.  Telling a port to retry calls the port, which may
  send at once, so the operation is split at that call.
\<close>

section \<open>State\<close>

datatype layer_state = IDLE | BUSY | RETRY

record layer =
  ly_state :: layer_state
  waitingForLayer :: "nat list"
  waitingForPeer :: "nat option"
  ly_releaseEvent :: "tick option"
  ly_drainState :: drain_state
  ly_tick :: tick


section \<open>Operations\<close>

definition occupyLayer :: "tick \<Rightarrow> layer \<Rightarrow> layer res" where
  "occupyLayer t l =
     sbind (sassert (ly_state l = BUSY)) (\<lambda>_.
     sbind (sassert (t \<noteq> 0)) (\<lambda>_.
     sbind (schedule_at (ly_releaseEvent l) (ly_tick l) t) (\<lambda>ev. Inr (l\<lparr>ly_releaseEvent := ev\<rparr>))))"




text \<open>The port to retry leaves the front of the list, and is then called.\<close>

definition retryWaiting_call :: "layer \<Rightarrow> (nat \<times> layer) res" where
  "retryWaiting_call l =
     sbind (sassert (waitingForLayer l \<noteq> [])) (\<lambda>_.
     sbind (sassert (ly_state l = IDLE)) (\<lambda>_.
     Inr (hd (waitingForLayer l), l\<lparr>ly_state := RETRY, waitingForLayer := tl (waitingForLayer l)\<rparr>)))"





definition layer_drain :: "layer \<Rightarrow> drain_state" where
  "layer_drain l = (if ly_state l \<noteq> IDLE then Draining else Drained)"

section \<open>Runs\<close>




section \<open>What a run keeps\<close>


lemma occupyLayer_Inr [res_simps]:
  "occupyLayer t l = Inr l' \<longleftrightarrow> ly_state l = BUSY \<and> t \<noteq> 0 \<and> ly_releaseEvent l = None \<and> ly_tick l \<le> t \<and>
     l' = l\<lparr>ly_releaseEvent := Some t\<rparr>"
  by (auto simp: occupyLayer_def res_simps)

lemma retryWaiting_call_Inr [res_simps]:
  "retryWaiting_call l = Inr (p, l') \<longleftrightarrow> (\<exists>ps. waitingForLayer l = p # ps \<and> ly_state l = IDLE \<and>
     l' = l\<lparr>ly_state := RETRY, waitingForLayer := ps\<rparr>)"
  by (cases "waitingForLayer l") (auto simp: retryWaiting_call_def res_simps)










section \<open>Properties\<close>



end
