(* ===== verification/Noncoherent_Xbar.thy ===== *)
theory Noncoherent_Xbar
  imports Xbar Xbar_Layer Packet_Queue
begin

text \<open>
  Model of the non-coherent crossbar (\<^verbatim>\<open>src/gem5/src/mem/noncoherent_xbar.cc\<close>), which composes the routing of
  \<^verbatim>\<open>Xbar\<close>, the layers of \<^verbatim>\<open>Xbar_Layer\<close> and the response queues of \<^verbatim>\<open>Packet_Queue\<close>.  Requests are known by a number
  that stands for their pointer.  The tick of the next clock edge, the length of a microsecond, and
  whether the destination accepts a request are arguments.  Statistics are left out.
\<close>

section \<open>State\<close>

record nc_xbar =
  nx_bar :: xbar
  reqLayers :: "layer list"
  respLayers :: "layer list"
  respQueues :: "packet_queue list"
  routeTo :: "nat \<Rightarrow> int option"
  frontendLatency :: tick
  forwardLatency :: tick
  responseLatency :: tick
  xbar_width :: u32
  clockPeriod :: tick
  nx_tick :: tick


definition put_req_layer :: "int \<Rightarrow> layer \<Rightarrow> nc_xbar \<Rightarrow> nc_xbar" where
  "put_req_layer i l s = s\<lparr>reqLayers := (reqLayers s)[nat i := l]\<rparr>"

definition put_resp_layer :: "int \<Rightarrow> layer \<Rightarrow> nc_xbar \<Rightarrow> nc_xbar" where
  "put_resp_layer i l s = s\<lparr>respLayers := (respLayers s)[nat i := l]\<rparr>"

section \<open>Operations\<close>








section \<open>Runs\<close>











section \<open>Routes of outstanding requests\<close>

lemma put_layer_sel [simp]:
  "routeTo (put_req_layer i l s) = routeTo s" "routeTo (put_resp_layer i l s) = routeTo s"
  "respQueues (put_req_layer i l s) = respQueues s" "respQueues (put_resp_layer i l s) = respQueues s"
  by (simp_all add: put_req_layer_def put_resp_layer_def)










section \<open>Properties\<close>










end
