(* ===== verification/Mem_Bridge.thy ===== *)
theory Mem_Bridge
  imports Deferred_Queue
begin

text \<open>
  Model of the bridge between two buses (\<^verbatim>\<open>src/gem5/src/mem/bridge.cc\<close>, \<^verbatim>\<open>bridge.hh\<close>): a queue of requests towards the
  memory and a queue of responses towards the requestor, with a slot reserved for the response of every
  request it accepts.  The ticks of clock edges are arguments, and sending splits at the call of the peer.
\<close>

section \<open>State\<close>

record mem_bridge =
  mb_reqs :: deferred
  mb_reqLimit :: u32
  mb_reqEvent :: "tick option"
  mb_resps :: deferred
  mb_outstanding :: u32
  mb_respLimit :: u32
  mb_retryReq :: bool
  mb_respEvent :: "tick option"
  mb_tick :: tick

definition Bridge_new :: "u32 \<Rightarrow> u32 \<Rightarrow> tick \<Rightarrow> mem_bridge" where
  "Bridge_new resp_size req_size now =
     \<lparr>mb_reqs = [], mb_reqLimit = req_size, mb_reqEvent = None, mb_resps = [], mb_outstanding = 0, mb_respLimit = resp_size,
      mb_retryReq = False, mb_respEvent = None, mb_tick = now\<rparr>"

section \<open>Operations\<close>

definition mb_respQueueFull :: "mem_bridge \<Rightarrow> bool" where
  "mb_respQueueFull s \<longleftrightarrow> mb_outstanding s = mb_respLimit s"

definition mb_reqQueueFull :: "mem_bridge \<Rightarrow> bool" where
  "mb_reqQueueFull s \<longleftrightarrow> length (mb_reqs s) = unat (mb_reqLimit s)"

definition mb_schedTimingReq :: "packet \<Rightarrow> tick \<Rightarrow> mem_bridge \<Rightarrow> mem_bridge res" where
  "mb_schedTimingReq pkt t s =
     sbind (if mb_reqs s = [] then schedule_at (mb_reqEvent s) (mb_tick s) t else Inr (mb_reqEvent s)) (\<lambda>ev.
     sbind (sassert (\<not> mb_reqQueueFull s)) (\<lambda>_.
     Inr (s\<lparr>mb_reqEvent := ev, mb_reqs := mb_reqs s @ [(t, pkt)]\<rparr>)))"

definition mb_schedTimingResp :: "packet \<Rightarrow> tick \<Rightarrow> mem_bridge \<Rightarrow> mem_bridge res" where
  "mb_schedTimingResp pkt t s =
     sbind (if mb_resps s = [] then schedule_at (mb_respEvent s) (mb_tick s) t else Inr (mb_respEvent s)) (\<lambda>ev.
     Inr (s\<lparr>mb_respEvent := ev, mb_resps := mb_resps s @ [(t, pkt)]\<rparr>))"

text \<open>\<^verbatim>\<open>edge\<close> is the tick of the clock edge after the delay of the bridge.\<close>

definition mb_recvTimingResp :: "tick \<Rightarrow> packet \<Rightarrow> mem_bridge \<Rightarrow> mem_bridge res" where
  "mb_recvTimingResp edge pkt s = mb_schedTimingResp (no_delay pkt) (edge + receive_delay pkt) s"

definition mb_recvTimingReq :: "tick \<Rightarrow> packet \<Rightarrow> mem_bridge \<Rightarrow> (bool \<times> mem_bridge) res" where
  "mb_recvTimingReq edge pkt s =
     (if cacheResponding pkt then Inl Panic
      else if mb_retryReq s then Inr (False, s)
      else if mb_reqQueueFull s then Inr (False, s\<lparr>mb_retryReq := True\<rparr>)
      else
        (let expects_response = needsResponse (p_cmd pkt) in
         if expects_response \<and> mb_respQueueFull s then Inr (False, s\<lparr>mb_retryReq := True\<rparr>)
         else
           (let s = (if expects_response then s\<lparr>mb_outstanding := mb_outstanding s + 1\<rparr> else s) in
            sbind (mb_schedTimingReq (no_delay pkt) (edge + receive_delay pkt) s) (\<lambda>s. Inr (True, s)))))"

text \<open>The answer of the next operations tells whether the requestor is asked to retry.\<close>

definition mb_retryStalledReq :: "mem_bridge \<Rightarrow> bool \<times> mem_bridge" where
  "mb_retryStalledReq s = (if mb_retryReq s then (True, s\<lparr>mb_retryReq := False\<rparr>) else (False, s))"

definition mb_sendReq_call :: "mem_bridge \<Rightarrow> packet res" where
  "mb_sendReq_call s =
     sbind (sassert (mb_reqs s \<noteq> [])) (\<lambda>_.
     sbind (sassert (fst (hd (mb_reqs s)) \<le> mb_tick s)) (\<lambda>_. Inr (snd (hd (mb_reqs s)))))"

definition mb_sendReq_return :: "tick \<Rightarrow> bool \<Rightarrow> mem_bridge \<Rightarrow> (bool \<times> mem_bridge) res" where
  "mb_sendReq_return clock_edge accepted s =
     (if accepted then
        (let s = s\<lparr>mb_reqs := tl (mb_reqs s)\<rparr> in
         sbind (if mb_reqs s \<noteq> [] then schedule_at (mb_reqEvent s) (mb_tick s) (max (fst (hd (mb_reqs s))) clock_edge)
                else Inr (mb_reqEvent s)) (\<lambda>ev.
         Inr (mb_retryStalledReq (s\<lparr>mb_reqEvent := ev\<rparr>))))
      else Inr (False, s))"

definition mb_sendResp_call :: "mem_bridge \<Rightarrow> packet res" where
  "mb_sendResp_call s =
     sbind (sassert (mb_resps s \<noteq> [])) (\<lambda>_.
     sbind (sassert (fst (hd (mb_resps s)) \<le> mb_tick s)) (\<lambda>_. Inr (snd (hd (mb_resps s)))))"

definition mb_sendResp_return :: "tick \<Rightarrow> bool \<Rightarrow> mem_bridge \<Rightarrow> (bool \<times> mem_bridge) res" where
  "mb_sendResp_return clock_edge accepted s =
     (if accepted then
        (let s = s\<lparr>mb_resps := tl (mb_resps s)\<rparr> in
         sbind (sassert (mb_outstanding s \<noteq> 0)) (\<lambda>_.
           (let s = s\<lparr>mb_outstanding := mb_outstanding s - 1\<rparr> in
            sbind (if mb_resps s \<noteq> [] then schedule_at (mb_respEvent s) (mb_tick s) (max (fst (hd (mb_resps s))) clock_edge)
                   else Inr (mb_respEvent s)) (\<lambda>ev.
              (let s = s\<lparr>mb_respEvent := ev\<rparr> in
               Inr (if \<not> mb_reqQueueFull s then mb_retryStalledReq s else (False, s)))))))
      else Inr (False, s))"

text \<open>An atomic access adds the delay of the bridge, in cycles, to the latency of the peer.\<close>

definition mb_recvAtomic :: "u64 \<Rightarrow> tick \<Rightarrow> (packet \<Rightarrow> (tick \<times> packet) res) \<Rightarrow> packet \<Rightarrow> (tick \<times> packet) res" where
  "mb_recvAtomic delay period sendAtomic pkt =
     (if cacheResponding pkt then Inl Panic else sbind (sendAtomic pkt) (\<lambda>(t, pkt). Inr (delay * period + t, pkt)))"

definition mb_trySatisfyFunctional :: "packet \<Rightarrow> mem_bridge \<Rightarrow> (bool \<times> packet \<times> mem_bridge) res" where
  "mb_trySatisfyFunctional pkt s =
     sbind (satisfy_from pkt (mb_reqs s)) (\<lambda>(found, pkt, q).
       (let s = s\<lparr>mb_reqs := q\<rparr> in
        if found then sbind (makeResponse pkt) (\<lambda>pkt. Inr (True, pkt, s)) else Inr (False, pkt, s)))"

text \<open>A functional packet that no waiting packet satisfies is passed on.\<close>

definition mb_recvFunctional :: "packet \<Rightarrow> mem_bridge \<Rightarrow> (bool \<times> packet \<times> mem_bridge) res" where
  "mb_recvFunctional pkt s =
     sbind (satisfy_from pkt (mb_resps s)) (\<lambda>(found, pkt, q).
       (let s = s\<lparr>mb_resps := q\<rparr> in
        if found then sbind (makeResponse pkt) (\<lambda>pkt. Inr (False, pkt, s))
        else sbind (mb_trySatisfyFunctional pkt s) (\<lambda>(found, pkt, s). Inr (\<not> found, pkt, s))))"

section \<open>Runs\<close>

text \<open>
  The bridge in a simulation: for each side whether the peer is being called and whether it has refused
  the first packet; the number of requests that were sent and whose response is still to come; and the packets
  that were accepted and sent.  A response arrives only for a request that was sent.
\<close>

datatype side = Resting | Calling | Refused

record mb_run =
  mb :: mem_bridge
  req_side :: side
  resp_side :: side
  in_flight :: nat
  reqs_in :: "packet list"
  reqs_out :: "packet list"
  resps_in :: "packet list"
  resps_out :: "packet list"

definition answer :: "bool \<Rightarrow> side" where
  "answer accepted = (if accepted then Resting else Refused)"

inductive mb_step :: "mb_run \<Rightarrow> mb_run \<Rightarrow> bool" where
  request: "mb_recvTimingReq edge p (mb c) = Inr (ok, s) \<Longrightarrow>
    mb_step c (c\<lparr>mb := s, reqs_in := reqs_in c @ (if ok then [no_delay p] else [])\<rparr>)"
| response: "0 < in_flight c \<Longrightarrow> mb_recvTimingResp edge p (mb c) = Inr s \<Longrightarrow>
    mb_step c (c\<lparr>mb := s, in_flight := in_flight c - 1, resps_in := resps_in c @ [no_delay p]\<rparr>)"
| req_event: "req_side c = Resting \<Longrightarrow> mb_reqEvent (mb c) = Some (mb_tick (mb c)) \<Longrightarrow> mb_sendReq_call (mb c) = Inr p \<Longrightarrow>
    mb_step c (c\<lparr>mb := (mb c)\<lparr>mb_reqEvent := None\<rparr>, req_side := Calling\<rparr>)"
| req_retry: "req_side c = Refused \<Longrightarrow> mb_sendReq_call (mb c) = Inr p \<Longrightarrow> mb_step c (c\<lparr>req_side := Calling\<rparr>)"
| req_answer: "req_side c = Calling \<Longrightarrow> mb_sendReq_return edge ok (mb c) = Inr (told, s) \<Longrightarrow> p = snd (hd (mb_reqs (mb c))) \<Longrightarrow>
    mb_step c (c\<lparr>mb := s, req_side := answer ok, reqs_out := reqs_out c @ (if ok then [p] else []),
      in_flight := in_flight c + (if ok \<and> needsResponse (p_cmd p) then 1 else 0)\<rparr>)"
| resp_event: "resp_side c = Resting \<Longrightarrow> mb_respEvent (mb c) = Some (mb_tick (mb c)) \<Longrightarrow> mb_sendResp_call (mb c) = Inr p \<Longrightarrow>
    mb_step c (c\<lparr>mb := (mb c)\<lparr>mb_respEvent := None\<rparr>, resp_side := Calling\<rparr>)"
| resp_retry: "resp_side c = Refused \<Longrightarrow> mb_sendResp_call (mb c) = Inr p \<Longrightarrow> mb_step c (c\<lparr>resp_side := Calling\<rparr>)"
| resp_answer: "resp_side c = Calling \<Longrightarrow> mb_sendResp_return edge ok (mb c) = Inr (told, s) \<Longrightarrow>
    mb_step c (c\<lparr>mb := s, resp_side := answer ok, resps_out := resps_out c @ (if ok then [snd (hd (mb_resps (mb c)))] else [])\<rparr>)"
| time: "req_side c \<noteq> Calling \<Longrightarrow> resp_side c \<noteq> Calling \<Longrightarrow> mb_tick (mb c) \<le> t \<Longrightarrow>
    (\<And>w. mb_reqEvent (mb c) = Some w \<Longrightarrow> t \<le> w) \<Longrightarrow> (\<And>w. mb_respEvent (mb c) = Some w \<Longrightarrow> t \<le> w) \<Longrightarrow>
    mb_step c (c\<lparr>mb := (mb c)\<lparr>mb_tick := t\<rparr>\<rparr>)"

definition mb_start :: "mem_bridge \<Rightarrow> mb_run" where
  "mb_start s = \<lparr>mb = s, req_side = Resting, resp_side = Resting, in_flight = 0, reqs_in = [], reqs_out = [],
     resps_in = [], resps_out = []\<rparr>"

section \<open>What a run keeps\<close>

text \<open>The event of a side is scheduled exactly while packets wait and the peer is neither called nor has refused.\<close>

definition side_ok :: "side \<Rightarrow> tick option \<Rightarrow> tick \<Rightarrow> deferred \<Rightarrow> bool" where
  "side_ok sd ev now q \<longleftrightarrow>
     (sd = Resting \<longrightarrow> (ev = None \<longleftrightarrow> q = [])) \<and>
     (\<forall>w. ev = Some w \<longrightarrow> sd = Resting \<and> now \<le> w \<and> fst (hd q) \<le> w) \<and>
     (sd \<noteq> Resting \<longrightarrow> q \<noteq> [] \<and> fst (hd q) \<le> now)"

definition expecting :: "deferred \<Rightarrow> nat" where
  "expecting q = length (filter (\<lambda>e. needsResponse (p_cmd (snd e))) q)"

definition slots_ok :: "mem_bridge \<Rightarrow> nat \<Rightarrow> bool" where
  "slots_ok s n \<longleftrightarrow> length (mb_reqs s) \<le> unat (mb_reqLimit s) \<and> mb_outstanding s \<le> mb_respLimit s \<and>
     unat (mb_outstanding s) = expecting (mb_reqs s) + n + length (mb_resps s) \<and>
     (mb_retryReq s \<longrightarrow> 0 < unat (mb_reqLimit s) \<longrightarrow> 0 < unat (mb_respLimit s) \<longrightarrow> mb_reqs s \<noteq> [] \<or> 0 < n \<or> mb_resps s \<noteq> [])"

lemma expecting_simps [simp]:
  "expecting [] = 0" "expecting (e # q) = (if needsResponse (p_cmd (snd e)) then 1 else 0) + expecting q"
  "expecting (q @ r) = expecting q + expecting r"
  by (simp_all add: expecting_def)

lemma side_append: "side_ok sd ev now q \<Longrightarrow> q \<noteq> [] \<Longrightarrow> side_ok sd ev now (q @ [e])"
  by (simp add: side_ok_def)

lemma side_first: "side_ok sd ev now [] \<Longrightarrow> now \<le> t \<Longrightarrow> side_ok sd (Some t) now [(t, p)]"
  by (auto simp: side_ok_def)

lemma side_call: "side_ok Resting (Some now) now q \<Longrightarrow> side_ok Calling None now q"
  by (auto simp: side_ok_def)

lemma side_retry: "side_ok Refused ev now q \<Longrightarrow> side_ok Calling ev now q"
  by (auto simp: side_ok_def)

lemma side_refused: "side_ok Calling ev now q \<Longrightarrow> side_ok Refused ev now q"
  by (auto simp: side_ok_def)

lemma side_sent:
  assumes "side_ok Calling ev now q"
  shows "tl q = [] \<Longrightarrow> side_ok Resting ev now []"
    "now \<le> w \<Longrightarrow> fst (hd (tl q)) \<le> w \<Longrightarrow> tl q \<noteq> [] \<Longrightarrow> side_ok Resting (Some w) now (tl q)"
proof -
  have "ev = None" using assms by (cases ev) (auto simp: side_ok_def)
  then show "tl q = [] \<Longrightarrow> side_ok Resting ev now []"
    "now \<le> w \<Longrightarrow> fst (hd (tl q)) \<le> w \<Longrightarrow> tl q \<noteq> [] \<Longrightarrow> side_ok Resting (Some w) now (tl q)"
    by (simp_all add: side_ok_def)
qed

lemma side_time: "side_ok sd ev now q \<Longrightarrow> now \<le> t \<Longrightarrow> (\<And>w. ev = Some w \<Longrightarrow> t \<le> w) \<Longrightarrow> side_ok sd ev t q"
  by (auto simp: side_ok_def)

definition mb_inv :: "mb_run \<Rightarrow> bool" where
  "mb_inv c \<longleftrightarrow>
     side_ok (req_side c) (mb_reqEvent (mb c)) (mb_tick (mb c)) (mb_reqs (mb c)) \<and>
     side_ok (resp_side c) (mb_respEvent (mb c)) (mb_tick (mb c)) (mb_resps (mb c)) \<and>
     slots_ok (mb c) (in_flight c) \<and>
     reqs_in c = reqs_out c @ map snd (mb_reqs (mb c)) \<and> resps_in c = resps_out c @ map snd (mb_resps (mb c))"

lemma schedTimingReq_Inr:
  "mb_schedTimingReq p t s = Inr s' \<longleftrightarrow> (mb_reqs s = [] \<longrightarrow> mb_reqEvent s = None \<and> mb_tick s \<le> t) \<and> \<not> mb_reqQueueFull s \<and>
     s' = s\<lparr>mb_reqEvent := (if mb_reqs s = [] then Some t else mb_reqEvent s), mb_reqs := mb_reqs s @ [(t, p)]\<rparr>"
  by (auto simp: mb_schedTimingReq_def res_simps)

lemma schedTimingResp_Inr:
  "mb_schedTimingResp p t s = Inr s' \<longleftrightarrow> (mb_resps s = [] \<longrightarrow> mb_respEvent s = None \<and> mb_tick s \<le> t) \<and>
     s' = s\<lparr>mb_respEvent := (if mb_resps s = [] then Some t else mb_respEvent s), mb_resps := mb_resps s @ [(t, p)]\<rparr>"
  by (auto simp: mb_schedTimingResp_def res_simps)

lemma side_add:
  assumes "side_ok sd ev now q" "q = [] \<longrightarrow> now \<le> t"
  shows "side_ok sd (if q = [] then Some t else ev) now (q @ [(t, p)])"
  using assms side_append [of sd ev now q] side_first [of sd ev now t] by (cases "q = []") simp_all

lemma reserve_slot:
  fixes l :: u32
  assumes "n \<le> l" "n \<noteq> l"
  shows "unat (n + 1) = unat n + 1" "n + 1 \<le> l"
proof -
  have "n < l" using assms by simp
  then have lt: "unat n < unat l" by (simp add: word_less_nat_alt)
  have "n \<noteq> - 1" using \<open>n < l\<close> word_order.extremum [of l] by force
  then show u: "unat (n + 1) = unat n + 1" by (rule unat_plus_one)
  show "n + 1 \<le> l" using lt by (simp add: word_le_nat_alt u)
qed

lemma free_slot: "(n :: u32) \<noteq> 0 \<Longrightarrow> unat (n - 1) = unat n - 1"
  by (simp add: unat_minus_one)

lemma request_accepted:
  assumes "slots_ok s n" "\<not> mb_reqQueueFull s" "\<not> (needsResponse (p_cmd p) \<and> mb_respQueueFull s)" "\<not> mb_retryReq s"
    "o' = (if needsResponse (p_cmd p) then mb_outstanding s + 1 else mb_outstanding s)"
  shows "slots_ok (s\<lparr>mb_outstanding := o', mb_reqEvent := ev, mb_reqs := mb_reqs s @ [(t, no_delay p)]\<rparr>) n"
  using assms reserve_slot [of "mb_outstanding s" "mb_respLimit s"]
  by (auto simp: slots_ok_def mb_reqQueueFull_def mb_respQueueFull_def)

lemma request_refused:
  assumes "slots_ok s n" "mb_reqQueueFull s \<or> mb_respQueueFull s"
  shows "slots_ok (s\<lparr>mb_retryReq := True\<rparr>) n"
proof -
  have "expecting (mb_reqs s) \<noteq> 0 \<Longrightarrow> mb_reqs s \<noteq> []" by auto
  then show ?thesis using assms by (fastforce simp: slots_ok_def mb_reqQueueFull_def mb_respQueueFull_def)
qed

lemma request_inv:
  assumes "mb_inv c" "mb_recvTimingReq edge p (mb c) = Inr (ok, s)"
  shows "mb_inv (c\<lparr>mb := s, reqs_in := reqs_in c @ (if ok then [no_delay p] else [])\<rparr>)"
proof (cases ok)
  case False
  then consider "s = mb c" | "mb_reqQueueFull (mb c) \<or> mb_respQueueFull (mb c)" "s = (mb c)\<lparr>mb_retryReq := True\<rparr>"
    using assms(2) by (auto simp: mb_recvTimingReq_def res_simps Let_def split: if_splits)
  then show ?thesis
  proof cases
    case 2
    then show ?thesis using assms(1) False request_refused [of "mb c" "in_flight c"] by (simp add: mb_inv_def)
  qed (use assms(1) False in simp)
next
  case True
  define n where "n = (if needsResponse (p_cmd p) then mb_outstanding (mb c) + 1 else mb_outstanding (mb c))"
  let ?t = "edge + receive_delay p"
  have g: "\<not> mb_reqQueueFull (mb c)" "\<not> (needsResponse (p_cmd p) \<and> mb_respQueueFull (mb c))" "\<not> mb_retryReq (mb c)"
    and sc: "mb_schedTimingReq (no_delay p) ?t ((mb c)\<lparr>mb_outstanding := n\<rparr>) = Inr s"
    using assms(2) True by (auto simp: mb_recvTimingReq_def res_simps Let_def n_def split: if_splits)
  from sc have h: "mb_reqs (mb c) = [] \<longrightarrow> mb_tick (mb c) \<le> ?t"
    and s: "s = (mb c)\<lparr>mb_outstanding := n, mb_reqEvent := (if mb_reqs (mb c) = [] then Some ?t else mb_reqEvent (mb c)),
      mb_reqs := mb_reqs (mb c) @ [(?t, no_delay p)]\<rparr>" by (simp_all add: schedTimingReq_Inr)
  have "slots_ok (mb c) (in_flight c)" using assms(1) by (simp add: mb_inv_def)
  note so = request_accepted [OF this g n_def]
  have "side_ok (req_side c) (mb_reqEvent (mb c)) (mb_tick (mb c)) (mb_reqs (mb c))" using assms(1) by (simp add: mb_inv_def)
  note sd = side_add [OF this h]
  show ?thesis using assms(1) so sd True unfolding s by (simp add: mb_inv_def)
qed

lemma bridge_response_inv:
  assumes "mb_inv c" "0 < in_flight c" "mb_recvTimingResp edge p (mb c) = Inr s"
  shows "mb_inv (c\<lparr>mb := s, in_flight := in_flight c - 1, resps_in := resps_in c @ [no_delay p]\<rparr>)"
proof -
  let ?t = "edge + receive_delay p"
  have h: "mb_resps (mb c) = [] \<longrightarrow> mb_tick (mb c) \<le> ?t"
    and s: "s = (mb c)\<lparr>mb_respEvent := (if mb_resps (mb c) = [] then Some ?t else mb_respEvent (mb c)),
      mb_resps := mb_resps (mb c) @ [(?t, no_delay p)]\<rparr>"
    using assms(3) by (simp_all add: mb_recvTimingResp_def schedTimingResp_Inr)
  have "slots_ok (mb c) (in_flight c)" using assms(1) by (simp add: mb_inv_def)
  then have so: "slots_ok s (in_flight c - 1)" using assms(2) unfolding s by (simp add: slots_ok_def)
  have "side_ok (resp_side c) (mb_respEvent (mb c)) (mb_tick (mb c)) (mb_resps (mb c))" using assms(1) by (simp add: mb_inv_def)
  note sd = side_add [OF this h]
  show ?thesis using assms(1) so sd unfolding s by (simp add: mb_inv_def)
qed

lemma retryStalled_eq: "mb_retryStalledReq s = (mb_retryReq s, s\<lparr>mb_retryReq := False\<rparr>)"
  by (cases s) (simp add: mb_retryStalledReq_def)

lemma sendReq_return_Inr:
  assumes "mb_sendReq_return edge True s = Inr (told, s')"
  shows "s' = s\<lparr>mb_reqs := tl (mb_reqs s), mb_retryReq := False,
      mb_reqEvent := (if tl (mb_reqs s) \<noteq> [] then Some (max (fst (hd (tl (mb_reqs s)))) edge) else mb_reqEvent s)\<rparr>"
    "tl (mb_reqs s) \<noteq> [] \<Longrightarrow> mb_tick s \<le> max (fst (hd (tl (mb_reqs s)))) edge"
  using assms by (auto simp: mb_sendReq_return_def retryStalled_eq res_simps Let_def split: if_splits)

lemma req_answer_inv:
  assumes "mb_inv c" "req_side c = Calling" "mb_sendReq_return edge ok (mb c) = Inr (told, s)" "p = snd (hd (mb_reqs (mb c)))"
  shows "mb_inv (c\<lparr>mb := s, req_side := answer ok, reqs_out := reqs_out c @ (if ok then [p] else []),
      in_flight := in_flight c + (if ok \<and> needsResponse (p_cmd p) then 1 else 0)\<rparr>)"
proof -
  have sd: "side_ok Calling (mb_reqEvent (mb c)) (mb_tick (mb c)) (mb_reqs (mb c))" using assms(1,2) by (simp add: mb_inv_def)
  then obtain t q where q: "mb_reqs (mb c) = (t, p) # q" using assms(4) by (cases "mb_reqs (mb c)") (auto simp: side_ok_def)
  show ?thesis
  proof (cases ok)
    case True
    then have "mb_sendReq_return edge True (mb c) = Inr (told, s)" using assms(3) by simp
    note r = sendReq_return_Inr [OF this]
    have "side_ok Resting (mb_reqEvent s) (mb_tick s) (mb_reqs s)"
      using r(2) q side_sent [OF sd] unfolding r(1) by (cases "q = []") simp_all
    moreover have "slots_ok s (in_flight c + (if needsResponse (p_cmd p) then 1 else 0))"
      using assms(1) q unfolding r(1) by (auto simp: mb_inv_def slots_ok_def)
    moreover have "mb_respEvent s = mb_respEvent (mb c)" "mb_tick s = mb_tick (mb c)" "mb_resps s = mb_resps (mb c)" "mb_reqs s = q"
      using q unfolding r(1) by simp_all
    ultimately show ?thesis using assms(1) q True by (simp add: mb_inv_def answer_def)
  next
    case False
    then have "s = mb c" using assms(3) by (simp add: mb_sendReq_return_def)
    then show ?thesis using assms(1) side_refused [OF sd] False by (simp add: mb_inv_def answer_def)
  qed
qed

lemma sendResp_return_Inr:
  assumes "mb_sendResp_return edge True s = Inr (told, s')"
  shows "mb_outstanding s \<noteq> 0" "tl (mb_resps s) \<noteq> [] \<Longrightarrow> mb_tick s \<le> max (fst (hd (tl (mb_resps s)))) edge"
    "s' = s\<lparr>mb_resps := tl (mb_resps s), mb_outstanding := mb_outstanding s - 1, mb_retryReq := mb_retryReq s \<and> mb_reqQueueFull s,
      mb_respEvent := (if tl (mb_resps s) \<noteq> [] then Some (max (fst (hd (tl (mb_resps s)))) edge) else mb_respEvent s)\<rparr>"
  using assms by (auto simp: mb_sendResp_return_def retryStalled_eq mb_reqQueueFull_def res_simps Let_def split: if_splits)

lemma resp_answer_inv:
  assumes "mb_inv c" "resp_side c = Calling" "mb_sendResp_return edge ok (mb c) = Inr (told, s)"
  shows "mb_inv (c\<lparr>mb := s, resp_side := answer ok, resps_out := resps_out c @ (if ok then [snd (hd (mb_resps (mb c)))] else [])\<rparr>)"
proof -
  have sd: "side_ok Calling (mb_respEvent (mb c)) (mb_tick (mb c)) (mb_resps (mb c))" using assms(1,2) by (simp add: mb_inv_def)
  then obtain t p q where q: "mb_resps (mb c) = (t, p) # q" by (cases "mb_resps (mb c)") (auto simp: side_ok_def)
  show ?thesis
  proof (cases ok)
    case True
    then have "mb_sendResp_return edge True (mb c) = Inr (told, s)" using assms(3) by simp
    note r = sendResp_return_Inr [OF this]
    have "side_ok Resting (mb_respEvent s) (mb_tick s) (mb_resps s)"
      using r(2) q side_sent [OF sd] unfolding r(3) by (cases "q = []") simp_all
    moreover have "slots_ok s (in_flight c)"
    proof -
      have so: "slots_ok (mb c) (in_flight c)" using assms(1) by (simp add: mb_inv_def)
      have "unat (mb_outstanding (mb c) - 1) = unat (mb_outstanding (mb c)) - 1" by (rule free_slot [OF r(1)])
      then show ?thesis using so q unfolding r(3) slots_ok_def by (auto simp: mb_reqQueueFull_def word_le_nat_alt)
    qed
    moreover have "mb_reqEvent s = mb_reqEvent (mb c)" "mb_tick s = mb_tick (mb c)" "mb_reqs s = mb_reqs (mb c)" "mb_resps s = q"
      using q unfolding r(3) by simp_all
    ultimately show ?thesis using assms(1) q True by (simp add: mb_inv_def answer_def)
  next
    case False
    then have "s = mb c" using assms(3) by (simp add: mb_sendResp_return_def)
    then show ?thesis using assms(1) side_refused [OF sd] False by (simp add: mb_inv_def answer_def)
  qed
qed

lemma mb_step_inv: "mb_step c c' \<Longrightarrow> mb_inv c \<Longrightarrow> mb_inv c'"
proof (induction rule: mb_step.induct)
  case (req_event c p)
  then show ?case using side_call [of "mb_tick (mb c)" "mb_reqs (mb c)"] by (simp add: mb_inv_def slots_ok_def)
next
  case (req_retry c p)
  then show ?case using side_retry by (simp add: mb_inv_def)
next
  case (resp_event c p)
  then show ?case using side_call [of "mb_tick (mb c)" "mb_resps (mb c)"] by (simp add: mb_inv_def slots_ok_def)
next
  case (resp_retry c p)
  then show ?case using side_retry by (simp add: mb_inv_def)
next
  case (time c t)
  then show ?case using side_time [OF _ time.hyps(3)] by (simp add: mb_inv_def slots_ok_def)
next
  case (request edge p c ok s)
  show ?case by (rule request_inv [OF request.prems request.hyps])
next
  case (response c edge p s)
  show ?case by (rule bridge_response_inv [OF response.prems response.hyps])
next
  case (req_answer c edge ok told s p)
  show ?case by (rule req_answer_inv [OF req_answer.prems req_answer.hyps])
next
  case (resp_answer c edge ok told s)
  show ?case by (rule resp_answer_inv [OF resp_answer.prems resp_answer.hyps])
qed

lemma mb_reachable_inv: "mb_step\<^sup>*\<^sup>* (mb_start (Bridge_new resp_size req_size now)) c \<Longrightarrow> mb_inv c"
  by (induction rule: rtranclp_induct)
    (simp add: mb_inv_def mb_start_def Bridge_new_def side_ok_def slots_ok_def, blast intro: mb_step_inv)

lemma mb_step_limits:
  "mb_step c c' \<Longrightarrow> mb_reqLimit (mb c') = mb_reqLimit (mb c) \<and> mb_respLimit (mb c') = mb_respLimit (mb c)"
  by (induction rule: mb_step.induct)
    (auto simp: mb_recvTimingReq_def mb_recvTimingResp_def schedTimingReq_Inr schedTimingResp_Inr mb_sendReq_return_def
      mb_sendResp_return_def retryStalled_eq res_simps Let_def split: if_splits)

lemma mb_reachable_limits:
  "mb_step\<^sup>*\<^sup>* (mb_start (Bridge_new resp_size req_size now)) c \<Longrightarrow> mb_reqLimit (mb c) = req_size \<and> mb_respLimit (mb c) = resp_size"
  by (induction rule: rtranclp_induct) (simp_all add: mb_start_def Bridge_new_def mb_step_limits)

section \<open>Properties\<close>

lemma bridge_one_request:
  "\<exists>c. mb_step\<^sup>*\<^sup>* (mb_start (Bridge_new 1 2 5)) c \<and> mb_reqs (mb c) = [(10, data_packet ReadReq 0x40 [0, 0])] \<and>
     mb_reqEvent (mb c) = Some 10 \<and> req_side c = Resting \<and> reqs_in c = [data_packet ReadReq 0x40 [0, 0]]"
proof -
  let ?p = "data_packet ReadReq 0x40 [0, 0]" and ?c = "mb_start (Bridge_new 1 2 5)"
  let ?s = "(Bridge_new 1 2 5)\<lparr>mb_outstanding := 1, mb_reqEvent := Some 10, mb_reqs := [(10, ?p)]\<rparr>"
  have p: "no_delay ?p = ?p" "receive_delay ?p = 0" "\<not> cacheResponding ?p" "needsResponse (p_cmd ?p)"
    by (simp_all add: no_delay_def receive_delay_def cacheResponding_def data_packet_def packet_init_def isSet_def cmd_predicates)
  have "mb_recvTimingReq 10 ?p (mb ?c) = Inr (True, ?s)"
    using p by (simp add: mb_recvTimingReq_def mb_schedTimingReq_def mb_start_def Bridge_new_def mb_reqQueueFull_def
      mb_respQueueFull_def schedule_at_def Let_def)
  from request [OF this] have "mb_step\<^sup>*\<^sup>* ?c (?c\<lparr>mb := ?s, reqs_in := reqs_in ?c @ [?p]\<rparr>)" using p by auto
  then show ?thesis by (intro exI [of _ "?c\<lparr>mb := ?s, reqs_in := reqs_in ?c @ [?p]\<rparr>"]) (simp add: mb_start_def)
qed

text \<open>
  C18: The queues of the bridge never exceed the sizes it was built with, although responses are accepted without a test,
  and in each direction the packets leave in the order they were accepted, none lost and none twice.
\<close>

theorem mem_bridge_bounded:
  assumes "mb_step\<^sup>*\<^sup>* (mb_start (Bridge_new resp_size req_size now)) c"
  shows "length (mb_reqs (mb c)) \<le> unat req_size \<and> length (mb_resps (mb c)) \<le> unat resp_size \<and>
    reqs_in c = reqs_out c @ map snd (mb_reqs (mb c)) \<and> resps_in c = resps_out c @ map snd (mb_resps (mb c))"
  using mb_reachable_inv [OF assms] mb_reachable_limits [OF assms] by (auto simp: mb_inv_def slots_ok_def word_le_nat_alt)

theorem mem_bridge_bounded_witness:
  "\<exists>c. mb_step\<^sup>*\<^sup>* (mb_start (Bridge_new 1 2 5)) c \<and> length (mb_reqs (mb c)) = 1 \<and> length (mb_reqs (mb c)) \<le> unat (2 :: u32) \<and>
     reqs_in c = reqs_out c @ map snd (mb_reqs (mb c))"
proof -
  obtain c where c: "mb_step\<^sup>*\<^sup>* (mb_start (Bridge_new 1 2 5)) c" "mb_reqs (mb c) = [(10, data_packet ReadReq 0x40 [0, 0])]"
    using bridge_one_request by blast
  from mem_bridge_bounded [OF c(1)] show ?thesis using c by (intro exI [of _ c]) simp
qed

text \<open>
  C19: No assertion of the bridge fails and nothing is forgotten, as long as the clock edges it schedules for are not in
  the past: waiting packets have an event or a refusal to be retried, sending them and handling the
  answer of the peer succeeds, and a requestor that is owed a retry has a packet in the bridge or beyond it that
  will cause one.
\<close>

theorem mem_bridge_never_stops:
  assumes "mb_step\<^sup>*\<^sup>* (mb_start (Bridge_new resp_size req_size now)) c" "mb_tick (mb c) \<le> edge"
  shows "(mb_reqs (mb c) \<noteq> [] \<longrightarrow>
      (case req_side c of
         Resting \<Rightarrow> \<exists>w. mb_reqEvent (mb c) = Some w \<and> mb_tick (mb c) \<le> w \<and> is_ok (mb_sendReq_call ((mb c)\<lparr>mb_tick := w\<rparr>))
       | Refused \<Rightarrow> is_ok (mb_sendReq_call (mb c))
       | Calling \<Rightarrow> \<forall>ok. is_ok (mb_sendReq_return edge ok (mb c)))) \<and>
    (mb_resps (mb c) \<noteq> [] \<longrightarrow>
      (case resp_side c of
         Resting \<Rightarrow> \<exists>w. mb_respEvent (mb c) = Some w \<and> mb_tick (mb c) \<le> w \<and> is_ok (mb_sendResp_call ((mb c)\<lparr>mb_tick := w\<rparr>))
       | Refused \<Rightarrow> is_ok (mb_sendResp_call (mb c))
       | Calling \<Rightarrow> \<forall>ok. is_ok (mb_sendResp_return edge ok (mb c)))) \<and>
    (mb_retryReq (mb c) \<and> req_size \<noteq> 0 \<and> resp_size \<noteq> 0 \<longrightarrow> mb_reqs (mb c) \<noteq> [] \<or> 0 < in_flight c \<or> mb_resps (mb c) \<noteq> [])"
proof -
  have inv: "side_ok (req_side c) (mb_reqEvent (mb c)) (mb_tick (mb c)) (mb_reqs (mb c))"
    "side_ok (resp_side c) (mb_respEvent (mb c)) (mb_tick (mb c)) (mb_resps (mb c))" "slots_ok (mb c) (in_flight c)"
    using mb_reachable_inv [OF assms(1)] by (simp_all add: mb_inv_def)
  have m: "mb_tick (mb c) \<le> max x edge" for x using assms(2) by (simp add: le_max_iff_disj)
  have "mb_outstanding (mb c) \<noteq> 0" if "mb_resps (mb c) \<noteq> []"
    using inv(3) that by (cases "mb_outstanding (mb c) = 0") (auto simp: slots_ok_def)
  then have resps: "case resp_side c of
         Resting \<Rightarrow> \<exists>w. mb_respEvent (mb c) = Some w \<and> mb_tick (mb c) \<le> w \<and> is_ok (mb_sendResp_call ((mb c)\<lparr>mb_tick := w\<rparr>))
       | Refused \<Rightarrow> is_ok (mb_sendResp_call (mb c))
       | Calling \<Rightarrow> \<forall>ok. is_ok (mb_sendResp_return edge ok (mb c))" if "mb_resps (mb c) \<noteq> []"
    using inv(2) that m
    by (cases "resp_side c"; cases "mb_respEvent (mb c)")
      (auto simp: side_ok_def mb_sendResp_call_def mb_sendResp_return_def schedule_at_def Let_def)
  have reqs: "case req_side c of
         Resting \<Rightarrow> \<exists>w. mb_reqEvent (mb c) = Some w \<and> mb_tick (mb c) \<le> w \<and> is_ok (mb_sendReq_call ((mb c)\<lparr>mb_tick := w\<rparr>))
       | Refused \<Rightarrow> is_ok (mb_sendReq_call (mb c))
       | Calling \<Rightarrow> \<forall>ok. is_ok (mb_sendReq_return edge ok (mb c))" if "mb_reqs (mb c) \<noteq> []"
    using inv(1) that m
    by (cases "req_side c"; cases "mb_reqEvent (mb c)")
      (auto simp: side_ok_def mb_sendReq_call_def mb_sendReq_return_def schedule_at_def Let_def)
  have pos: "0 < unat x" if "x \<noteq> 0" for x :: u32 using that by (simp add: unat_gt_0)
  have "mb_retryReq (mb c) \<and> req_size \<noteq> 0 \<and> resp_size \<noteq> 0 \<longrightarrow> mb_reqs (mb c) \<noteq> [] \<or> 0 < in_flight c \<or> mb_resps (mb c) \<noteq> []"
    using inv(3) mb_reachable_limits [OF assms(1)] pos [of req_size] pos [of resp_size] by (auto simp: slots_ok_def)
  then show ?thesis using reqs resps by blast
qed

theorem mem_bridge_never_stops_witness:
  "\<exists>c. mb_step\<^sup>*\<^sup>* (mb_start (Bridge_new 1 2 5)) c \<and> mb_reqEvent (mb c) = Some 10 \<and> is_ok (mb_sendReq_call ((mb c)\<lparr>mb_tick := 10\<rparr>))"
proof -
  obtain c where c: "mb_step\<^sup>*\<^sup>* (mb_start (Bridge_new 1 2 5)) c" "mb_reqs (mb c) = [(10, data_packet ReadReq 0x40 [0, 0])]"
    "mb_reqEvent (mb c) = Some 10" "req_side c = Resting"
    using bridge_one_request by blast
  from mem_bridge_never_stops [OF c(1), of "mb_tick (mb c)"] show ?thesis using c by (intro exI [of _ c]) simp
qed

end
