(* ===== verification/Pci_Checkpoint.thy ===== *)
theory Pci_Checkpoint
  imports Pci_Device
begin

unbundle bit_operations_syntax

text \<open>
  Model of the checkpoints of PCI functions (\<^verbatim>\<open>src/gem5/src/dev/pci/device.cc\<close>, \<^verbatim>\<open>serialize\<close> and
  \<^verbatim>\<open>unserialize\<close>).  A checkpoint is the record of the values written; every value is read at the width it was
  written with.  The base address registers are not saved: they are written again from the saved
  configuration space, which is shown to give the registers the function had.
\<close>

section \<open>Operations\<close>

record pci_checkpoint =
  cp_config :: "u8 list"
  cp_pmcap :: pm_cap
  cp_msicap :: msi_cap
  cp_msixcap :: msix_cap
  cp_msix :: "(msix_entry list \<times> u64 list) option"
  cp_pxcap :: px_cap

definition pci_serialize :: "pci_device \<Rightarrow> pci_checkpoint res" where
  "pci_serialize d =
     (let vecs = msix_vecs (msix_mxc (d_msixcap d));
          pba = msix_pba_size vecs
      in sbind (if d_MSIXCAP_BASE d \<noteq> 0 then
                  if vecs \<le> length (msix_table d) \<and> pba \<le> length (msix_pba d)
                  then Inr (Some (take vecs (msix_table d), take pba (msix_pba d)))
                  else Inl Undefined_Behaviour
                else Inr None) (\<lambda>msix.
         Inr \<lparr>cp_config = d_config d, cp_pmcap = d_pmcap d, cp_msicap = d_msicap d, cp_msixcap = d_msixcap d,
              cp_msix = msix, cp_pxcap = d_pxcap d\<rparr>))"

definition base_addr :: "u8 list \<Rightarrow> nat \<Rightarrow> u32" where
  "base_addr cfg n = ucast (cfg_get (PCI0_BASE_ADDR0 + 4 * n) 4 cfg)"

text \<open>A checkpoint without the tables a function expects stops the simulator.\<close>

definition pci_unserialize :: "pci_checkpoint \<Rightarrow> pci_device \<Rightarrow> pci_device res" where
  "pci_unserialize cp d =
     (let d = d\<lparr>d_config := cp_config cp\<rparr> in
      sbind (write_bars (hostInterface d) 0 (map (base_addr (d_config d)) [0..<length (BARs d)]) (BARs d)) (\<lambda>(_, bars).
        (let d = d\<lparr>BARs := bars, d_pmcap := cp_pmcap cp, d_msicap := cp_msicap cp, d_msixcap := cp_msixcap cp\<rparr> in
         sbind (if d_MSIXCAP_BASE d \<noteq> 0 then
                  (case cp_msix cp of
                     None \<Rightarrow> Inl Fatal
                   | Some (table, pba) \<Rightarrow> Inr (d\<lparr>msix_table := table, msix_pba := pba\<rparr>))
                else Inr d) (\<lambda>d.
         Inr (d\<lparr>d_pxcap := cp_pxcap cp\<rparr>)))))"

section \<open>Registers follow the configuration space\<close>

text \<open>Writing an accepted value again gives the register it gave the first time.\<close>

lemma io_bar_write_again: "snd (io_bar_write host (fst (io_bar_write host v sz)) sz) = snd (io_bar_write host v sz)"
proof -
  define m where "m = NOT (sz - 1)"
  define c1 c2 :: u32 where "c1 = 1" and "c2 = 2"
  define b where "b = (\<lambda>v :: u32. ((ucast (ucast v AND m) :: u32) AND NOT c2) OR c1)"
  have bits: "bit (b x) i \<longleftrightarrow> i < 32 \<and> bit x i \<and> bit m i" if "2 \<le> i" for x i
    using that small_bits(2,3) [of i] unfolding c1_def [symmetric] c2_def [symmetric]
    by (auto simp: b_def bar_bits dest: bit_imp_le_length)
  have "drop_bit 2 (b (b v)) = drop_bit 2 (b v)"
    by (rule bit_word_eqI) (auto simp: bit_drop_bit_eq bits)
  then show ?thesis by (simp add: io_bar_write_def Let_def b_def m_def c1_def c2_def)
qed

lemma mem_bar_write_again:
  assumes "size_ok sz"
  shows "mem_lower (snd (mem_bar_write host (fst (mem_bar_write host v sz w u)) sz w u')) = ucast v AND NOT (sz - 1)"
proof -
  obtain k where k: "3 \<le> k" "k < 64" "sz = 2 ^ k" using assms by (auto simp: size_ok_def)
  have "(ucast (ucast (ucast v AND NOT (sz - 1)) OR (if w then 4 else 0) :: u32) AND NOT (sz - 1) :: u64) = ucast v AND NOT (sz - 1)"
  proof (rule bit_word_eqI)
    fix i assume "i < LENGTH(64)"
    show "bit (ucast (ucast (ucast v AND NOT (sz - 1)) OR (if w then 4 else 0) :: u32) AND NOT (sz - 1) :: u64) i \<longleftrightarrow>
        bit (ucast v AND NOT (sz - 1) :: u64) i"
      using k \<open>i < _\<close> small_bits(1) [of i] by (auto simp: bar_bits dest: bit_imp_le_length)
  qed
  then show ?thesis by (simp add: mem_bar_write_lower [OF assms])
qed

lemma upper_bar_value_again: "upper_bar_value (upper_bar_value v sz) sz = upper_bar_value v sz"
  by (rule bit_word_eqI) (auto simp: upper_bar_value_def bar_bits)

text \<open>What the register at index \<^verbatim>\<open>i\<close> holds, given the words of the configuration space.\<close>

definition follows :: "device_interface \<Rightarrow> (nat \<Rightarrow> u32) \<Rightarrow> pci_bar list \<Rightarrow> nat \<Rightarrow> bool" where
  "follows host ws bars i \<longleftrightarrow> (case bars ! i of
       PciIoBar a sz \<Rightarrow> a = io_addr (snd (io_bar_write host (ws i) sz))
     | PciLegacyIoBar a sz f \<Rightarrow> a = pioAddr host f
     | PciMemBar a sz w l u \<Rightarrow> l = ucast (ws i) AND NOT (sz - 1) \<and> a = memAddr host (u + l)
     | PciMemUpperBar (Some j) \<Rightarrow> mem_upper (bars ! j) = push_bit 32 (ucast (upper_bar_value (ws i) (bar_size (bars ! j))))
     | _ \<Rightarrow> True)"

lemma follows_cong: "ws i = ws' i \<Longrightarrow> follows host ws bars i \<longleftrightarrow> follows host ws' bars i"
  by (simp only: follows_def)

lemma bar_write_cases:
  assumes "bar_write host n v bars = Inr (r, bars')" "bars_wf bars"
  obtains "bars ! n = PciBarNone" "bars' = bars" "n < length bars"
  | a sz where "bars ! n = PciIoBar a sz" "r = fst (io_bar_write host v sz)" "bars' = bars[n := snd (io_bar_write host v sz)]"
      "n < length bars"
  | a sz f where "bars ! n = PciLegacyIoBar a sz f" "bars' = bars[n := PciLegacyIoBar (pioAddr host f) sz f]" "n < length bars"
  | a sz w l u where "bars ! n = PciMemBar a sz w l u" "size_ok sz" "r = fst (mem_bar_write host v sz w u)" "n < length bars"
      "bars' = bars[n := PciMemBar (memAddr host (u + (ucast v AND NOT (sz - 1)))) sz w (ucast v AND NOT (sz - 1)) u]"
  | j a sz l u where "bars ! n = PciMemUpperBar (Some j)" "n = Suc j" "bars ! j = PciMemBar a sz True l u" "n < length bars"
      "r = upper_bar_value v sz"
      "bars' = bars[j := PciMemBar (memAddr host (push_bit 32 (ucast r) + l)) sz True l (push_bit 32 (ucast r))]"
proof -
  have n: "n < length bars" using assms(1) by (auto simp: bar_write_def split: if_splits)
  show thesis
  proof (cases "bars ! n")
    case (PciMemUpperBar x)
    from bars_wf_upper [OF assms(2) n this] obtain j a sz l u
      where j: "n = Suc j" "x = Some j" "bars ! j = PciMemBar a sz True l u" by blast
    then show thesis using assms(1) n PciMemUpperBar
      by (intro that(5) [of j a sz l u]) (auto simp: bar_write_def mem_bar_set_upper_def Let_def)
  next
    case (PciMemBar a sz w l u)
    then have "size_ok sz" using bars_wf_mem [OF assms(2) n] by blast
    then show thesis using assms(1) n PciMemBar
      by (intro that(4) [of a sz w l u]) (auto simp: bar_write_def mem_bar_write_lower)
  next
    case (PciIoBar a sz)
    then show thesis using assms(1) n by (intro that(2) [of a sz]) (auto simp: bar_write_def split: prod.splits)
  next
    case (PciLegacyIoBar a sz f)
    then show thesis using assms(1) n by (intro that(3) [of a sz f]) (auto simp: bar_write_def)
  next
    case PciBarNone
    then show thesis using assms(1) n by (intro that(1)) (auto simp: bar_write_def)
  qed
qed

lemma follows_write:
  assumes w: "bar_write host n v bars = Inr (r, bars')" and wf: "bars_wf bars" and i: "i < length bars"
    and f: "i = n \<or> follows host ws bars i"
  shows "follows host (ws(n := r)) bars' i"
  using w wf
proof (cases rule: bar_write_cases)
  case (2 a sz)
  obtain a' where b: "snd (io_bar_write host v sz) = PciIoBar a' sz" by (simp add: io_bar_write_def Let_def)
  show ?thesis
  proof (cases "i = n")
    case True
    then show ?thesis using 2 b io_bar_write_again [of host v sz] by (simp add: follows_def)
  next
    case False
    with f 2 b bars_wf_upper [OF wf i] show ?thesis by (cases "bars ! i") (auto simp: follows_def nth_list_update)
  qed
next
  case (4 a sz w l u)
  show ?thesis
  proof (cases "i = n")
    case True
    then show ?thesis using 4 mem_bar_write_again [OF 4(2), of host v w u u] mem_bar_write_lower [OF 4(2)] by (simp add: follows_def)
  next
    case False
    with f 4 bars_wf_upper [OF wf i] show ?thesis by (cases "bars ! i") (auto simp: follows_def nth_list_update)
  qed
next
  case (5 j a sz l u)
  show ?thesis
  proof (cases "i = n")
    case True
    then show ?thesis using 5 upper_bar_value_again [of v sz] by (simp add: follows_def)
  next
    case False
    with f 5 bars_wf_upper [OF wf i] show ?thesis by (cases "bars ! i") (auto simp: follows_def nth_list_update)
  qed
qed (use f i bars_wf_upper [OF wf i] in \<open>cases "bars ! i"; auto simp: follows_def nth_list_update\<close>)+

lemma write_bars_follows:
  assumes "write_bars host n vs bars = Inr (rs, bars')" "bars_wf bars" "length bars = n + length vs"
    "\<And>i. i < n \<Longrightarrow> follows host (\<lambda>i. ws ! i) bars i" "length ws = n"
  shows "\<forall>i < length bars. follows host (\<lambda>i. (ws @ rs) ! i) bars' i"
  using assms
proof (induction host n vs bars arbitrary: rs ws rule: write_bars.induct)
  case (2 host n v vs bars)
  obtain r b rs' where b: "bar_write host n v bars = Inr (r, b)" "write_bars host (Suc n) vs b = Inr (rs', bars')" "rs = r # rs'"
    using 2(2) by (auto simp: res_simps)
  from bar_write_wf [OF 2(3) b(1)] have wf: "bars_wf b" "length b = length bars"
    using map_eq_imp_length_eq by blast+
  have fo: "follows host (\<lambda>i. (ws @ [r]) ! i) b i" if "i < Suc n" for i
  proof -
    have "follows host ((\<lambda>i. ws ! i)(n := r)) b i"
      using follows_write [OF b(1) 2(3), of i "\<lambda>i. ws ! i"] that 2(4,5) by (auto simp: less_Suc_eq)
    moreover have "((\<lambda>i. ws ! i)(n := r)) i = (ws @ [r]) ! i" using that 2(6) by (auto simp: nth_append)
    ultimately show ?thesis using follows_cong by metis
  qed
  show ?case using 2(1) [OF b(2) wf(1) _ fo] b(3) wf(2) 2(4,6) by auto
qed simp

section \<open>Restoring the registers\<close>

text \<open>
  While the registers are written again, those before \<^verbatim>\<open>n\<close> are as in the saved function \<^verbatim>\<open>t\<close>, except that a lower
  half whose upper half comes next still has the upper half it had.
\<close>

definition restored :: "pci_bar list \<Rightarrow> nat \<Rightarrow> pci_bar list \<Rightarrow> bool" where
  "restored t n bars \<longleftrightarrow> map bar_shape bars = map bar_shape t \<and>
     (\<forall>i < n. bars ! i = t ! i \<or>
        Suc i = n \<and> n < length t \<and> t ! n = PciMemUpperBar (Some i) \<and>
        (\<exists>a sz l u a' u'. t ! i = PciMemBar a sz True l u \<and> bars ! i = PciMemBar a' sz True l u'))"

lemma restored_step:
  assumes r: "restored t n bars" and n: "n < length t" and wf: "bars_wf t" and f: "\<forall>i < length t. follows host ws t i"
    and w: "bar_write host n (ws n) bars = Inr (v, bars')"
  shows "restored t (Suc n) bars'"
proof -
  have sh: "map bar_shape bars = map bar_shape t" and len: "length bars = length t"
    using r map_eq_imp_length_eq [of bar_shape bars bar_shape t] by (simp_all add: restored_def)
  have wfb: "bars_wf bars" using bars_wf_shape [OF sh] wf by simp
  have at: "bar_shape (bars ! i) = bar_shape (t ! i)" if "i < length t" for i using sh that len by (metis nth_map)
  have sh': "map bar_shape bars' = map bar_shape t" using bar_write_wf(2) [OF wfb w] sh by simp
  have old: "bars ! i = t ! i" if "i < n" "\<And>j. t ! n \<noteq> PciMemUpperBar (Some j)" for i
    using r that by (auto simp: restored_def)
  note fn = f [rule_format, OF n]
  from w wfb show ?thesis
  proof (cases rule: bar_write_cases)
    case 1
    then have "t ! n = PciBarNone" using at [OF n] by (cases "t ! n") auto
    then show ?thesis using 1 old sh' by (auto simp: restored_def less_Suc_eq)
  next
    case (2 a sz)
    then obtain a' where t: "t ! n = PciIoBar a' sz" using at [OF n] by (cases "t ! n") auto
    then have "snd (io_bar_write host (ws n) sz) = t ! n" using fn by (simp add: follows_def io_bar_write_def Let_def)
    then show ?thesis using 2 old sh' t by (auto simp: restored_def less_Suc_eq nth_list_update)
  next
    case (3 a sz g)
    then obtain a' where t: "t ! n = PciLegacyIoBar a' sz g" using at [OF n] by (cases "t ! n") auto
    then have "PciLegacyIoBar (pioAddr host g) sz g = t ! n" using fn by (simp add: follows_def)
    then show ?thesis using 3 old sh' t by (auto simp: restored_def less_Suc_eq nth_list_update)
  next
    case (4 a sz w l u)
    then obtain a' l' u' where t: "t ! n = PciMemBar a' sz w l' u'" "\<not> w \<longrightarrow> u' = u"
      using at [OF n] by (cases "t ! n") (auto split: if_splits)
    have "w \<longrightarrow> Suc n < length t \<and> t ! Suc n = PciMemUpperBar (Some n)" using bars_wf_mem [OF wf n t(1)] by blast
    moreover have "l' = ucast (ws n) AND NOT (sz - 1)" "a' = memAddr host (u' + l')" using fn t(1) by (simp_all add: follows_def)
    ultimately show ?thesis using 4 old sh' t by (cases w) (auto simp: restored_def less_Suc_eq nth_list_update)
  next
    case (5 j a sz l u)
    then have t: "t ! n = PciMemUpperBar (Some j)" using at [OF n] bar_shape_upper by (metis bar_shape.simps(5))
    from bars_wf_upper [OF wf n t] obtain a' sz' l' u' where tj: "t ! j = PciMemBar a' sz' True l' u'" by auto
    have j: "j < length t" using 5(2) n by simp
    have eq: "sz' = sz" "l' = l" using r 5(2,3) tj by (auto simp: restored_def)
    have "u' = push_bit 32 (ucast v)" using fn t tj 5(5) eq by (simp add: follows_def)
    moreover have "a' = memAddr host (u' + l')" using f [rule_format, OF j] tj by (simp add: follows_def)
    ultimately have "bars' ! j = t ! j" using 5 j len tj eq by simp
    moreover have "bars' ! n = t ! n" using 5 t by simp
    moreover have "bars' ! i = t ! i" if "i < j" for i
    proof -
      have "i < n" "Suc i \<noteq> n" using that 5(2) by simp_all
      then have "bars ! i = t ! i" using r unfolding restored_def by blast
      then show ?thesis using 5(6) that by simp
    qed
    ultimately show ?thesis using sh' 5(2) by (auto simp: restored_def less_Suc_eq)
  qed
qed

lemma write_bars_restores:
  assumes "restored t n bars" "n + length vs = length t" "bars_wf t" "\<forall>i < length t. follows host ws t i"
    "vs = map ws [n..<length t]"
  shows "\<exists>rs. write_bars host n vs bars = Inr (rs, t)"
  using assms
proof (induction vs arbitrary: n bars)
  case Nil
  then have "map bar_shape bars = map bar_shape t" "\<forall>i < length t. bars ! i = t ! i" by (auto simp: restored_def)
  then have "bars = t" using map_eq_imp_length_eq [of bar_shape bars bar_shape t] by (intro nth_equalityI) auto
  then show ?case by simp
next
  case (Cons v vs)
  have n: "n < length t" using Cons.prems(2) by simp
  then have v: "v = ws n" "vs = map ws [Suc n..<length t]" using Cons.prems(5) by (simp_all add: upt_conv_Cons)
  have sh: "map bar_shape bars = map bar_shape t" using Cons.prems(1) by (simp add: restored_def)
  obtain r bars' where w: "bar_write host n v bars = Inr (r, bars')"
    using bar_write_shape [of bars n host v] bars_wf_shape [OF sh] Cons.prems(3) n map_eq_imp_length_eq [OF sh] by auto
  have "Suc n + length vs = length t" using Cons.prems(2) by simp
  from Cons.IH [OF restored_step [OF Cons.prems(1) n Cons.prems(3,4) w [unfolded v(1)]] this Cons.prems(3,4) v(2)]
  obtain rs where "write_bars host (Suc n) vs bars' = Inr (rs, t)" by blast
  then show ?case using w by simp
qed

section \<open>Reachable functions\<close>

lemma base_addr_put:
  assumes "length cfg = 64" "n < 6" "m < 6"
  shows "base_addr (cfg_put (0x10 + 4 * n) 4 (ucast r) cfg) m = ((base_addr cfg)(n := r)) m"
proof (cases "m = n")
  case True
  have "ucast (take_bit 32 (ucast r :: u64)) = r"
    by (rule bit_word_eqI) (auto simp: bit_ucast_iff bit_take_bit_iff)
  then show ?thesis using True assms cfg_get_put [of "0x10 + 4 * n" 4 cfg "ucast r"] by (simp add: base_addr_def)
next
  case False
  then have "0x10 + 4 * m + 4 \<le> 0x10 + 4 * n \<or> 0x10 + 4 * n + 4 \<le> 0x10 + 4 * m" by arith
  then have "cfg_get (0x10 + 4 * m) 4 (cfg_put (0x10 + 4 * n) 4 (ucast r) cfg) = cfg_get (0x10 + 4 * m) 4 cfg"
    using assms by (simp add: cfg_get_def cfg_put_def get_put_bytes_disjoint)
  then show ?thesis using False by (simp add: base_addr_def)
qed

lemma base_addr_put_other:
  assumes "length cfg = 64" "m < 6" "off + k \<le> 0x10 \<or> 0x28 \<le> off" "off + k \<le> 64"
  shows "base_addr (cfg_put off k v cfg) m = base_addr cfg m"
proof -
  have "0x10 + 4 * m + 4 \<le> off \<or> off + k \<le> 0x10 + 4 * m" using assms(2,3) by arith
  then have "cfg_get (0x10 + 4 * m) 4 (cfg_put off k v cfg) = cfg_get (0x10 + 4 * m) 4 cfg"
    using assms by (simp add: cfg_get_def cfg_put_def get_put_bytes_disjoint)
  then show ?thesis by (simp add: base_addr_def)
qed

lemma base_addr_init:
  assumes "length base = 6" "m < 6"
  shows "base_addr (pci_config_init p base) m = base ! m"
proof -
  obtain b0 b1 b2 b3 b4 b5 where b: "base = [b0, b1, b2, b3, b4, b5]"
    using assms(1) by (auto simp: eval_nat_numeral length_Suc_conv)
  have u: "ucast (take_bit 32 (ucast r :: u64)) = (r :: u32)" for r
    by (rule bit_word_eqI) (auto simp: bit_ucast_iff bit_take_bit_iff)
  from assms(2) consider "m = 0" | "m = 1" | "m = 2" | "m = 3" | "m = 4" | "m = 5" by linarith
  then show ?thesis
    by cases (simp_all add: base_addr_def cfg_get_def get_bytes_def pci_config_init_def b le_val_bytes u)
qed

definition consistent :: "pci_device \<Rightarrow> pci_device \<Rightarrow> bool" where
  "consistent d0 d \<longleftrightarrow> device_wf d \<and> map bar_shape (BARs d) = map bar_shape (BARs d0) \<and>
     (\<forall>i < 6. follows (hostInterface d0) (base_addr (d_config d)) (BARs d) i) \<and>
     (\<exists>cfg bars. d = d0\<lparr>d_config := cfg, BARs := bars\<rparr>)"

lemma consistent_put:
  assumes "consistent d0 d" "off + k \<le> 0x10 \<or> 0x28 \<le> off" "off + k \<le> 64"
  shows "consistent d0 (d\<lparr>d_config := cfg_put off k v (d_config d)\<rparr>)"
proof -
  have len: "length (d_config d) = 64" using assms(1) by (simp add: consistent_def device_wf_def)
  obtain cfg bars where "d = d0\<lparr>d_config := cfg, BARs := bars\<rparr>" using assms(1) by (auto simp: consistent_def)
  then have d: "\<exists>cfg bars. d\<lparr>d_config := x\<rparr> = d0\<lparr>d_config := cfg, BARs := bars\<rparr>" for x
    by (intro exI [of _ x] exI [of _ bars]) simp
  have "follows (hostInterface d0) (base_addr (cfg_put off k v (d_config d))) (BARs d) i" if "i < 6" for i
    using assms(1) that follows_cong [of "base_addr (cfg_put off k v (d_config d))" i "base_addr (d_config d)"]
      base_addr_put_other [OF len that assms(2,3)] by (simp add: consistent_def)
  then show ?thesis using assms(1,3) len d by (simp add: consistent_def device_wf_def)
qed

lemma consistent_bar:
  assumes "consistent d0 d" "n < 6" "bar_write (hostInterface d0) n v (BARs d) = Inr (r, bars)"
  shows "consistent d0 (d\<lparr>BARs := bars, d_config := cfg_put (0x10 + 4 * n) 4 (ucast r) (d_config d)\<rparr>)"
proof -
  have len: "length (d_config d) = 64" "length (BARs d) = 6" and wf: "bars_wf (BARs d)"
    using assms(1) by (simp_all add: consistent_def device_wf_def)
  obtain cfg bs where "d = d0\<lparr>d_config := cfg, BARs := bs\<rparr>" using assms(1) by (auto simp: consistent_def)
  then have d: "\<exists>cfg bs. d\<lparr>BARs := bars, d_config := x\<rparr> = d0\<lparr>d_config := cfg, BARs := bs\<rparr>" for x
    by (intro exI [of _ x] exI [of _ bars]) simp
  have "follows (hostInterface d0) (base_addr (cfg_put (0x10 + 4 * n) 4 (ucast r) (d_config d))) bars i" if "i < 6" for i
  proof -
    have "follows (hostInterface d0) ((base_addr (d_config d))(n := r)) bars i"
      using assms(1) that len(2) by (intro follows_write [OF assms(3) wf]) (auto simp: consistent_def)
    then show ?thesis using base_addr_put [OF len(1) assms(2) that] follows_cong by metis
  qed
  moreover note sh = bar_write_wf [OF wf assms(3)]
  moreover have "length bars = 6" using map_eq_imp_length_eq [OF sh(2)] len(2) by simp
  ultimately show ?thesis using assms(1,2) len(1) d by (simp add: consistent_def device_wf_def)
qed

lemma writeConfig_consistent:
  assumes "consistent d0 d" "writeConfig pkt d = Inr (t, pkt', d', c)"
  shows "consistent d0 d'"
proof -
  have host: "hostInterface d = hostInterface d0"
    using assms(1) by (auto simp: consistent_def)
  have bar: "consistent d0 (d\<lparr>BARs := bars, d_config := cfg_put off 4 (ucast r) (d_config d)\<rparr>)"
    if "off \<in> {0x10, 0x14, 0x18, 0x1C, 0x20, 0x24}" "bar_write (hostInterface d) ((off - 0x10) div 4) v (BARs d) = Inr (r, bars)" for off v r bars
  proof -
    have "off = 0x10 + 4 * ((off - 0x10) div 4)" "(off - 0x10) div 4 < 6" using that(1) by auto
    then show ?thesis using consistent_bar [OF assms(1) _ that(2) [unfolded host]] by metis
  qed
  obtain off where "writeConfig1 off pkt d = Inr (d', c) \<or> writeConfig2 off pkt d = Inr (d', c) \<or> writeConfig4 off pkt d = Inr (d', c)"
    using assms(2) by (auto simp: writeConfig_def res_simps Let_def split: if_splits)
  then consider "writeConfig1 off pkt d = Inr (d', c)" | "writeConfig2 off pkt d = Inr (d', c)" | "writeConfig4 off pkt d = Inr (d', c)"
    by blast
  then show ?thesis
  proof cases
    case 1
    then show ?thesis using assms(1)
      by (auto simp: writeConfig1_def res_simps intro!: consistent_put split: if_splits)
  next
    case 2
    then show ?thesis using assms(1)
      by (auto simp: writeConfig2_def res_simps intro!: consistent_put split: if_splits)
  next
    case 3
    show ?thesis
    proof (cases "off \<in> {0x10, 0x14, 0x18, 0x1C, 0x20, 0x24}")
      case True
      with 3 obtain v r bars where "bar_write (hostInterface d) ((off - 0x10) div 4) (ucast (v :: u64)) (BARs d) = Inr (r, bars)"
        "d' = d\<lparr>BARs := bars, d_config := cfg_put off 4 (ucast r) (d_config d)\<rparr>"
        by (auto simp: writeConfig4_def res_simps Let_def)
      then show ?thesis using bar [OF True] by blast
    next
      case False
      then show ?thesis using 3 assms(1)
        by (auto simp: writeConfig4_def res_simps intro!: consistent_put split: if_splits)
    qed
  qed
qed

definition pci_configured :: "pci_device \<Rightarrow> pci_device \<Rightarrow> bool" where
  "pci_configured d d' \<longleftrightarrow> (\<exists>pkt t pkt' c. writeConfig pkt d = Inr (t, pkt', d', c))"

lemma construction_consistent:
  assumes "PciDevice_new host p = Inr d" "length (par_bars p) = 6" "\<forall>b\<in>set (par_bars p). bar_fresh b"
  shows "consistent d d"
proof -
  obtain bars base bars' where c: "connect_bars (length (par_bars p)) (par_bars p) = Inr bars"
    "write_bars host 0 (replicate (length bars) 0) bars = Inr (base, bars')"
    and d: "d_config d = pci_config_init p base" "BARs d = bars'" "hostInterface d = host"
    using assms(1) by (auto simp: PciDevice_new_def res_simps Let_def split: if_splits)
  have "connected 0 (par_bars p)" using assms(3) by (simp add: connected_def)
  with connect_bars_connected [OF c(1)] have wf: "bars_wf bars" "length bars = 6"
    using assms(2) connected_all [of bars] by auto
  have base: "length base = 6" using write_bars_wf [OF wf(1) c(2)] wf(2) by simp
  have "follows host (\<lambda>i. base ! i) bars' i" if "i < 6" for i
    using write_bars_follows [OF c(2) wf(1), of "[]"] wf(2) that by simp
  then have "follows host (base_addr (d_config d)) (BARs d) i" if "i < 6" for i
    using that base_addr_init [OF base that] follows_cong d by metis
  moreover have "d = d\<lparr>d_config := d_config d, BARs := BARs d\<rparr>" by simp
  ultimately show ?thesis using PciDevice_new_wf [OF assms] d unfolding consistent_def by blast
qed

lemma configured_consistent:
  assumes "pci_configured\<^sup>*\<^sup>* d0 d" "consistent d0 d0"
  shows "consistent d0 d"
  using assms by (induction rule: rtranclp_induct) (auto simp: pci_configured_def intro: writeConfig_consistent)

lemma construction_tables:
  assumes "PciDevice_new host p = Inr d"
  shows "d_MSIXCAP_BASE d \<noteq> 0 \<Longrightarrow> length (msix_table d) = msix_vecs (msix_mxc (d_msixcap d)) \<and>
    length (msix_pba d) = msix_pba_size (msix_vecs (msix_mxc (d_msixcap d)))"
  using assms by (auto simp: PciDevice_new_def res_simps Let_def split: if_splits)

lemma restores_consistent:
  assumes c: "consistent d0 d" and wf: "consistent d0 d0"
    and tab: "d_MSIXCAP_BASE d0 \<noteq> 0 \<Longrightarrow> length (msix_table d0) = msix_vecs (msix_mxc (d_msixcap d0)) \<and>
      length (msix_pba d0) = msix_pba_size (msix_vecs (msix_mxc (d_msixcap d0)))"
  shows "\<exists>cp. pci_serialize d = Inr cp \<and> pci_unserialize cp d0 = Inr d"
proof -
  obtain cfg bars where d: "d = d0\<lparr>d_config := cfg, BARs := bars\<rparr>" using c by (auto simp: consistent_def)
  have len: "length bars = 6" "length (BARs d0) = 6" and w: "bars_wf bars" and sh: "map bar_shape (BARs d0) = map bar_shape bars"
    and f: "\<forall>i < length bars. follows (hostInterface d0) (base_addr cfg) bars i"
    using c wf by (auto simp: consistent_def device_wf_def d)
  have "restored bars 0 (BARs d0)" using sh by (simp add: restored_def)
  from write_bars_restores [OF this _ w f] len obtain rs
    where "write_bars (hostInterface d0) 0 (map (base_addr cfg) [0..<6]) (BARs d0) = Inr (rs, bars)" by auto
  then show ?thesis using tab len by (auto simp: d pci_serialize_def pci_unserialize_def Let_def)
qed

section \<open>Property\<close>

text \<open>
  C31: A checkpoint restores a PCI function.  Whatever configuration writes a function has seen since it was
  constructed, saving it succeeds, and loading the checkpoint into a function newly constructed from the same parameters
  gives the function that was saved, including the base address registers, which are
  not saved but written again from the configuration space.
\<close>

theorem function_checkpoint_roundtrip:
  assumes "PciDevice_new host p = Inr d0" "length (par_bars p) = 6" "\<forall>b\<in>set (par_bars p). bar_fresh b"
    "pci_configured\<^sup>*\<^sup>* d0 d"
  shows "\<exists>cp. pci_serialize d = Inr cp \<and> pci_unserialize cp d0 = Inr d"
  using restores_consistent configured_consistent [OF assms(4)] construction_consistent [OF assms(1-3)]
    construction_tables [OF assms(1)] by blast

theorem function_checkpoint_roundtrip_witness:
  "\<exists>d0 d cp. PciDevice_new sample_host sample_params = Inr d0 \<and> pci_configured d0 d \<and> pci_serialize d = Inr cp \<and>
     pci_unserialize cp d0 = Inr d"
proof -
  obtain d0 where d: "PciDevice_new sample_host sample_params = Inr d0" using sample_device_new by blast
  have "is_ok (sbind (PciDevice_new sample_host sample_params) (writeConfig (data_packet WriteReq 0x10 [0, 0, 1, 0])))"
    by code_simp
  then obtain t q d c where "writeConfig (data_packet WriteReq 0x10 [0, 0, 1, 0]) d0 = Inr (t, q, d, c)"
    using d by (cases "writeConfig (data_packet WriteReq 0x10 [0, 0, 1, 0]) d0") (auto simp: is_ok_def)
  then have s: "pci_configured d0 d" unfolding pci_configured_def by blast
  have "\<exists>cp. pci_serialize d = Inr cp \<and> pci_unserialize cp d0 = Inr d"
    by (rule function_checkpoint_roundtrip [OF d]) (use s in \<open>auto simp: sample_params_def size_ok_sample\<close>)
  with d s show ?thesis by blast
qed

end
