(* ===== verification/Spec2Isabelle.thy ===== *)
theory Spec2Isabelle
  imports Bitfield Intmath Addr_Range Addr_Interleave Addr_Range_Map Request Mem_Cmd Packet Byte_Memory
    Pci_Bar Pci_Device Pci_Host Pci_Bridge2 Pci_Bridge_Queue Cxl_Memory Pcie_Link Pcie_Ack Event_Queue Event_Queue_Steps Abstract_Mem
    Physical_Mem Deferred_Queue Packet_Queue Simple_Mem Xbar Xbar_Layer Noncoherent_Xbar Mem_Bridge Pci_Checkpoint
begin

text \<open>
  A verification library for the memory and PCI Express side of the simulator: the parts this
  repository adds to gem5 (a CXL memory expander, a PCI Express link, a root complex and switch) and the
  gem5 parts they stand on (address ranges, requests, packets, PCI functions and the PCI host).  File
  names are relative to \<^verbatim>\<open>src/gem5/src/\<close>.

  \<^bold>\<open>How the parts interact.\<close>  A processor sends a \<^emph>\<open>packet\<close> (a command, an address, data bytes, a
  reference to a \<^emph>\<open>request\<close>) into the memory system.  Interconnects choose a port by \<^emph>\<open>address range\<close>,
  with the range map as decoder, and hold packets in timed queues until their neighbour takes them; the
  memory controller does the same with its responses.  Accesses to the configuration window reach the \<^emph>\<open>PCI host\<close>, which
  decodes bus, device and function numbers and calls \<^verbatim>\<open>readConfig\<close> and \<^verbatim>\<open>writeConfig\<close> of the \<^emph>\<open>PCI device\<close>;
  writes of \<^emph>\<open>base address registers\<close> place the device's regions in the address space.  The \<^emph>\<open>CXL
  memory\<close> is a PCI device with one 64-bit region whose accesses read and write a byte array.  Between
  device and host stand the \<^emph>\<open>PCI Express link\<close>, which numbers, acknowledges and replays packets, and the
  \<^emph>\<open>root complex\<close> or \<^emph>\<open>switch\<close>, which routes by the windows of its virtual bridges.

  \<^bold>\<open>Conventions.\<close>  Machine integers are words of their width, so that arithmetic wraps as in the code:
  addresses and ticks are 64 bits, \<^verbatim>\<open>unsigned\<close> is 32 bits.  A function that can stop the simulator returns
  a result: \<^verbatim>\<open>Inl\<close> with the kind of error (panic, fatal, failed assertion, undefined behaviour) or \<^verbatim>\<open>Inr\<close>
  with the value and the updated objects.  Objects are records, and a method that changes its object
  returns the changed record.  Unions of structures and byte arrays are their bytes.

  \<^bold>\<open>Theories.\<close>

  \<^item> \<^verbatim>\<open>Prelude\<close>: words, results, the collection \<^verbatim>\<open>res_simps\<close> that takes results apart, byte strings
    with their little-endian reading.
  \<^item> \<^verbatim>\<open>Bitfield\<close>, \<^verbatim>\<open>Intmath\<close>: \<^verbatim>\<open>base/bitfield.hh\<close>, \<^verbatim>\<open>base/intmath.hh\<close>.  The bit searches, alignments,
    roundings and the wide multiplication agree with their arithmetic meaning.
  \<^item> \<^verbatim>\<open>Addr_Range\<close>, \<^verbatim>\<open>Addr_Interleave\<close>: \<^verbatim>\<open>base/addr_range.hh\<close>.  A range denotes a set of addresses.
    Exclusion computes the difference of these sets, merging the union of stripes, subset tests are
    sound, and removing and adding the interleaving bits are inverse to each other.
  \<^item> \<^verbatim>\<open>Addr_Range_Map\<close>: \<^verbatim>\<open>base/addr_range_map.hh\<close>.  Lookups with the cache of recent entries refine a
    search of all entries; insertion and removal keep the invariant.
  \<^item> \<^verbatim>\<open>Request\<close>, \<^verbatim>\<open>Mem_Cmd\<close>, \<^verbatim>\<open>Packet\<close>: \<^verbatim>\<open>mem/request.hh\<close>, \<^verbatim>\<open>mem/packet.hh\<close>, \<^verbatim>\<open>mem/packet.cc\<close>,
    \<^verbatim>\<open>mem/packet_access.hh\<close>.  Attributes of the commands are consistent between requests and responses;
    a functional read takes exactly the overlapping bytes; values written are read back.
  \<^item> \<^verbatim>\<open>Byte_Memory\<close>: the contract of a memory as a locale: a read returns the bytes at its addresses
    and a write changes exactly them.  Inside the locale every sequence of accesses refines an ideal
    memory.
  \<^item> \<^verbatim>\<open>Pci_Bar\<close>, \<^verbatim>\<open>Pci_Device\<close>: \<^verbatim>\<open>dev/pci/device.hh\<close>, \<^verbatim>\<open>dev/pci/device.cc\<close>.  Programming and sizing of base
    address registers; construction establishes and every configuration write keeps the
    well-formedness of the registers and the read-only bytes.
  \<^item> \<^verbatim>\<open>Pci_Checkpoint\<close>: the checkpoints of \<^verbatim>\<open>dev/pci/device.cc\<close>.  The base address registers always follow the
    configuration space, so loading a checkpoint gives the function that was saved.
  \<^item> \<^verbatim>\<open>Pci_Host\<close>: \<^verbatim>\<open>dev/pci/host.hh\<close>, \<^verbatim>\<open>dev/pci/host.cc\<close>.  Decoding inverts the layout of the configuration
    window; registration keeps the registry; bridges are registered but never consulted.
  \<^item> \<^verbatim>\<open>Pci_Bridge2\<close>: \<^verbatim>\<open>dev/PciBridge2.hh\<close>, \<^verbatim>\<open>dev/PciBridge2.cc\<close>.  Configuration registers, windows, routing and
    announced ranges.  Routing and upstream announcement agree; the ranges announced downstream are
    characterised exactly, with the addresses they miss; configuration writes keep the read-only bytes.
  \<^item> \<^verbatim>\<open>Pci_Bridge_Queue\<close>: the timing, atomic and functional side of \<^verbatim>\<open>dev/PciBridge2.cc\<close> with a step
    relation over arrivals, retries, send events and the answers of the neighbours.  The queues respect their limits and no retry is
    lost; transmissions are scheduled without the current time, which stops the simulator.
  \<^item> \<^verbatim>\<open>Cxl_Memory\<close>: \<^verbatim>\<open>dev/cxl_memory.hh\<close>, \<^verbatim>\<open>dev/cxl_memory.cc\<close>.  The memory satisfies the contract of
    \<^verbatim>\<open>Byte_Memory\<close>, so it behaves as an ideal memory in its region.
  \<^item> \<^verbatim>\<open>Pcie_Link\<close>: \<^verbatim>\<open>dev/pcie_link.hh\<close>, \<^verbatim>\<open>dev/pcie_link.cc\<close>.  Packets live in a store with explicit
    allocation and deletion, the events of the simulator are the rules of a step relation.  In every
    reachable state the packets delivered at one end are a prefix of those accepted at the other.
  \<^item> \<^verbatim>\<open>Pcie_Ack\<close>: the acknowledgements of the link.  In every reachable state an acknowledgement removes exactly
    the packets up to its number from the replay buffer; one sent before the first delivery wraps around and
    removes all of them.
  \<^item> \<^verbatim>\<open>Abstract_Mem\<close>: \<^verbatim>\<open>mem/abstract_mem.hh\<close>, \<^verbatim>\<open>mem/abstract_mem.cc\<close>.  The base class of the memories satisfies
    the contract of \<^verbatim>\<open>Byte_Memory\<close> extended by one monitor for each context.  A store conditional
    succeeds exactly when nothing that started in its granule was stored since the load locked; stores
    that reach into the granule from an earlier one are missed.
  \<^item> \<^verbatim>\<open>Physical_Mem\<close>: \<^verbatim>\<open>mem/physical.hh\<close>, \<^verbatim>\<open>mem/physical.cc\<close>.  The memories of a system behind one range map, with
    backing stores that interleaved memories share.  Range map and memories together satisfy the
    contract of \<^verbatim>\<open>Byte_Memory\<close>; a checkpoint, read in chunks, restores the bytes.
  \<^item> \<^verbatim>\<open>Deferred_Queue\<close>: what the queues of timed packets share.  A locale states the contract of an insertion
    that never overtakes a packet of the same address and derives that packets of an address leave in the
    order they came; the packet queue and the memory controller interpret it.
  \<^item> \<^verbatim>\<open>Packet_Queue\<close>: \<^verbatim>\<open>mem/packet_queue.hh\<close>, \<^verbatim>\<open>mem/packet_queue.cc\<close>.  A step relation in which the peer may
    call back while it is being called, and in which an operation that stops the simulator is a step to a
    stopped state.  The queue is bounded, sends every packet once, and keeps its order; a waiting packet always has
    a retry or an event to come.  The event fails its assertion when a packet was added while a refused one was
    being sent, and such a run is exhibited; a retry never fails.
  \<^item> \<^verbatim>\<open>Simple_Mem\<close>: \<^verbatim>\<open>mem/simple_mem.hh\<close>, \<^verbatim>\<open>mem/simple_mem.cc\<close> on top of \<^verbatim>\<open>Abstract_Mem\<close>.  Whatever the timing, the
    controller answers like an ideal memory in the order of acceptance; it respects its bandwidth, loses
    no retry and sends no response early; functional reads can miss accepted writes.
  \<^item> \<^verbatim>\<open>Xbar\<close>, \<^verbatim>\<open>Xbar_Layer\<close>: \<^verbatim>\<open>mem/xbar.hh\<close>, \<^verbatim>\<open>mem/xbar.cc\<close>.  Routing on top of \<^verbatim>\<open>Addr_Range_Map\<close>: range changes give a
    port exactly its ranges, and the ranges announced are exactly those routed.  The arbitration of a layer
    forgets no waiting port.
  \<^item> \<^verbatim>\<open>Noncoherent_Xbar\<close>: \<^verbatim>\<open>mem/noncoherent_xbar.cc\<close>.  Routing, layers and response queues composed, with an alphabet of
    all timing operations: requests, responses, retries, releases of layers, transmissions of queued responses
    and the answers of the peers.  A response is queued once, at the port its request came from.
  \<^item> \<^verbatim>\<open>Mem_Bridge\<close>: \<^verbatim>\<open>mem/bridge.hh\<close>, \<^verbatim>\<open>mem/bridge.cc\<close>.  The bridge between two buses with its reserved response
    slots: both queues stay within their sizes, packets keep their order, and no retry is forgotten.
  \<^item> \<^verbatim>\<open>Event_Queue\<close>: \<^verbatim>\<open>sim/eventq.hh\<close>, \<^verbatim>\<open>sim/eventq.cc\<close>.  Events in a store, linked into bins and stacks
    by pointers of which some are stale.  Insertion and removal refine those on a list of bins.
  \<^item> \<^verbatim>\<open>Event_Queue_Steps\<close>: the operations on the queue as a step relation.  In every reachable state
    exactly the scheduled events are in the bins; a locale states the order of service and is
    interpreted on the queue; servicing a window returns; restoring a checkpoint loses events; the
    debugging check is characterised exactly.

  This theory composes the device, its configuration space and its memory: data written before a
  configuration write that moves the region are read back after it.

  \<^bold>\<open>Bounds.\<close>  All definitions are total.  The loop over acknowledged packets is the only one with fuel; it gets
  one more than the number of buffered packets, and the termination theorem shows that it never runs out.
  The loops of the event queue over pointers return no value when they do not end; on a well-formed queue
  they are shown to return.

  \<^bold>\<open>Arguments of the model.\<close>  The address translation of the platform (\<^verbatim>\<open>pioAddr\<close>, \<^verbatim>\<open>memAddr\<close>, \<^verbatim>\<open>dmaAddr\<close>), the
  floating-point transmission and retry times and the random variation of the link, the time the memory
  controller needs for a size and its random latency, the clock edges of a crossbar and of a bridge, whether a neighbour accepts a packet, the result of mapping host memory, and the contents of memory the code leaves uninitialised.

  \<^bold>\<open>Not modelled.\<close>  Threads and barriers between several event queues (the step relations of the devices
  fire any scheduled event whose time is next), checkpoints other than those of events, PCI functions and the physical memory, statistics and
  debug output, and the parts of gem5 the theorems do not rest on: processors, instruction sets, caches, coherence protocols with the
  coherent crossbar, DRAM timing, disks, networks and the Python configuration layer.
\<close>

section \<open>Composition\<close>

text \<open>
  C10: Data survive a move of the region: bytes written to the CXL memory, followed by any successful
  write to its configuration space, in particular one that programs the base address register, are
  read back at the same distance from the start of the new region, after the device latency plus the
  latency of the CXL layer.
\<close>

theorem write_survives_move:
  assumes "cxl_inv c" "simple_write w" "simple_read r" "p_size r = p_size w" "k + unat (p_size w) \<le> cxl_size c"
    "p_addr w = bar_addr (BARs (cxl_dev c) ! 0) + of_nat k" "cxl_write w c = Inr (t1, q1, c1)"
    "cxl_writeConfig cfg c1 = Inr (t, cfg', c2, changed)" "region_fits c2"
    "p_addr r = bar_addr (BARs (cxl_dev c2) ! 0) + of_nat k"
  shows "\<exists>q2 c3. cxl_read r c2 = Inr (latency c + cxl_mem_latency c, q2, c3) \<and> p_cmd q2 = ReadResp \<and> the (p_data q2) = the (p_data w)"
proof -
  have run: "mem_access w c = Inr (q1, c1)" using cxl_access_latency assms(7) by blast
  have dev: "cxl_dev c1 = cxl_dev c" and lat: "latency c2 = latency c" "cxl_mem_latency c2 = cxl_mem_latency c"
    using mem_access_frame [OF run] assms(8) by (auto simp: cxl_writeConfig_def res_simps)
  have fits: "region_fits c" using assms(1) by (simp add: cxl_inv_def)
  note w_at = offset_address [OF fits _ assms(6)]
  have "in_region w c" using w_at [of 0] assms(2,5) by (simp add: in_region_def simple_write_def)
  from cxl_write_law [OF assms(1) this assms(2)] run
  have c1: "cxl_inv c1" "byte_at c1 = store_view w (byte_at c)" by auto
  have moved: "cxl_inv c2" "cxl_size c2 = cxl_size c"
    "byte_at c2 (bar_addr (BARs (cxl_dev c2) ! 0) + of_nat j) = byte_at c1 (bar_addr (BARs (cxl_dev c) ! 0) + of_nat j)"
    if "j < cxl_size c" for j
    using cxl_move [OF c1(1) assms(8,9)] that by (auto simp: dev)
  have pos: "k < cxl_size c" using assms(2,5) by (simp add: simple_write_def)
  note r_at = offset_address [OF assms(9) _ assms(10)]
  have "in_region r c2"
    using r_at [of 0] pos moved(2) [OF pos] assms(4,5) by (simp add: in_region_def)
  from cxl_read_law [OF moved(1) [OF pos] this assms(3)] obtain q2 c3
    where q2: "mem_access r c2 = Inr (q2, c3)" "p_cmd q2 = ReadResp" "load_ok r q2 (byte_at c2)" by blast
  have "the (p_data q2) ! i = the (p_data w) ! i" if i: "i < unat (p_size w)" for i
  proof -
    let ?x = "p_addr w + of_nat i" and ?y = "p_addr r + of_nat i"
    have x: "unat ?x = unat (p_addr w) + i" "?x = bar_addr (BARs (cxl_dev c) ! 0) + of_nat (k + i)"
      using w_at [of i] i assms(5,6) by (simp_all add: add.assoc)
    have y: "unat ?y = unat (p_addr r) + i" "?y = bar_addr (BARs (cxl_dev c2) ! 0) + of_nat (k + i)"
      using r_at [of i] i assms(5,10) moved(2) [OF pos] by (simp_all add: add.assoc)
    have "byte_at c2 ?y = byte_at c1 ?x"
      unfolding x(2) y(2) by (rule moved(3)) (use i assms(5) in simp)
    moreover have "pkt_covers w ?x" "pkt_covers r ?y" using x(1) y(1) i assms(4) by (simp_all add: pkt_covers_def)
    ultimately show ?thesis using q2(3) x(1) y(1) c1(2) by (auto simp: load_ok_def store_view_def)
  qed
  moreover have "length (the (p_data q2)) = unat (p_size w)" "length (the (p_data w)) = unat (p_size w)"
    using q2(3) assms(2,4) by (auto simp: load_ok_def simple_write_def)
  ultimately have "the (p_data q2) = the (p_data w)" by (intro nth_equalityI) simp_all
  then show ?thesis using q2 cxl_read_returns [OF assms(3) q2(1)] by (simp add: lat)
qed

theorem write_survives_move_witness:
  "\<exists>c t1 q1 c1 t p c2 b q2 c3. sample_cxl = Inr c \<and> cxl_write (data_packet WriteReq 0x10 [1, 2]) c = Inr (t1, q1, c1) \<and>
     cxl_writeConfig (data_packet WriteReq 0x10 (le_bytes 4 0x40000000)) c1 = Inr (t, p, c2, b) \<and>
     cxl_read (data_packet ReadReq 0x40000010 [0, 0]) c2 = Inr (150, q2, c3) \<and> the (p_data q2) = [1, 2]"
proof -
  let ?w = "data_packet WriteReq 0x10 [1, 2]" and ?r = "data_packet ReadReq 0x40000010 [0, 0]"
  obtain c where c: "sample_cxl = Inr c" "cxl_inv c" "BARs (cxl_dev c) ! 0 = PciMemBar 0 0x10000 True 0 0"
    "PciDevice_new sample_host sample_params = Inr (cxl_dev c)" "latency c = 100" "cxl_mem_latency c = 50"
    using sample_cxl_inv by blast
  have wr: "simple_write ?w" "simple_read ?r" by (simp_all add: simple_data_packets)
  have "in_region ?w c" by (simp add: in_region_def c(3))
  from cxl_write_law [OF c(2) this wr(1)] obtain q1 c1 where run: "mem_access ?w c = Inr (q1, c1)" by blast
  note c1 = cxl_write_returns [OF wr(1) run]
  have dev: "cxl_dev c1 = cxl_dev c" using mem_access_frame [OF run] by simp
  obtain t p d b where "writeConfig (data_packet WriteReq 0x10 (le_bytes 4 0x40000000)) (cxl_dev c1) = Inr (t, p, d, b)"
    and d: "BARs d ! 0 = PciMemBar 0x40000000 0x10000 True 0x40000000 0"
    using sample_device_move c(4) dev by metis
  then have c2: "cxl_writeConfig (data_packet WriteReq 0x10 (le_bytes 4 0x40000000)) c1 = Inr (t, p, c1\<lparr>cxl_dev := d\<rparr>, b)"
    by (simp add: cxl_writeConfig_def)
  have "\<exists>q2 c3. cxl_read ?r (c1\<lparr>cxl_dev := d\<rparr>) = Inr (latency c + cxl_mem_latency c, q2, c3) \<and> p_cmd q2 = ReadResp \<and> the (p_data q2) = the (p_data ?w)"
    by (rule write_survives_move [OF c(2) wr _ _ _ c1 c2, of 16]) (simp_all add: c(3) d region_fits_def)
  then show ?thesis using c(1,5,6) c1 c2 by auto
qed

end
